(* ===== verification/Prelude.thy ===== *)
theory Prelude
  imports Main "HOL-Library.Word" "HOL-Library.Monad_Syntax"
begin

text \<open>
  Shared vocabulary of the development: the machine integer types of the C code, the two
  checked memory accesses every component goes through, little-endian byte strings, the
  outcome type of fuelled runs, and the generic list and word lemmas the component proofs
  use.  A partial result \<open>None\<close> stands for C behaviour the program must never reach
  (an access outside an allocated block) or, where a definition says so, for a loop that
  does not return.
\<close>

unbundle bit_operations_syntax

type_synonym u8 = "8 word"
type_synonym i32 = "32 word"
type_synonym u32 = "32 word"
type_synonym i64 = "64 word"
type_synonym u64 = "64 word"

named_theorems mem_simps \<open>rewrite rules for checked loads and stores\<close>

abbreviation size_max :: nat where
  "size_max \<equiv> 2 ^ 64"

section \<open>Checked memory access\<close>

definition load :: "'a list \<Rightarrow> nat \<Rightarrow> 'a option" where
  "load d i = (if i < length d then Some (d ! i) else None)"

definition store :: "'a list \<Rightarrow> nat \<Rightarrow> 'a \<Rightarrow> 'a list option" where
  "store d i x = (if i < length d then Some (d[i := x]) else None)"

definition memmove :: "'a list \<Rightarrow> nat \<Rightarrow> nat \<Rightarrow> nat \<Rightarrow> 'a list option" where
  "memmove d dst src n =
     (if src + n \<le> length d \<and> dst + n \<le> length d
      then Some (take dst d @ take n (drop src d) @ drop (dst + n) d)
      else None)"

lemma load_Some [mem_simps]: "i < length d \<Longrightarrow> load d i = Some (d ! i)"
  by (simp add: load_def)

lemma load_None [mem_simps]: "length d \<le> i \<Longrightarrow> load d i = None"
  by (simp add: load_def)

lemma store_Some [mem_simps]: "i < length d \<Longrightarrow> store d i x = Some (d[i := x])"
  by (simp add: store_def)

lemma store_None [mem_simps]: "length d \<le> i \<Longrightarrow> store d i x = None"
  by (simp add: store_def)

lemma memmove_Some [mem_simps]:
  "src + n \<le> length d \<Longrightarrow> dst + n \<le> length d \<Longrightarrow>
   memmove d dst src n = Some (take dst d @ take n (drop src d) @ drop (dst + n) d)"
  by (simp add: memmove_def)

lemma memmove_None [mem_simps]:
  "length d < src + n \<or> length d < dst + n \<Longrightarrow> memmove d dst src n = None"
  by (auto simp: memmove_def)

section \<open>Outcomes of fuelled runs\<close>

datatype 'a outcome = Timeout | Crash | Done 'a

fun then_do :: "'a outcome \<Rightarrow> ('a \<Rightarrow> 'b outcome) \<Rightarrow> 'b outcome" where
  "then_do Timeout k = Timeout"
| "then_do Crash k = Crash"
| "then_do (Done x) k = k x"

lemma then_do_assoc: "then_do (then_do r k) l = then_do r (\<lambda>x. then_do (k x) l)"
  by (cases r) simp_all

lemma then_do_cong [fundef_cong]:
  "r = r' \<Longrightarrow> (\<And>x. r' = Done x \<Longrightarrow> k x = k' x) \<Longrightarrow> then_do r k = then_do r' k'"
  by (cases r') simp_all

lemma then_do_eq_Done: "then_do r k = Done y \<longleftrightarrow> (\<exists>x. r = Done x \<and> k x = Done y)"
  by (cases r) simp_all

lemma then_do_Done_right [simp]: "then_do r Done = r"
  by (cases r) simp_all

fun of_option :: "'a option \<Rightarrow> 'a outcome" where
  "of_option None = Crash"
| "of_option (Some x) = Done x"

section \<open>Lists\<close>

lemma take_update_append:
  "i < length d \<Longrightarrow> take (Suc i) (d[i := x]) = take i d @ [x]"
  by (simp add: take_Suc_conv_app_nth)

lemma update_last: "xs \<noteq> [] \<Longrightarrow> xs[length xs - 1 := y] = butlast xs @ [y]"
  by (cases xs rule: rev_cases) simp_all

lemma nth_take_eq: "i < n \<Longrightarrow> take n xs ! i = xs ! i"
  by simp

section \<open>Words\<close>

lemma unat_of_nat_small: "n < 2 ^ LENGTH('a) \<Longrightarrow> unat (of_nat n :: 'a::len word) = n"
  by (simp add: unsigned_of_nat take_bit_nat_eq_self)

lemma ucast_add_down:
  fixes a b :: "'a::len word"
  assumes "LENGTH('b) \<le> LENGTH('a)"
  shows "(ucast (a + b) :: 'b::len word) = ucast a + ucast b"
proof (rule word_uint_eqI)
  have "uint (ucast (a + b) :: 'b word) = take_bit LENGTH('b) (uint a + uint b)"
    using assms by (simp add: unsigned_ucast_eq uint_word_ariths(1) take_bit_take_bit
        take_bit_eq_mod [symmetric] min.absorb1)
  also have "\<dots> = uint (ucast a + ucast b :: 'b word)"
    by (simp add: unsigned_ucast_eq uint_word_ariths(1) take_bit_eq_mod [symmetric] take_bit_add)
  finally show "uint (ucast (a + b) :: 'b word) = uint (ucast a + ucast b :: 'b word)" .
qed

lemma ucast_minus_down:
  fixes a :: "'a::len word"
  assumes "LENGTH('b) \<le> LENGTH('a)"
  shows "(ucast (- a) :: 'b::len word) = - ucast a"
proof -
  have "(ucast (- a) :: 'b word) + ucast a = ucast (- a + a)"
    using assms by (simp only: ucast_add_down)
  then have "(ucast (- a) :: 'b word) + ucast a = 0" by simp
  then show ?thesis by (simp add: add_eq_0_iff2)
qed

lemma ucast_of_nat_down:
  assumes "LENGTH('b) \<le> LENGTH('a)"
  shows "(ucast (of_nat n :: 'a::len word) :: 'b::len word) = of_nat n"
proof (induction n)
  case (Suc n)
  have "ucast (1 :: 'a word) = (1 :: 'b word)"
    by (simp add: unsigned_1)
  then show ?case using Suc assms by (simp add: ucast_add_down)
qed simp

section \<open>A 32-bit integer as the four bytes it occupies in memory (little-endian)\<close>

definition le32 :: "u32 \<Rightarrow> u8 list" where
  "le32 w = [ucast w, ucast (drop_bit 8 w), ucast (drop_bit 16 w), ucast (drop_bit 24 w)]"

lemma length_le32 [simp]: "length (le32 w) = 4"
  by (simp add: le32_def)

section \<open>Digits\<close>

text \<open>\<open>%lu\<close> and the digits of \<open>%ld\<close>; \<open>%lx\<close>.\<close>

fun dec_digits :: "nat \<Rightarrow> string" where
  "dec_digits n =
     (if n < 10 then [char_of (48 + n)] else dec_digits (n div 10) @ [char_of (48 + n mod 10)])"

declare dec_digits.simps [simp del]

fun hex_digits :: "nat \<Rightarrow> string" where
  "hex_digits n = (if n < 16 then [''0123456789abcdef'' ! n] else hex_digits (n div 16) @ [''0123456789abcdef'' ! (n mod 16)])"

declare hex_digits.simps [simp del]

lemma length_dec_digits: "n < 10 ^ Suc k \<Longrightarrow> length (dec_digits n) \<le> Suc k"
proof (induction k arbitrary: n)
  case (Suc k)
  then have "n div 10 < 10 ^ Suc k" by (simp add: div_less_iff_less_mult)
  from Suc.IH [OF this] show ?case by (subst dec_digits.simps) simp
qed (simp add: dec_digits.simps)

lemma length_hex_digits: "n < 16 ^ Suc k \<Longrightarrow> length (hex_digits n) \<le> Suc k"
proof (induction k arbitrary: n)
  case (Suc k)
  then have "n div 16 < 16 ^ Suc k" by (simp add: div_less_iff_less_mult)
  from Suc.IH [OF this] show ?case by (subst hex_digits.simps) simp
qed (simp add: hex_digits.simps)

end
