(* ===== verification/Vec.thy ===== *)
theory Vec
  imports Prelude
begin

text \<open>
  The growable array of \<open>csrc/include/rxi/vec.h\<close>.  The anonymous struct of \<open>vec_t\<close>
  is the record \<open>vec\<close>, extended by the structs that embed it.  \<open>vdata\<close> is the
  memory block \<open>data\<close> points to, one list entry per element slot and \<open>[]\<close> for
  \<open>NULL\<close>; every read and write goes through the checked accesses of \<open>Prelude\<close>,
  so that an access outside the block is \<open>None\<close>.  The C allocator behind
  \<open>VEC_ALLOC\<close> is the parameter \<open>allocator\<close>: which request sizes (in bytes) it
  serves, what a fresh slot holds, and the element size \<open>sizeof( *data)\<close>.
\<close>

section \<open>State and allocator\<close>

record 'a vec =
  borrowed :: bool
  vlength :: nat
  vcapacity :: nat
  vdata :: "'a list"

record 'a allocator =
  avail :: "nat \<Rightarrow> bool"
  junk :: "nat \<Rightarrow> 'a"
  memsz :: nat

datatype rc = RC_OK | RC_ERR

definition vec_init :: "'a vec" where
  "vec_init = \<lparr>borrowed = False, vlength = 0, vcapacity = 0, vdata = []\<rparr>"

definition vec_list :: "('a, 'z) vec_scheme \<Rightarrow> 'a list" where
  "vec_list v = take (vlength v) (vdata v)"

definition vec_ok :: "('a, 'z) vec_scheme \<Rightarrow> bool" where
  "vec_ok v \<longleftrightarrow> \<not> borrowed v \<and> vlength v \<le> vcapacity v \<and> length (vdata v) = vcapacity v"

text \<open>An allocator that serves every vector of up to \<open>lim\<close> elements.\<close>

definition roomy :: "'a allocator \<Rightarrow> nat \<Rightarrow> bool" where
  "roomy A lim \<longleftrightarrow> 0 < memsz A \<and> 2 * lim * memsz A < size_max
     \<and> (\<forall>b \<le> 2 * lim * memsz A. avail A b)"

text \<open>Such an allocator exists: one that serves every request below half the address space.\<close>

definition heap_of :: "'a \<Rightarrow> nat \<Rightarrow> 'a allocator" where
  "heap_of x sz = \<lparr>avail = (\<lambda>b. b < 2 ^ 62), junk = (\<lambda>_. x), memsz = sz\<rparr>"

lemma roomy_heap: "0 < sz \<Longrightarrow> 2 * lim * sz < 2 ^ 62 \<Longrightarrow> roomy (heap_of x sz) lim"
  by (auto simp: roomy_def heap_of_def)

section \<open>Growing the block\<close>

text \<open>
  The shared body of \<open>vec_expand_\<close> and \<open>vec_reserve_\<close>: \<open>VEC_ALLOC\<close> of
  \<open>n * memsz\<close> bytes, where the caller may pass a multiple \<open>k\<close> of the element size
  as \<open>memsz\<close>.  An owned block is reallocated; a borrowed one is copied, and the copy
  moves \<open>length\<close> bytes.
\<close>

definition vec_grow :: "'a allocator \<Rightarrow> nat \<Rightarrow> ('a, 'z) vec_scheme \<Rightarrow> nat
    \<Rightarrow> rc \<times> ('a, 'z) vec_scheme" where
  "vec_grow A k v n =
     (let bytes = (n * (memsz A * k)) mod size_max;
          m = bytes div memsz A;
          old = (if borrowed v then take (vlength v div memsz A) (vdata v) else vdata v)
      in if avail A bytes
         then (RC_OK, v\<lparr>vdata := take m old @ map (junk A) [length old..<m],
                        vcapacity := n, borrowed := False\<rparr>)
         else (RC_ERR, v))"

definition vec_expand :: "'a allocator \<Rightarrow> nat \<Rightarrow> ('a, 'z) vec_scheme
    \<Rightarrow> rc \<times> ('a, 'z) vec_scheme" where
  "vec_expand A k v =
     (if vlength v + 1 > vcapacity v
      then vec_grow A k v (if vcapacity v = 0 then 1 else (2 * vcapacity v) mod size_max)
      else (RC_OK, v))"

definition vec_reserve :: "'a allocator \<Rightarrow> ('a, 'z) vec_scheme \<Rightarrow> nat
    \<Rightarrow> rc \<times> ('a, 'z) vec_scheme" where
  "vec_reserve A v n = (if n > vcapacity v then vec_grow A 1 v n else (RC_OK, v))"

text \<open>The loop \<open>while (n2 < n) n2 <<= 1\<close> on \<open>size_t\<close>; \<open>None\<close> is a loop that never ends.\<close>

partial_function (option) po2_loop :: "nat \<Rightarrow> nat \<Rightarrow> nat option" where
  "po2_loop n2 n = (if n2 < n then po2_loop ((2 * n2) mod size_max) n else Some n2)"

definition vec_reserve_po2 :: "'a allocator \<Rightarrow> ('a, 'z) vec_scheme \<Rightarrow> nat
    \<Rightarrow> (rc \<times> ('a, 'z) vec_scheme) option" where
  "vec_reserve_po2 A v n =
     (if n = 0 then Some (RC_OK, v)
      else do { n2 \<leftarrow> po2_loop 1 n; Some (vec_reserve A v n2) })"

section \<open>Operations\<close>

definition vec_get :: "('a, 'z) vec_scheme \<Rightarrow> nat \<Rightarrow> 'a option" where
  "vec_get v i = load (vdata v) i"

definition vec_set :: "('a, 'z) vec_scheme \<Rightarrow> nat \<Rightarrow> 'a \<Rightarrow> ('a, 'z) vec_scheme option" where
  "vec_set v i x = map_option (\<lambda>d. v\<lparr>vdata := d\<rparr>) (store (vdata v) i x)"

definition vec_last :: "('a, 'z) vec_scheme \<Rightarrow> 'a option" where
  "vec_last v = (if vlength v = 0 then None else load (vdata v) (vlength v - 1))"

definition vec_append1 :: "('a, 'z) vec_scheme \<Rightarrow> 'a \<Rightarrow> ('a, 'z) vec_scheme option" where
  "vec_append1 v x =
     map_option (\<lambda>d. v\<lparr>vdata := d, vlength := vlength v + 1\<rparr>) (store (vdata v) (vlength v) x)"

definition vec_push :: "'a allocator \<Rightarrow> ('a, 'z) vec_scheme \<Rightarrow> 'a
    \<Rightarrow> (rc \<times> ('a, 'z) vec_scheme) option" where
  "vec_push A v x =
     (case vec_expand A 1 v of
        (RC_ERR, v') \<Rightarrow> Some (RC_ERR, v')
      | (RC_OK, v') \<Rightarrow> map_option (Pair RC_OK) (vec_append1 v' x))"

fun vec_push_each :: "('a, 'z) vec_scheme \<Rightarrow> 'a list \<Rightarrow> ('a, 'z) vec_scheme option" where
  "vec_push_each v [] = Some v"
| "vec_push_each v (x # xs) = do { v' \<leftarrow> vec_append1 v x; vec_push_each v' xs }"

definition vec_pusharr :: "'a allocator \<Rightarrow> ('a, 'z) vec_scheme \<Rightarrow> 'a list
    \<Rightarrow> ('a, 'z) vec_scheme option" where
  "vec_pusharr A v arr = do {
     (r, v') \<leftarrow> vec_reserve_po2 A v (vlength v + length arr);
     if r = RC_OK then vec_push_each v' arr else Some v' }"

definition vec_extend :: "'a allocator \<Rightarrow> ('a, 'z) vec_scheme \<Rightarrow> ('a, 'y) vec_scheme
    \<Rightarrow> ('a, 'z) vec_scheme option" where
  "vec_extend A v v2 =
     (if vlength v2 \<le> length (vdata v2) then vec_pusharr A v (vec_list v2) else None)"

definition vec_pop :: "('a, 'z) vec_scheme \<Rightarrow> ('a \<times> ('a, 'z) vec_scheme) option" where
  "vec_pop v =
     (if vlength v = 0 then None
      else do { x \<leftarrow> load (vdata v) (vlength v - 1); Some (x, v\<lparr>vlength := vlength v - 1\<rparr>) })"

definition vec_truncate :: "('a, 'z) vec_scheme \<Rightarrow> nat \<Rightarrow> ('a, 'z) vec_scheme" where
  "vec_truncate v len = v\<lparr>vlength := (if len < vlength v then len else vlength v)\<rparr>"

definition vec_clear :: "('a, 'z) vec_scheme \<Rightarrow> ('a, 'z) vec_scheme" where
  "vec_clear v = v\<lparr>vlength := 0\<rparr>"

text \<open>\<open>vec_compact_\<close>: an empty vector has its block freed, which a borrowed one may not.\<close>

definition vec_compact :: "'a allocator \<Rightarrow> ('a, 'z) vec_scheme
    \<Rightarrow> (rc \<times> ('a, 'z) vec_scheme) option" where
  "vec_compact A v =
     (if vlength v = 0
      then if borrowed v \<and> vdata v \<noteq> [] then None
           else Some (RC_OK, v\<lparr>vdata := [], vcapacity := 0\<rparr>)
      else if borrowed v then Some (RC_OK, v\<lparr>vcapacity := vlength v\<rparr>)
      else Some (vec_grow A 1 v (vlength v)))"

text \<open>
  Insertion and removal in the middle.  \<open>vec_insert_\<close> asks \<open>vec_expand_\<close> for room
  for one more element, with \<open>memsz * count\<close> as the element size, then shifts the tail.
\<close>

definition vec_insert_gap :: "'a allocator \<Rightarrow> ('a, 'z) vec_scheme \<Rightarrow> nat \<Rightarrow> nat
    \<Rightarrow> (rc \<times> ('a, 'z) vec_scheme) option" where
  "vec_insert_gap A v idx count =
     (case vec_expand A count v of
        (RC_ERR, v') \<Rightarrow> Some (RC_ERR, v')
      | (RC_OK, v') \<Rightarrow>
          if vlength v' < idx then None
          else map_option (\<lambda>d. (RC_OK, v'\<lparr>vdata := d\<rparr>))
                 (memmove (vdata v') (idx + count) idx (vlength v' - idx)))"

definition vec_insert :: "'a allocator \<Rightarrow> ('a, 'z) vec_scheme \<Rightarrow> nat \<Rightarrow> 'a
    \<Rightarrow> (rc \<times> ('a, 'z) vec_scheme) option" where
  "vec_insert A v idx x = do {
     (r, v') \<leftarrow> vec_insert_gap A v idx 1;
     if r = RC_ERR then Some (RC_ERR, v')
     else do { w \<leftarrow> vec_set v' idx x; Some (RC_OK, w\<lparr>vlength := vlength w + 1\<rparr>) } }"

fun vec_set_each :: "('a, 'z) vec_scheme \<Rightarrow> nat \<Rightarrow> 'a list \<Rightarrow> ('a, 'z) vec_scheme option" where
  "vec_set_each v i [] = Some v"
| "vec_set_each v i (x # xs) = do { v' \<leftarrow> vec_set v i x; vec_set_each v' (i + 1) xs }"

definition vec_insertarr :: "'a allocator \<Rightarrow> ('a, 'z) vec_scheme \<Rightarrow> nat \<Rightarrow> 'a list
    \<Rightarrow> ('a, 'z) vec_scheme option" where
  "vec_insertarr A v idx arr = do {
     (r, v') \<leftarrow> vec_insert_gap A v idx (length arr);
     if r = RC_ERR then Some v'
     else vec_set_each (v'\<lparr>vlength := vlength v' + length arr\<rparr>) idx arr }"

definition vec_splice :: "('a, 'z) vec_scheme \<Rightarrow> nat \<Rightarrow> nat \<Rightarrow> ('a, 'z) vec_scheme option" where
  "vec_splice v start count =
     (if vlength v < start + count then None
      else map_option (\<lambda>d. v\<lparr>vdata := d, vlength := vlength v - count\<rparr>)
             (memmove (vdata v) start (start + count) (vlength v - start - count)))"

definition vec_swapsplice :: "('a, 'z) vec_scheme \<Rightarrow> nat \<Rightarrow> nat \<Rightarrow> ('a, 'z) vec_scheme option" where
  "vec_swapsplice v start count =
     (if vlength v < count then None
      else map_option (\<lambda>d. v\<lparr>vdata := d, vlength := vlength v - count\<rparr>)
             (memmove (vdata v) start (vlength v - count) count))"

definition vec_swap :: "('a, 'z) vec_scheme \<Rightarrow> nat \<Rightarrow> nat \<Rightarrow> ('a, 'z) vec_scheme option" where
  "vec_swap v i j =
     (if i = j then Some v
      else do { a \<leftarrow> vec_get v i; b \<leftarrow> vec_get v j; v' \<leftarrow> vec_set v i b; vec_set v' j a })"

function vec_find_from :: "('a, 'z) vec_scheme \<Rightarrow> 'a \<Rightarrow> nat \<Rightarrow> nat option option" where
  "vec_find_from v x i =
     (if i < vlength v
      then do { y \<leftarrow> vec_get v i; if y = x then Some (Some i) else vec_find_from v x (i + 1) }
      else Some None)"
  by pat_completeness auto
termination
  by (relation "measure (\<lambda>(v, x, i). vlength v - i)") auto

declare vec_find_from.simps [simp del]

definition vec_find :: "('a, 'z) vec_scheme \<Rightarrow> 'a \<Rightarrow> nat option option" where
  "vec_find v x = vec_find_from v x 0"

definition vec_remove :: "('a, 'z) vec_scheme \<Rightarrow> 'a \<Rightarrow> ('a, 'z) vec_scheme option" where
  "vec_remove v x = do {
     idx \<leftarrow> vec_find v x;
     case idx of None \<Rightarrow> Some v | Some i \<Rightarrow> vec_splice v i 1 }"

fun vec_reverse_loop :: "('a, 'z) vec_scheme \<Rightarrow> nat \<Rightarrow> ('a, 'z) vec_scheme option" where
  "vec_reverse_loop v 0 = Some v"
| "vec_reverse_loop v (Suc i) =
     do { v' \<leftarrow> vec_swap v i (vlength v - (i + 1)); vec_reverse_loop v' i }"

text \<open>The counter is an \<open>int\<close>; a negative one makes the first swap access memory far outside.\<close>

definition vec_reverse :: "('a, 'z) vec_scheme \<Rightarrow> ('a, 'z) vec_scheme option" where
  "vec_reverse v =
     (let i = sint (of_nat (vlength v div 2) :: i32)
      in if i < 0 then None else vec_reverse_loop v (nat i))"

definition vec_fill :: "'a allocator \<Rightarrow> ('a, 'z) vec_scheme \<Rightarrow> 'a \<Rightarrow> nat
    \<Rightarrow> ('a, 'z) vec_scheme option" where
  "vec_fill A v x count = do {
     (r, v') \<leftarrow> vec_reserve_po2 A v (vlength v + count);
     if r = RC_OK then vec_push_each v' (replicate count x) else Some v' }"

definition vec_first :: "('a, 'z) vec_scheme \<Rightarrow> 'a option" where
  "vec_first v = load (vdata v) 0"

text \<open>
  Initialisers: a vector over memory of its caller, and copies in a block of their own.
  \<open>memcpy\<close> into the null pointer of a refused allocation is \<open>None\<close>.
\<close>

definition vec_borrowed :: "'a list \<Rightarrow> nat \<Rightarrow> nat \<Rightarrow> 'a vec" where
  "vec_borrowed d len cap = \<lparr>borrowed = True, vlength = len, vcapacity = cap, vdata = d\<rparr>"

definition vec_owned :: "'a allocator \<Rightarrow> 'a list \<Rightarrow> nat \<Rightarrow> nat \<Rightarrow> 'a vec option" where
  "vec_owned A d len cap =
     (let bytes = (cap * memsz A) mod size_max; m = bytes div memsz A
      in if \<not> avail A bytes \<or> length d < len \<or> m < len then None
         else Some \<lparr>borrowed = False, vlength = len, vcapacity = cap, vdata = take len d @ map (junk A) [len..<m]\<rparr>)"

definition vec_copy :: "'a allocator \<Rightarrow> ('a, 'z) vec_scheme \<Rightarrow> 'a vec option" where
  "vec_copy A v = vec_owned A (vdata v) (vlength v) (vcapacity v)"

text \<open>\<open>vec_deinit\<close>: the blocks freed, and the vector left.\<close>

definition vec_deinit :: "('a, 'z) vec_scheme \<Rightarrow> 'a list list \<times> 'a vec" where
  "vec_deinit v = ((if borrowed v then [] else [vdata v]), vec_init)"

section \<open>Rounding up to a power of two\<close>

lemma po2_loop_total:
  assumes "0 < m" and "m < 2 * n" and "n \<le> 2 ^ 63"
  shows "\<exists>k. po2_loop m n = Some (m * 2 ^ k) \<and> n \<le> m * 2 ^ k \<and> m * 2 ^ k < 2 * n"
  using assms
proof (induction "n - m" arbitrary: m rule: less_induct)
  case less
  show ?case
  proof (cases "m < n")
    case True
    then have eq: "po2_loop m n = po2_loop (2 * m) n"
      using less.prems by (subst po2_loop.simps) simp
    have "n - 2 * m < n - m" and "0 < 2 * m" and "2 * m < 2 * n"
      using True less.prems by simp_all
    then obtain k where "po2_loop (2 * m) n = Some (2 * m * 2 ^ k)"
      and "n \<le> 2 * m * 2 ^ k" and "2 * m * 2 ^ k < 2 * n"
      using less.hyps less.prems(3) by blast
    then show ?thesis
      by (intro exI [of _ "Suc k"]) (simp add: eq)
  next
    case False
    then show ?thesis
      using less.prems by (intro exI [of _ 0]) (subst po2_loop.simps, simp)
  qed
qed

lemma po2_loop_result:
  assumes "po2_loop m n = Some r" and "m = 0 \<or> (\<exists>k < 64. m = 2 ^ k)"
  shows "n \<le> r \<and> r \<le> 2 ^ 63"
proof -
  have "(m = 0 \<or> (\<exists>k < 64. m = 2 ^ k)) \<longrightarrow> n \<le> r \<and> r \<le> 2 ^ 63"
  proof (rule po2_loop.raw_induct
      [where P = "\<lambda>m n r. (m = 0 \<or> (\<exists>k < 64. m = 2 ^ k)) \<longrightarrow> n \<le> r \<and> r \<le> 2 ^ 63", OF _ assms(1)],
      intro impI)
    fix f :: "nat \<Rightarrow> nat \<Rightarrow> nat option" and m n r
    assume IH: "\<And>m n r. f m n = Some r \<Longrightarrow>
        (m = 0 \<or> (\<exists>k < 64. m = 2 ^ k)) \<longrightarrow> n \<le> r \<and> r \<le> 2 ^ 63"
      and ret: "(if m < n then f ((2 * m) mod size_max) n else Some m) = Some r"
      and m: "m = 0 \<or> (\<exists>k < 64. m = 2 ^ k)"
    show "n \<le> r \<and> r \<le> 2 ^ 63"
    proof (cases "m < n")
      case True
      have "(2 * m) mod size_max = 0 \<or> (\<exists>k < 64. (2 * m) mod size_max = 2 ^ k)"
        using m
      proof
        assume "\<exists>k < 64. m = 2 ^ k"
        then obtain k where k: "k < 64" "m = 2 ^ k" by blast
        then have "k = 63 \<or> Suc k < 64" by auto
        then show ?thesis
        proof
          assume "Suc k < 64"
          then have "(2::nat) ^ Suc k < 2 ^ 64"
            by (rule power_strict_increasing) simp
          then have "(2 * m) mod size_max = 2 ^ Suc k"
            using k by simp
          then show ?thesis using \<open>Suc k < 64\<close> by blast
        qed (simp add: k)
      qed simp
      then show ?thesis
        using IH [of "(2 * m) mod size_max" n r] ret True by (auto simp del: power_numeral)
    next
      case False
      have "m \<le> 2 ^ 63"
        using m power_increasing [of _ 63 "2::nat"] by (auto simp del: power_numeral)
      then show ?thesis using False ret by simp
    qed
  qed
  then show ?thesis using assms(2) by blast
qed

lemma po2_loop_diverges: "2 ^ 63 < n \<Longrightarrow> po2_loop 1 n = None"
  using po2_loop_result [of 1 n] by (cases "po2_loop 1 n") (force intro: exI [of _ 0])+

section \<open>Growing keeps the contents\<close>

lemma vec_grow_ok:
  assumes "vec_ok v" and "0 < memsz A" and "n * memsz A < size_max" and "vcapacity v \<le> n"
    and "vec_grow A 1 v n = (r, v')"
  shows "vec_ok v' \<and> vec_list v' = vec_list v \<and> vlength v' = vlength v
    \<and> vec.more v' = vec.more v
    \<and> (if r = RC_OK then vcapacity v' = n else v' = v) \<and> (r = RC_OK \<longleftrightarrow> avail A (n * memsz A))"
  using assms
  by (auto simp: vec_grow_def vec_ok_def vec_list_def Let_def split: if_splits)

lemma vec_append1_ok:
  assumes "vec_ok v" and "vlength v < vcapacity v"
  shows "\<exists>v'. vec_append1 v x = Some v' \<and> vec_ok v' \<and> vec_list v' = vec_list v @ [x]
    \<and> vlength v' = vlength v + 1 \<and> vcapacity v' = vcapacity v \<and> vec.more v' = vec.more v"
  using assms
  by (auto simp: vec_append1_def vec_ok_def vec_list_def store_def take_update_append)

lemma vec_push_each_ok:
  assumes "vec_ok v" and "vlength v + length xs \<le> vcapacity v"
  shows "\<exists>v'. vec_push_each v xs = Some v' \<and> vec_ok v' \<and> vec_list v' = vec_list v @ xs
    \<and> vlength v' = vlength v + length xs \<and> vec.more v' = vec.more v"
  using assms
proof (induction xs arbitrary: v)
  case Nil
  then show ?case by simp
next
  case (Cons x xs)
  then obtain w where w: "vec_append1 v x = Some w" "vec_ok w" "vec_list w = vec_list v @ [x]"
      "vlength w = vlength v + 1" "vcapacity w = vcapacity v" "vec.more w = vec.more v"
    using vec_append1_ok [of v x] by auto
  with Cons.prems(2) obtain v' where "vec_push_each w xs = Some v'" "vec_ok v'"
      "vec_list v' = vec_list w @ xs" "vlength v' = vlength w + length xs"
      "vec.more v' = vec.more w"
    using Cons.IH [of w] by auto
  with w show ?case by simp
qed

lemma length_vec_list: "vec_ok v \<Longrightarrow> length (vec_list v) = vlength v"
  by (simp add: vec_ok_def vec_list_def)

lemma vec_get_ok: "vec_ok v \<Longrightarrow> i < vlength v \<Longrightarrow> vec_get v i = Some (vec_list v ! i)"
  by (simp add: vec_get_def vec_ok_def vec_list_def load_def)

lemma vec_last_ok:
  "vec_ok v \<Longrightarrow> 0 < vlength v \<Longrightarrow> vec_last v = Some (last (vec_list v))"
  proof -
  assume v: "vec_ok v" "0 < vlength v"
  then have "vec_list v \<noteq> []" by (auto simp: vec_ok_def vec_list_def)
  with v show ?thesis
    by (auto simp: vec_last_def vec_ok_def vec_list_def load_def last_conv_nth)
qed

lemma vec_set_ok:
  assumes "vec_ok v" and "i < vlength v"
  shows "\<exists>v'. vec_set v i x = Some v' \<and> vec_ok v' \<and> vec_list v' = (vec_list v)[i := x]
    \<and> vlength v' = vlength v \<and> vcapacity v' = vcapacity v \<and> vec.more v' = vec.more v"
  using assms
  by (auto simp: vec_set_def vec_ok_def vec_list_def store_def take_update_swap)

section \<open>Appending\<close>

lemma roomy_avail: "roomy A lim \<Longrightarrow> n \<le> 2 * lim \<Longrightarrow> avail A (n * memsz A) \<and> n * memsz A < size_max"
proof -
  assume A: "roomy A lim" and "n \<le> 2 * lim"
  then have "n * memsz A \<le> 2 * lim * memsz A" by simp
  with A show ?thesis
    by (metis le_less_trans roomy_def)
qed

lemma roomy_memsz: "roomy A lim \<Longrightarrow> 0 < memsz A"
  by (simp add: roomy_def)

lemma roomy_lim: "roomy A lim \<Longrightarrow> lim < 2 ^ 63"
proof -
  assume A: "roomy A lim"
  then have "2 * lim * 1 \<le> 2 * lim * memsz A"
    by (intro mult_le_mono) (auto simp: roomy_def)
  then have "2 * lim < size_max"
    using A unfolding roomy_def by linarith
  then show ?thesis by simp
qed

text \<open>
  \<open>vec_push\<close> under any allocator: it never writes outside the block, it appends the
  element when it returns 0, and leaves the vector as it was when it returns -1.
\<close>

lemma vec_push_any:
  assumes v: "vec_ok v" and sz: "0 < memsz A" "2 * (vcapacity v + 1) * memsz A < size_max"
  shows "\<exists>r v'. vec_push A v x = Some (r, v') \<and> vec_ok v' \<and> vec.more v' = vec.more v
    \<and> (r = RC_OK \<longrightarrow> vec_list v' = vec_list v @ [x]) \<and> (r = RC_ERR \<longrightarrow> v' = v)
    \<and> (r = RC_ERR \<longrightarrow> vlength v = vcapacity v
         \<and> \<not> avail A ((if vcapacity v = 0 then 1 else 2 * vcapacity v) * memsz A))"
proof (cases "vlength v + 1 > vcapacity v")
  case False
  then have "vec_expand A 1 v = (RC_OK, v)" by (simp add: vec_expand_def)
  with False v show ?thesis
    using vec_append1_ok [of v x] by (auto simp: vec_push_def simp del: One_nat_def)
next
  case True
  let ?n = "if vcapacity v = 0 then 1 else 2 * vcapacity v"
  obtain r w where g: "vec_grow A 1 v ?n = (r, w)" by fastforce
  have le: "?n * memsz A \<le> 2 * (vcapacity v + 1) * memsz A"
    by (intro mult_le_mono) auto
  have m: "2 * vcapacity v \<le> 2 * (vcapacity v + 1) * memsz A"
    using sz(1) mult_le_mono [of "2 * vcapacity v" "2 * (vcapacity v + 1)" 1 "memsz A"] by simp
  then have "2 * vcapacity v < size_max" using sz(2) by linarith
  then have e: "vec_expand A 1 v = (r, w)"
    using True g by (simp add: vec_expand_def split: if_splits)
  have w: "vec_ok w \<and> vec_list w = vec_list v \<and> vlength w = vlength v \<and> vec.more w = vec.more v
    \<and> (if r = RC_OK then vcapacity w = ?n else w = v) \<and> (r = RC_OK \<longleftrightarrow> avail A (?n * memsz A))"
    using sz(2) le by (intro vec_grow_ok [OF v sz(1) _ _ g]) (auto simp del: power_numeral)
  have full: "vlength v = vcapacity v" using True v by (simp add: vec_ok_def)
  show ?thesis
  proof (cases r)
    case RC_OK
    then show ?thesis
      using w full vec_append1_ok [of w x] by (auto simp: vec_push_def e simp del: One_nat_def split: if_splits)
  next
    case RC_ERR
    then show ?thesis using w full v by (simp add: vec_push_def e del: One_nat_def)
  qed
qed

lemma vec_pusharr_roomy:
  assumes v: "vec_ok v" and A: "roomy A lim" and len: "vlength v + length xs \<le> lim"
  shows "\<exists>v'. vec_pusharr A v xs = Some v' \<and> vec_ok v' \<and> vec_list v' = vec_list v @ xs
    \<and> vec.more v' = vec.more v"
proof (cases "vlength v + length xs = 0")
  case True
  then show ?thesis using v by (auto simp: vec_pusharr_def vec_reserve_po2_def)
next
  case False
  let ?n = "vlength v + length xs"
  have n: "?n \<le> 2 ^ 63" using len roomy_lim [OF A] by linarith
  then obtain n2 where n2: "po2_loop 1 ?n = Some n2" "?n \<le> n2" "n2 < 2 * ?n"
    using po2_loop_total [of 1 ?n] False by auto
  obtain r w where g: "vec_reserve A v n2 = (r, w)" by fastforce
  have av: "avail A (n2 * memsz A)" "n2 * memsz A < size_max"
    using roomy_avail [OF A, of n2] n2 len by simp_all
  have w: "r = RC_OK \<and> vec_ok w \<and> vec_list w = vec_list v \<and> vlength w = vlength v
      \<and> vec.more w = vec.more v \<and> n2 \<le> vcapacity w"
  proof (cases "n2 > vcapacity v")
    case True
    then show ?thesis
      using g av vec_grow_ok [OF v roomy_memsz [OF A] av(2), of r w]
      by (auto simp: vec_reserve_def split: if_splits)
  next
    case False
    then show ?thesis using g v by (auto simp: vec_reserve_def)
  qed
  then have "vlength w + length xs \<le> vcapacity w" using n2 by simp
  then show ?thesis
    using w vec_push_each_ok [of w xs] False n2 g
    by (auto simp: vec_pusharr_def vec_reserve_po2_def)
qed

lemma vec_push_roomy:
  assumes v: "vec_ok v" and A: "roomy A lim" and len: "vlength v < lim"
  shows "\<exists>v'. vec_push A v x = Some (RC_OK, v') \<and> vec_ok v' \<and> vec_list v' = vec_list v @ [x]
    \<and> vec.more v' = vec.more v"
proof (cases "vlength v = vcapacity v")
  case True
  have "2 * (vcapacity v + 1) * memsz A \<le> 2 * lim * memsz A"
    using len True by (intro mult_le_mono) auto
  then have "2 * (vcapacity v + 1) * memsz A < size_max"
    using A by (simp add: roomy_def)
  moreover have "avail A ((if vcapacity v = 0 then 1 else 2 * vcapacity v) * memsz A)"
    using roomy_avail [OF A] len True by (auto simp: roomy_def)
  ultimately show ?thesis
    using vec_push_any [OF v roomy_memsz [OF A], of x] by (metis rc.exhaust)
next
  case False
  then have "vec_expand A 1 v = (RC_OK, v)" and "vlength v < vcapacity v"
    using v by (auto simp: vec_expand_def vec_ok_def)
  then show ?thesis using v vec_append1_ok [of v x] by (auto simp: vec_push_def simp del: One_nat_def)
qed

section \<open>The interface other components rely on\<close>

text \<open>
  A growable sequence: \<open>put\<close> appends a batch of elements, \<open>contents\<close> reads the
  sequence.  Clients emit output in batches and only rely on the law \<open>put_law\<close>; \<open>limit\<close>
  bounds the length up to which the provider promises to succeed.
\<close>

locale growable =
  fixes put :: "'v \<Rightarrow> 'a list \<Rightarrow> 'v option"
    and contents :: "'v \<Rightarrow> 'a list"
    and inv :: "'v \<Rightarrow> bool"
    and limit :: nat
  assumes put_law: "inv v \<Longrightarrow> length (contents v) + length xs \<le> limit \<Longrightarrow>
    \<exists>v'. put v xs = Some v' \<and> inv v' \<and> contents v' = contents v @ xs"
begin

text \<open>\<open>emits v xs r\<close>: the partial computation \<open>r\<close> started at \<open>v\<close> appends \<open>xs\<close>.\<close>

definition emits :: "'v \<Rightarrow> 'a list \<Rightarrow> 'v option \<Rightarrow> bool" where
  "emits v xs r \<longleftrightarrow>
     (inv v \<and> length (contents v) + length xs \<le> limit \<longrightarrow>
      (\<exists>v'. r = Some v' \<and> inv v' \<and> contents v' = contents v @ xs))"

lemma emits_put: "emits v xs (put v xs)"
  using put_law by (auto simp: emits_def)

lemma emits_nil: "emits v [] (Some v)"
  by (simp add: emits_def)

lemma emits_bind:
  assumes "emits v xs r" and "\<And>w. emits w ys (k w)"
  shows "emits v (xs @ ys) (r \<bind> k)"
proof -
  { assume v: "inv v" "length (contents v) + length (xs @ ys) \<le> limit"
    then obtain w where w: "r = Some w" "inv w" "contents w = contents v @ xs"
      using assms(1) by (auto simp: emits_def)
    with v have "\<exists>v'. k w = Some v' \<and> inv v' \<and> contents v' = contents w @ ys"
      using assms(2) [of w] by (auto simp: emits_def)
    with w have "\<exists>v'. r \<bind> k = Some v' \<and> inv v' \<and> contents v' = contents v @ xs @ ys"
      by auto }
  then show ?thesis by (simp add: emits_def)
qed

text \<open>The same with the emitted sequence left to be computed.\<close>

lemma emits_put_eq: "zs = xs \<Longrightarrow> emits v zs (put v xs)"
  by (simp add: emits_put)

lemma emits_put_bind: "(\<And>w. emits w ys (k w)) \<Longrightarrow> zs = xs @ ys \<Longrightarrow> emits v zs (put v xs \<bind> k)"
  by (simp add: emits_bind [OF emits_put])

lemma emits_bind_eq:
  "emits v xs r \<Longrightarrow> (\<And>w. emits w ys (k w)) \<Longrightarrow> zs = xs @ ys \<Longrightarrow> emits v zs (r \<bind> k)"
  by (simp add: emits_bind)

lemmas emit_rules = emits_put_bind emits_put_eq emits_nil

lemma emitsE:
  assumes "emits v xs r" and "inv v" and "length (contents v) + length xs \<le> limit"
  obtains v' where "r = Some v'" and "inv v'" and "contents v' = contents v @ xs"
  using assms by (auto simp: emits_def)

end

text \<open>
  An indexed buffer that also gives access to its last element and to any element written
  before; \<open>frame\<close> is the state around the buffer that its operations leave alone.
\<close>

locale indexed_buffer =
  fixes push :: "'v \<Rightarrow> 'a \<Rightarrow> 'v option"
    and last_of :: "'v \<Rightarrow> 'a option"
    and get_at :: "'v \<Rightarrow> nat \<Rightarrow> 'a option"
    and put_at :: "'v \<Rightarrow> nat \<Rightarrow> 'a \<Rightarrow> 'v option"
    and size_of :: "'v \<Rightarrow> nat"
    and contents :: "'v \<Rightarrow> 'a list"
    and frame :: "'v \<Rightarrow> 'f"
    and inv :: "'v \<Rightarrow> bool"
    and limit :: nat
  assumes size_law: "inv v \<Longrightarrow> size_of v = length (contents v)"
    and push_law: "inv v \<Longrightarrow> size_of v < limit \<Longrightarrow>
      \<exists>v'. push v x = Some v' \<and> inv v' \<and> contents v' = contents v @ [x] \<and> frame v' = frame v"
    and last_law: "inv v \<Longrightarrow> contents v \<noteq> [] \<Longrightarrow> last_of v = Some (last (contents v))"
    and get_law: "inv v \<Longrightarrow> i < size_of v \<Longrightarrow> get_at v i = Some (contents v ! i)"
    and put_law: "inv v \<Longrightarrow> i < size_of v \<Longrightarrow>
      \<exists>v'. put_at v i x = Some v' \<and> inv v' \<and> contents v' = (contents v)[i := x] \<and> frame v' = frame v"
begin

text \<open>Rewriting the last element when it qualifies, pushing a new one otherwise.\<close>

lemma upsert_last:
  assumes "inv v" and "size_of v < limit"
  shows "\<exists>v'. (if size_of v > 0
      then do { l \<leftarrow> last_of v; if P l then put_at v (size_of v - 1) (g l) else push v x }
      else push v x) = Some v' \<and> inv v' \<and> frame v' = frame v
    \<and> contents v' = (if contents v \<noteq> [] \<and> P (last (contents v))
                      then butlast (contents v) @ [g (last (contents v))] else contents v @ [x])"
proof (cases "contents v = []")
  case True
  then show ?thesis using assms push_law [of v x] by (auto simp: size_law)
next
  case False
  then have l: "last_of v = Some (last (contents v))" and n: "size_of v - 1 < size_of v"
    using assms by (simp_all add: last_law size_law)
  have "(contents v)[size_of v - 1 := y] = butlast (contents v) @ [y]" for y
    using False assms(1) update_last [OF False] by (simp add: size_law)
  then show ?thesis
    using False assms l put_law [OF assms(1) n] push_law [of v x] by (auto simp: size_law)
qed

text \<open>Patching an earlier element and pushing a new last one.\<close>

lemma patch_and_push:
  assumes "inv v" and "size_of v < limit" and "i < size_of v"
  shows "\<exists>v'. (put_at v i x \<bind> (\<lambda>w. push w y)) = Some v' \<and> inv v' \<and> frame v' = frame v
    \<and> contents v' = (contents v)[i := x] @ [y]"
proof -
  obtain w where w: "put_at v i x = Some w" "inv w" "contents w = (contents v)[i := x]"
      "frame w = frame v"
    using put_law [OF assms(1,3)] by blast
  then have "size_of w < limit" using assms by (simp add: size_law)
  with w show ?thesis using push_law [of w y] by auto
qed

end

interpretation vb: growable "vec_pusharr A" vec_list "\<lambda>v. vec_ok v \<and> roomy A lim" lim
  for A :: "'a allocator" and lim :: nat
proof unfold_locales
  fix v :: "('a, 'z) vec_scheme" and xs :: "'a list"
  assume "vec_ok v \<and> roomy A lim" and "length (vec_list v) + length xs \<le> lim"
  then show "\<exists>v'. vec_pusharr A v xs = Some v' \<and> (vec_ok v' \<and> roomy A lim)
      \<and> vec_list v' = vec_list v @ xs"
    using vec_pusharr_roomy [of v A lim xs] by (auto simp: length_vec_list)
qed

interpretation vs: indexed_buffer "\<lambda>v x. map_option snd (vec_push A v x)" vec_last vec_get vec_set
    vlength vec_list vec.more "\<lambda>v. vec_ok v \<and> roomy A lim" lim
  for A :: "'a allocator" and lim :: nat
proof unfold_locales
  fix v :: "('a, 'z) vec_scheme" and x :: 'a and i :: nat
  assume v: "vec_ok v \<and> roomy A lim"
  show "vlength v = length (vec_list v)" using v by (simp add: length_vec_list)
  show "\<exists>v'. map_option snd (vec_push A v x) = Some v' \<and> (vec_ok v' \<and> roomy A lim)
      \<and> vec_list v' = vec_list v @ [x] \<and> vec.more v' = vec.more v" if "vlength v < lim"
    using vec_push_roomy [of v A lim x] v that by auto
  show "vec_last v = Some (last (vec_list v))" if "vec_list v \<noteq> []"
    using v that vec_last_ok [of v] by (auto simp: vec_list_def)
  show "vec_get v i = Some (vec_list v ! i)" if "i < vlength v"
    using v that by (simp add: vec_get_ok)
  show "\<exists>v'. vec_set v i x = Some v' \<and> (vec_ok v' \<and> roomy A lim)
      \<and> vec_list v' = (vec_list v)[i := x] \<and> vec.more v' = vec.more v" if "i < vlength v"
    using v that vec_set_ok [of v i x] by auto
qed

section \<open>Properties\<close>

text \<open>
  C23: Pushing never writes outside the block, whatever the allocator does: on success the
  element is appended, on failure the vector is as it was, and failure means that the vector
  was full and the doubled block was refused.
\<close>
theorem push_safe:
  assumes "vec_ok v" and "0 < memsz A" and "2 * (vcapacity v + 1) * memsz A < size_max"
  shows "\<exists>r v'. vec_push A v x = Some (r, v') \<and> vec_ok v'
    \<and> (r = RC_OK \<longrightarrow> vec_list v' = vec_list v @ [x])
    \<and> (r = RC_ERR \<longrightarrow> v' = v \<and> vlength v = vcapacity v
         \<and> \<not> avail A ((if vcapacity v = 0 then 1 else 2 * vcapacity v) * memsz A))"
  using vec_push_any [OF assms, of x] by blast

theorem push_safe_witness:
  "\<exists>r v'. vec_push (heap_of (0 :: nat) 4) vec_init 7 = Some (r, v') \<and> vec_ok v'"
proof -
  have "vec_ok (vec_init :: nat vec)" by (simp add: vec_ok_def vec_init_def)
  from push_safe [OF this, of "heap_of 0 4" 7] show ?thesis
    by (auto simp: heap_of_def vec_init_def)
qed

text \<open>
  C24: Appending an array (also \<open>vec_extend\<close> and \<open>vec_push_as_bytes\<close>) within the space the
  allocator serves appends exactly its elements and keeps the surrounding struct.
\<close>
theorem pusharr_appends:
  assumes "vec_ok v" and "roomy A lim" and "vlength v + length xs \<le> lim"
  shows "\<exists>v'. vec_pusharr A v xs = Some v' \<and> vec_ok v' \<and> vec_list v' = vec_list v @ xs
    \<and> vec.more v' = vec.more v"
  using assms by (rule vec_pusharr_roomy)

theorem pusharr_appends_witness:
  "\<exists>v'. vec_pusharr (heap_of (0 :: nat) 4) vec_init [1, 2, 3] = Some v' \<and> vec_list v' = [1, 2, 3]"
proof -
  have v: "vec_ok (vec_init :: nat vec)" "vlength (vec_init :: nat vec) + length [1, 2, 3 :: nat] \<le> 10"
    by (simp_all add: vec_ok_def vec_init_def)
  have A: "roomy (heap_of (0 :: nat) 4) 10" by (rule roomy_heap) simp_all
  from pusharr_appends [OF v(1) A v(2)] show ?thesis by (auto simp: vec_init_def vec_list_def)
qed

text \<open>
  C25: The rounding loop of \<open>vec_reserve_po2_\<close> ends exactly for sizes up to \<open>2^63\<close>; above,
  the doubled counter wraps to 0 and it runs forever.
\<close>
theorem reserve_po2_returns_iff:
  "(\<exists>r. vec_reserve_po2 A v n = Some r) \<longleftrightarrow> n \<le> 2 ^ 63"
proof (cases "n = 0")
  case False
  have "(\<exists>r. po2_loop 1 n = Some r) \<longleftrightarrow> n \<le> 2 ^ 63"
    using po2_loop_total [of 1 n] po2_loop_diverges [of n] False by (cases "n \<le> 2 ^ 63") auto
  then show ?thesis using False by (auto simp: vec_reserve_po2_def bind_eq_Some_conv)
qed (simp add: vec_reserve_po2_def)

end
