(* ===== verification/Ir_Gen.thy ===== *)
theory Ir_Gen
  imports Vec
begin

text \<open>
  The front end, \<open>csrc/src/ir_gen.c\<close>: operations of the intermediate representation,
  the parse context (a vector of operations that also carries the stack of unmatched
  \<open>[\<close>, innermost first), and the single pass over the source that fuses runs of equal
  characters and patches loop offsets.  A C string is the list of characters before its
  terminating NUL.  The second half shows that, as long as the allocator serves it, the
  code computes what the same steps compute on plain lists (\<open>switch_l\<close>, \<open>parse_l\<close>), and what a
  parser of one character at a time computes (\<open>parse_chars\<close>).
\<close>

section \<open>Operations and contexts\<close>

datatype ir_op_kind =
    IR_OP_TAPE | IR_OP_CELL | IR_OP_LOOP_START | IR_OP_LOOP_END
  | IR_OP_WRITE | IR_OP_READ | IR_OP_SET | IR_OP_MAX

record ir_op_t =
  kind :: ir_op_kind
  arg :: i64

abbreviation mk_op :: "ir_op_kind \<Rightarrow> i64 \<Rightarrow> ir_op_t" where
  "mk_op k a \<equiv> \<lparr>kind = k, arg = a\<rparr>"

record ir_ctx = "ir_op_t vec" +
  patch :: "nat list"

definition ir_ctx_init :: ir_ctx where
  "ir_ctx_init = \<lparr>borrowed = False, vlength = 0, vcapacity = 0, vdata = [], patch = []\<rparr>"

text \<open>\<open>ir_ctx_free\<close>: the patch records and the block freed, innermost record first.\<close>

definition ir_ctx_free :: "ir_ctx \<Rightarrow> nat list \<times> ir_op_t list list \<times> ir_ctx" where
  "ir_ctx_free ctx = (patch ctx, fst (vec_deinit ctx), ir_ctx_init)"

section \<open>The parser\<close>

definition count_char :: "string \<Rightarrow> char \<Rightarrow> nat" where
  "count_char src c = 1 + length (takeWhile (\<lambda>x. x = c) (tl src))"

text \<open>\<open>vec_push\<close> with its return code discarded, as the macro \<open>push_op\<close> and the loop cases do.\<close>

definition push_op :: "ir_op_t allocator \<Rightarrow> ir_ctx \<Rightarrow> ir_op_kind \<Rightarrow> i64 \<Rightarrow> ir_ctx option" where
  "push_op A ctx op v = map_option snd (vec_push A ctx (mk_op op v))"

text \<open>The cases of \<open>+ - > <\<close>: fold the run into the last operation when it has the same kind.\<close>

definition merge_op :: "ir_op_t allocator \<Rightarrow> ir_ctx \<Rightarrow> ir_op_kind \<Rightarrow> i64 \<Rightarrow> ir_ctx option" where
  "merge_op A ctx op v =
     (if vlength ctx > 0
      then do {
        l \<leftarrow> vec_last ctx;
        if kind l = op then vec_set ctx (vlength ctx - 1) (l\<lparr>arg := arg l + v\<rparr>)
        else push_op A ctx op v }
      else push_op A ctx op v)"

text \<open>
  One turn of the \<open>switch\<close>: the value to return if it is not 0, the context, and how
  far the source pointer moves.  The patch record of \<open>[\<close>, an address and a pointer, takes as many
  bytes as an operation, and writing it when \<open>calloc\<close> fails is a write through the null pointer.
\<close>

definition parse_switch :: "ir_op_t allocator \<Rightarrow> ir_ctx \<Rightarrow> char \<Rightarrow> nat
    \<Rightarrow> (nat \<times> ir_ctx \<times> nat) option" where
  "parse_switch A ctx c count =
     (if c = CHR '','' then map_option (\<lambda>x. (0, x, count)) (push_op A ctx IR_OP_READ (of_nat count))
      else if c = CHR ''.'' then map_option (\<lambda>x. (0, x, count)) (push_op A ctx IR_OP_WRITE (of_nat count))
      else if c = CHR ''+'' then map_option (\<lambda>x. (0, x, count)) (merge_op A ctx IR_OP_CELL (of_nat count))
      else if c = CHR ''-'' then map_option (\<lambda>x. (0, x, count)) (merge_op A ctx IR_OP_CELL (- of_nat count))
      else if c = CHR ''>'' then map_option (\<lambda>x. (0, x, count)) (merge_op A ctx IR_OP_TAPE (of_nat count))
      else if c = CHR ''<'' then map_option (\<lambda>x. (0, x, count)) (merge_op A ctx IR_OP_TAPE (- of_nat count))
      else if c = CHR ''['' then
        (if avail A (memsz A)
         then map_option (\<lambda>x. (0, x, 1))
                (push_op A (ctx\<lparr>patch := vlength ctx # patch ctx\<rparr>) IR_OP_LOOP_START 0)
         else None)
      else if c = CHR '']'' then
        (case patch ctx of
           [] \<Rightarrow> Some (1, ctx, 0)
         | addr # prev \<Rightarrow>
             let delta = of_nat (vlength ctx) - of_nat addr
             in do {
               ctx1 \<leftarrow> vec_set ctx addr (mk_op IR_OP_LOOP_START delta);
               ctx2 \<leftarrow> push_op A ctx1 IR_OP_LOOP_END (- delta);
               Some (0, ctx2\<lparr>patch := prev\<rparr>, 1) })
      else Some (0, ctx, count))"

lemma parse_switch_advances:
  "parse_switch A ctx c n = Some (0, ctx', adv) \<Longrightarrow> 1 \<le> n \<Longrightarrow> 1 \<le> adv"
  by (auto simp: parse_switch_def Let_def bind_eq_Some_conv split: if_splits list.splits)

function ir_ctx_parse :: "ir_op_t allocator \<Rightarrow> ir_ctx \<Rightarrow> string \<Rightarrow> (nat \<times> ir_ctx) option" where
  "ir_ctx_parse A ctx src =
     (if src = [] then Some (0, ctx)
      else do {
        (ret, ctx', adv) \<leftarrow> parse_switch A ctx (hd src) (count_char src (hd src));
        if ret \<noteq> 0 then Some (ret, ctx') else ir_ctx_parse A ctx' (drop adv src) })"
  by pat_completeness auto
termination
proof (relation "measure (\<lambda>(A, ctx, src). length src)", simp)
  fix A :: "ir_op_t allocator" and ctx ctx' :: ir_ctx and src :: string
    and x :: "nat \<times> ir_ctx \<times> nat" and ret :: nat and y :: "ir_ctx \<times> nat" and adv :: nat
  assume "src \<noteq> []" and "parse_switch A ctx (hd src) (count_char src (hd src)) = Some x"
    and "(ret, y) = x" and "(ctx', adv) = y" and "\<not> ret \<noteq> 0"
  then have "1 \<le> adv"
    using parse_switch_advances [of A ctx "hd src" "count_char src (hd src)" ctx' adv]
    by (auto simp: count_char_def)
  then show "((A, ctx', drop adv src), (A, ctx, src)) \<in> measure (\<lambda>(A, ctx, src). length src)"
    using \<open>src \<noteq> []\<close> by (cases src) auto
qed

declare ir_ctx_parse.simps [simp del]

section \<open>The same steps on lists\<close>

definition merge_l :: "ir_op_t list \<Rightarrow> ir_op_kind \<Rightarrow> i64 \<Rightarrow> ir_op_t list" where
  "merge_l ops op v =
     (if ops \<noteq> [] \<and> kind (last ops) = op
      then butlast ops @ [(last ops)\<lparr>arg := arg (last ops) + v\<rparr>]
      else ops @ [mk_op op v])"

definition switch_l :: "ir_op_t list \<Rightarrow> nat list \<Rightarrow> char \<Rightarrow> nat
    \<Rightarrow> (ir_op_t list \<times> nat list \<times> nat) option" where
  "switch_l ops ps c count =
     (if c = CHR '','' then Some (ops @ [mk_op IR_OP_READ (of_nat count)], ps, count)
      else if c = CHR ''.'' then Some (ops @ [mk_op IR_OP_WRITE (of_nat count)], ps, count)
      else if c = CHR ''+'' then Some (merge_l ops IR_OP_CELL (of_nat count), ps, count)
      else if c = CHR ''-'' then Some (merge_l ops IR_OP_CELL (- of_nat count), ps, count)
      else if c = CHR ''>'' then Some (merge_l ops IR_OP_TAPE (of_nat count), ps, count)
      else if c = CHR ''<'' then Some (merge_l ops IR_OP_TAPE (- of_nat count), ps, count)
      else if c = CHR ''['' then Some (ops @ [mk_op IR_OP_LOOP_START 0], length ops # ps, 1)
      else if c = CHR '']'' then
        (case ps of
           [] \<Rightarrow> None
         | addr # prev \<Rightarrow>
             let delta = of_nat (length ops) - of_nat addr
             in Some (ops[addr := mk_op IR_OP_LOOP_START delta] @ [mk_op IR_OP_LOOP_END (- delta)],
                      prev, 1))
      else Some (ops, ps, count))"

lemma switch_l_advances: "switch_l ops ps c n = Some (ops', ps', adv) \<Longrightarrow> 1 \<le> n \<Longrightarrow> 1 \<le> adv"
  by (auto simp: switch_l_def Let_def split: if_splits list.splits)

function parse_l :: "ir_op_t list \<Rightarrow> nat list \<Rightarrow> string \<Rightarrow> (ir_op_t list \<times> nat list) option" where
  "parse_l ops ps src =
     (if src = [] then Some (ops, ps)
      else do {
        (ops', ps', adv) \<leftarrow> switch_l ops ps (hd src) (count_char src (hd src));
        parse_l ops' ps' (drop adv src) })"
  by pat_completeness auto
termination
proof (relation "measure (\<lambda>(ops, ps, src). length src)", simp)
  fix ops ops' :: "ir_op_t list" and ps ps' :: "nat list" and src :: string
    and x :: "ir_op_t list \<times> nat list \<times> nat" and y :: "nat list \<times> nat" and adv :: nat
  assume "src \<noteq> []" and "switch_l ops ps (hd src) (count_char src (hd src)) = Some x"
    and "(ops', y) = x" and "(ps', adv) = y"
  then have "1 \<le> adv"
    using switch_l_advances [of ops ps "hd src" "count_char src (hd src)" ops' ps' adv]
    by (auto simp: count_char_def)
  then show "((ops', ps', drop adv src), (ops, ps, src)) \<in> measure (\<lambda>(ops, ps, src). length src)"
    using \<open>src \<noteq> []\<close> by (cases src) auto
qed

declare parse_l.simps [simp del]

section \<open>The code refines the list steps\<close>

definition ctx_ok :: "ir_ctx \<Rightarrow> bool" where
  "ctx_ok ctx \<longleftrightarrow> vec_ok ctx \<and> (\<forall>a \<in> set (patch ctx). a < vlength ctx)"

lemma ctx_ok_init [simp]: "ctx_ok ir_ctx_init" "vec_list ir_ctx_init = []" "patch ir_ctx_init = []"
    "vlength ir_ctx_init = 0"
  by (simp_all add: ctx_ok_def vec_ok_def ir_ctx_init_def vec_list_def)

lemma patch_more: "vec.more a = vec.more b \<Longrightarrow> patch a = patch b" for a b :: ir_ctx
  by (cases a; cases b) simp

lemma vec_ok_patch [simp]: "vec_ok (ctx\<lparr>patch := p\<rparr>) = vec_ok ctx"
  "vec_list (ctx\<lparr>patch := p\<rparr>) = vec_list ctx" for ctx :: ir_ctx
  by (simp_all add: vec_ok_def vec_list_def)

lemma push_op_list:
  assumes "vec_ok ctx" and "roomy A lim" and "vlength ctx < lim"
  shows "\<exists>ctx'. push_op A ctx op v = Some ctx' \<and> vec_ok ctx' \<and> patch ctx' = patch ctx
    \<and> vec_list ctx' = vec_list ctx @ [mk_op op v]"
  using vs.push_law [of ctx A lim "mk_op op v"] assms
  unfolding push_op_def by (auto dest: patch_more)

lemma merge_op_list:
  assumes "vec_ok ctx" and "roomy A lim" and "vlength ctx < lim"
  shows "\<exists>ctx'. merge_op A ctx op v = Some ctx' \<and> vec_ok ctx' \<and> patch ctx' = patch ctx
    \<and> vec_list ctx' = merge_l (vec_list ctx) op v"
  using vs.upsert_last [of ctx A lim "\<lambda>l. kind l = op" "\<lambda>l. l\<lparr>arg := arg l + v\<rparr>" "mk_op op v"] assms
  unfolding merge_op_def push_op_def merge_l_def by (auto dest: patch_more)

lemma loop_end_list:
  assumes "vec_ok ctx" and "roomy A lim" and "vlength ctx < lim" and "addr < vlength ctx"
  shows "\<exists>ctx'. (vec_set ctx addr x \<bind> (\<lambda>w. push_op A w op v)) = Some ctx' \<and> vec_ok ctx'
    \<and> patch ctx' = patch ctx \<and> vec_list ctx' = (vec_list ctx)[addr := x] @ [mk_op op v]"
  using vs.patch_and_push [of ctx A lim addr x "mk_op op v"] assms
  unfolding push_op_def by (auto dest: patch_more)

lemma parse_switch_list:
  assumes ok: "ctx_ok ctx" and A: "roomy A lim" and room: "vlength ctx < lim"
  shows "case switch_l (vec_list ctx) (patch ctx) c n of
      None \<Rightarrow> parse_switch A ctx c n = Some (1, ctx, 0)
    | Some (ops, ps, adv) \<Rightarrow> \<exists>ctx'. parse_switch A ctx c n = Some (0, ctx', adv) \<and> vec_ok ctx'
        \<and> vec_list ctx' = ops \<and> patch ctx' = ps"
proof -
  have v: "vec_ok ctx" and len: "length (vec_list ctx) = vlength ctx"
    using ok by (simp_all add: ctx_ok_def length_vec_list)
  consider "c \<in> {CHR '','', CHR ''.''}" | "c \<in> {CHR ''+'', CHR ''-'', CHR ''>'', CHR ''<''}"
    | "c = CHR ''[''" | "c = CHR '']''"
    | "c \<notin> {CHR '','', CHR ''.'', CHR ''+'', CHR ''-'', CHR ''>'', CHR ''<'', CHR ''['', CHR '']''}"
    by blast
  then show ?thesis
  proof cases
    case 1
    define op where "op = (if c = CHR '','' then IR_OP_READ else IR_OP_WRITE)"
    obtain ctx' where "push_op A ctx op (of_nat n) = Some ctx'" "vec_ok ctx'"
        "patch ctx' = patch ctx" "vec_list ctx' = vec_list ctx @ [mk_op op (of_nat n)]"
      using push_op_list [OF v A room] by blast
    with 1 show ?thesis
      by (elim insertE) (simp_all add: parse_switch_def switch_l_def op_def)
  next
    case 2
    define op where "op = (if c = CHR ''+'' \<or> c = CHR ''-'' then IR_OP_CELL else IR_OP_TAPE)"
    define x where "x = (if c = CHR ''+'' \<or> c = CHR ''>'' then of_nat n else - of_nat n :: i64)"
    obtain ctx' where "merge_op A ctx op x = Some ctx'" "vec_ok ctx'"
        "patch ctx' = patch ctx" "vec_list ctx' = merge_l (vec_list ctx) op x"
      using merge_op_list [OF v A room] by blast
    with 2 show ?thesis
      by (elim insertE) (simp_all add: parse_switch_def switch_l_def op_def x_def)
  next
    case 3
    have "avail A (memsz A)" using roomy_avail [OF A, of 1] room by simp
    then show ?thesis
      using push_op_list [of "ctx\<lparr>patch := vlength ctx # patch ctx\<rparr>" A lim IR_OP_LOOP_START 0]
        3 v A room len by (auto simp: parse_switch_def switch_l_def)
  next
    case 4
    show ?thesis
    proof (cases "patch ctx")
      case Nil
      then show ?thesis using 4 by (simp add: parse_switch_def switch_l_def)
    next
      case (Cons addr prev)
      then have "addr < vlength ctx" using ok by (simp add: ctx_ok_def)
      define d where "d = (of_nat (vlength ctx) - of_nat addr :: i64)"
      obtain ctx' where e: "vec_set ctx addr (mk_op IR_OP_LOOP_START d)
            \<bind> (\<lambda>w. push_op A w IR_OP_LOOP_END (- d)) = Some ctx'"
          "vec_ok ctx'" "patch ctx' = patch ctx"
          "vec_list ctx' = (vec_list ctx)[addr := mk_op IR_OP_LOOP_START d] @ [mk_op IR_OP_LOOP_END (- d)]"
        using loop_end_list [OF v A room \<open>addr < vlength ctx\<close>] by blast
      from e(1) have "parse_switch A ctx c n = Some (0, ctx'\<lparr>patch := prev\<rparr>, 1)"
        using 4 Cons by (auto simp: parse_switch_def d_def bind_eq_Some_conv)
      then show ?thesis
        using 4 Cons e by (auto simp: switch_l_def len d_def)
    qed
  next
    case 5
    then show ?thesis using v by (simp add: parse_switch_def switch_l_def)
  qed
qed

lemma length_merge_l: "length (merge_l ops op v) \<le> length ops + 1"
  by (simp add: merge_l_def)

lemma switch_l_grows:
  assumes "switch_l ops ps c n = Some (ops', ps', adv)"
  shows "length ops' \<le> length ops + 1"
  using assms length_merge_l
  by (auto simp: switch_l_def Let_def split: if_splits list.splits)

lemma switch_l_patch:
  assumes "switch_l ops ps c n = Some (ops', ps', adv)" and "\<forall>a \<in> set ps. a < length ops"
  shows "\<forall>a \<in> set ps'. a < length ops'"
  using assms
  by (auto simp: switch_l_def Let_def merge_l_def less_Suc_eq split: if_splits list.splits)

text \<open>
  The refinement: with room for one operation per source character, \<open>ir_ctx_parse\<close>
  never leaves its memory, and it returns 0 with the operations \<open>parse_l\<close> computes, or 1
  exactly when \<open>parse_l\<close> meets an unmatched \<open>]\<close>.
\<close>

lemma ir_ctx_parse_list:
  assumes "ctx_ok ctx" and "roomy A lim" and "vlength ctx + length src \<le> lim"
  shows "case parse_l (vec_list ctx) (patch ctx) src of
      None \<Rightarrow> \<exists>ctx'. ir_ctx_parse A ctx src = Some (1, ctx')
    | Some (ops, ps) \<Rightarrow> \<exists>ctx'. ir_ctx_parse A ctx src = Some (0, ctx') \<and> ctx_ok ctx'
        \<and> vec_list ctx' = ops \<and> patch ctx' = ps"
  using assms
proof (induction "length src" arbitrary: ctx src rule: less_induct)
  case less
  show ?case
  proof (cases "src = []")
    case True
    then show ?thesis using less.prems by (simp add: parse_l.simps ir_ctx_parse.simps)
  next
    case False
    let ?n = "count_char src (hd src)"
    have room: "vlength ctx < lim" using False less.prems by (cases src) auto
    have len: "length (vec_list ctx) = vlength ctx"
      using less.prems by (simp add: ctx_ok_def length_vec_list)
    note sw = parse_switch_list [OF less.prems(1,2) room, of "hd src" ?n]
    show ?thesis
    proof (cases "switch_l (vec_list ctx) (patch ctx) (hd src) ?n")
      case None
      then show ?thesis
        using sw False by (simp add: parse_l.simps [of _ _ src] ir_ctx_parse.simps [of _ _ src])
    next
      case (Some x)
      obtain ops ps adv where x: "x = (ops, ps, adv)" by (cases x) auto
      with Some sw obtain ctx' where c: "parse_switch A ctx (hd src) ?n = Some (0, ctx', adv)"
          "vec_ok ctx'" "vec_list ctx' = ops" "patch ctx' = ps" by auto
      have adv: "1 \<le> adv"
        using switch_l_advances [OF Some [unfolded x]] by (simp add: count_char_def)
      have len': "vlength ctx' \<le> vlength ctx + 1"
        using switch_l_grows [OF Some [unfolded x]] len c length_vec_list [OF c(2)] by simp
      have ok': "ctx_ok ctx'"
        using switch_l_patch [OF Some [unfolded x]] less.prems(1) len c length_vec_list [OF c(2)]
        by (simp add: ctx_ok_def)
      have "length (drop adv src) < length src" using False adv by simp
      moreover have "vlength ctx' + length (drop adv src) \<le> lim"
        using len' adv less.prems(3) False by (cases src) auto
      ultimately have "case parse_l (vec_list ctx') (patch ctx') (drop adv src) of
          None \<Rightarrow> \<exists>c2. ir_ctx_parse A ctx' (drop adv src) = Some (1, c2)
        | Some (ops, ps) \<Rightarrow> \<exists>c2. ir_ctx_parse A ctx' (drop adv src) = Some (0, c2) \<and> ctx_ok c2
            \<and> vec_list c2 = ops \<and> patch c2 = ps"
        using less.hyps ok' less.prems(2) by blast
      moreover have "ir_ctx_parse A ctx src = ir_ctx_parse A ctx' (drop adv src)"
        using c(1) False by (simp add: ir_ctx_parse.simps [of A ctx src])
      moreover have "parse_l (vec_list ctx) (patch ctx) src = parse_l ops ps (drop adv src)"
        using Some x False by (simp add: parse_l.simps [of _ _ src])
      ultimately show ?thesis using c(3,4) by (auto split: option.splits)
    qed
  qed
qed

lemma parse_l_grows: "parse_l ops ps src = Some (ops', ps') \<Longrightarrow> length ops' \<le> length ops + length src"
proof (induction ops ps src rule: parse_l.induct)
  case (1 ops ps src)
  show ?case
  proof (cases "src = []")
    case True
    then show ?thesis using "1.prems" by (simp add: parse_l.simps)
  next
    case False
    then obtain o1 p1 adv where s: "switch_l ops ps (hd src) (count_char src (hd src)) = Some (o1, p1, adv)"
        and r: "parse_l o1 p1 (drop adv src) = Some (ops', ps')"
      using "1.prems" by (auto simp: parse_l.simps [of _ _ src] bind_eq_Some_conv)
    have "length ops' \<le> length o1 + length (drop adv src)"
      using "1.IH" [OF False s refl refl r] .
    moreover have "length o1 \<le> length ops + 1" using switch_l_grows [OF s] .
    moreover have "1 \<le> adv" using switch_l_advances [OF s] by (simp add: count_char_def)
    ultimately show ?thesis using False by (cases src) auto
  qed
qed

section \<open>One character at a time\<close>

text \<open>
  A parser that never looks ahead: every character acts on its own, and a \<open>,\<close> or \<open>.\<close> behind the
  same character adds one to the operation that one made.
\<close>

definition char_step :: "char option \<Rightarrow> char \<Rightarrow> ir_op_t list \<Rightarrow> nat list \<Rightarrow> (ir_op_t list \<times> nat list) option" where
  "char_step prev c ops ps =
     (let repeat = (\<lambda>op. if prev = Some c then butlast ops @ [(last ops)\<lparr>arg := arg (last ops) + 1\<rparr>]
                        else ops @ [mk_op op 1])
      in if c = CHR '','' then Some (repeat IR_OP_READ, ps)
      else if c = CHR ''.'' then Some (repeat IR_OP_WRITE, ps)
      else if c = CHR ''+'' then Some (merge_l ops IR_OP_CELL 1, ps)
      else if c = CHR ''-'' then Some (merge_l ops IR_OP_CELL (- 1), ps)
      else if c = CHR ''>'' then Some (merge_l ops IR_OP_TAPE 1, ps)
      else if c = CHR ''<'' then Some (merge_l ops IR_OP_TAPE (- 1), ps)
      else if c = CHR ''['' then Some (ops @ [mk_op IR_OP_LOOP_START 0], length ops # ps)
      else if c = CHR '']'' then
        (case ps of
           [] \<Rightarrow> None
         | addr # prev \<Rightarrow>
             let delta = of_nat (length ops) - of_nat addr
             in Some (ops[addr := mk_op IR_OP_LOOP_START delta] @ [mk_op IR_OP_LOOP_END (- delta)], prev))
      else Some (ops, ps))"

fun parse_chars :: "char option \<Rightarrow> ir_op_t list \<Rightarrow> nat list \<Rightarrow> string \<Rightarrow> (ir_op_t list \<times> nat list) option" where
  "parse_chars prev ops ps [] = Some (ops, ps)"
| "parse_chars prev ops ps (c # cs) =
     (case char_step prev c ops ps of None \<Rightarrow> None | Some (ops', ps') \<Rightarrow> parse_chars (Some c) ops' ps' cs)"

lemma merge_l_merge: "merge_l (merge_l ops op a) op b = merge_l ops op (a + b)"
  by (simp add: merge_l_def add.assoc)

text \<open>What precedes matters only to the same character.\<close>

lemma parse_chars_prev: "take 1 cs \<noteq> [c] \<Longrightarrow> parse_chars (Some c) ops ps cs = parse_chars None ops ps cs"
  by (cases cs) (auto simp: char_step_def)

text \<open>The rest of a run whose operations the look-ahead has counted up to \<open>n\<close>.\<close>

lemma char_step_more:
  assumes "switch_l ops ps c n = Some (ops', ps', n)" and "c \<noteq> CHR ''[''" and "c \<noteq> CHR '']''"
  shows "\<exists>ops2. switch_l ops ps c (Suc n) = Some (ops2, ps', Suc n) \<and> char_step (Some c) c ops' ps' = Some (ops2, ps')"
proof -
  have c: "(of_nat n + 1 :: i64) = of_nat (Suc n)" "(- of_nat n - 1 :: i64) = - of_nat (Suc n)" by simp_all
  show ?thesis using assms
    by (auto simp: switch_l_def char_step_def merge_l_merge c Let_def simp del: of_nat_Suc split: if_splits)
qed

lemma char_step_first:
  assumes "c \<noteq> CHR ''[''" and "c \<noteq> CHR '']''"
  shows "\<exists>ops'. switch_l ops ps c n = Some (ops', ps, n)"
    and "\<exists>ops'. switch_l ops ps c 1 = Some (ops', ps, 1) \<and> char_step None c ops ps = Some (ops', ps)"
  using assms by (simp_all add: switch_l_def char_step_def)

lemma parse_chars_run:
  assumes "switch_l ops ps c n = Some (ops', ps', n)" and "c \<noteq> CHR ''[''" and "c \<noteq> CHR '']''"
    and "switch_l ops ps c (n + m) = Some (ops2, ps2, n + m)"
  shows "parse_chars (Some c) ops' ps' (replicate m c @ rest) = parse_chars (Some c) ops2 ps2 rest"
  using assms
proof (induction m arbitrary: n ops' ps')
  case (Suc m)
  obtain o3 where o3: "switch_l ops ps c (Suc n) = Some (o3, ps', Suc n)" "char_step (Some c) c ops' ps' = Some (o3, ps')"
    using char_step_more [OF Suc.prems(1-3)] by blast
  then show ?case using Suc.IH [OF o3(1) Suc.prems(2,3)] Suc.prems(4) by simp
qed simp

lemma count_char_run:
  "\<exists>rest. c # cs = replicate (count_char (c # cs) c) c @ rest \<and> take 1 rest \<noteq> [c]"
proof (intro exI conjI)
  let ?k = "length (takeWhile (\<lambda>x. x = c) cs)"
  have "takeWhile (\<lambda>x. x = c) cs = replicate ?k c" 
    by (rule sym, rule replicate_length_same) (auto dest: set_takeWhileD)
  then show "c # cs = replicate (count_char (c # cs) c) c @ dropWhile (\<lambda>x. x = c) cs"
    using takeWhile_dropWhile_id [of "\<lambda>x. x = c" cs] by (simp add: count_char_def)
  show "take 1 (dropWhile (\<lambda>x. x = c) cs) \<noteq> [c]"
    using hd_dropWhile [of "\<lambda>x. x = c" cs]
    by (cases "dropWhile (\<lambda>x. x = c) cs") (auto simp del: dropWhile_eq_Nil_conv)
qed

lemma parse_l_chars: "parse_l ops ps src = parse_chars None ops ps src"
proof (induction "length src" arbitrary: ops ps src rule: less_induct)
  case less
  show ?case
  proof (cases src)
    case Nil
    then show ?thesis by (simp add: parse_l.simps)
  next
    case (Cons c cs)
    define n where "n = count_char src c"
    obtain rest where r: "src = replicate n c @ rest" "take 1 rest \<noteq> [c]"
      using count_char_run [of c cs] unfolding n_def Cons by blast
    obtain k where k: "n = Suc k" by (simp add: n_def count_char_def)
    have step: "parse_l ops ps src = switch_l ops ps c n \<bind> (\<lambda>(o1, p1, adv). parse_l o1 p1 (drop adv src))"
      using Cons by (subst parse_l.simps) (simp add: n_def)
    show ?thesis
    proof (cases "c = CHR ''['' \<or> c = CHR '']''")
      case True
      have IH: "parse_l o1 p1 cs = parse_chars (Some c) o1 p1 cs" for o1 p1
        using less [of cs o1 p1] True Cons by (cases cs) (auto simp: char_step_def)
      show ?thesis unfolding step using True
        by (elim disjE) (auto simp: Cons switch_l_def char_step_def IH Let_def split: list.split)
    next
      case False
      then have b: "c \<noteq> CHR ''[''" "c \<noteq> CHR '']''" by simp_all
      obtain o1 where s: "switch_l ops ps c n = Some (o1, ps, n)" using char_step_first(1) [OF b] by metis
      obtain o0 where o0: "switch_l ops ps c 1 = Some (o0, ps, 1)" "char_step None c ops ps = Some (o0, ps)"
        using char_step_first(2) [OF b] by metis
      have "length rest < length src" unfolding r(1) k by simp
      note IH = less [OF this]
      have "drop n src = rest" using arg_cong [OF r(1), of "drop n"] by simp
      then have "parse_l ops ps src = parse_l o1 ps rest" unfolding step using s by simp
      also have "\<dots> = parse_chars (Some c) o1 ps rest" using IH parse_chars_prev [OF r(2)] by simp
      also have "\<dots> = parse_chars (Some c) o0 ps (replicate k c @ rest)"
        using parse_chars_run [OF o0(1), of k o1 ps rest] False s k by simp
      also have "\<dots> = parse_chars None ops ps src" unfolding r(1) k using o0(2) by simp
      finally show ?thesis .
    qed
  qed
qed

section \<open>Properties\<close>

text \<open>
  C13: Fusing runs loses nothing: the parser, which counts equal characters ahead, skips over them
  and updates the vector in place, returns 0 with the operations, both offsets of every closed loop
  and the open loops that a parser of one character at a time without any look-ahead builds, and 1
  exactly where that one meets a \<open>]\<close> with no open loop.
\<close>
theorem parser_fuses_runs:
  assumes "ctx_ok ctx" and "roomy A lim" and "vlength ctx + length src \<le> lim"
  shows "case parse_chars None (vec_list ctx) (patch ctx) src of
      None \<Rightarrow> \<exists>ctx'. ir_ctx_parse A ctx src = Some (1, ctx')
    | Some (ops, ps) \<Rightarrow> \<exists>ctx'. ir_ctx_parse A ctx src = Some (0, ctx') \<and> ctx_ok ctx'
        \<and> vec_list ctx' = ops \<and> patch ctx' = ps"
  using ir_ctx_parse_list [OF assms] unfolding parse_l_chars .

theorem parser_fuses_runs_witness:
  "\<exists>ctx'. ir_ctx_parse (heap_of (mk_op IR_OP_MAX 0) 16) ir_ctx_init ''++-,,[..'' = Some (0, ctx')
    \<and> vec_list ctx' = [mk_op IR_OP_CELL 1, mk_op IR_OP_READ 2, mk_op IR_OP_LOOP_START 0, mk_op IR_OP_WRITE 2]
    \<and> patch ctx' = [2]"
proof -
  have "parse_chars None [] [] ''++-,,[..''
      = Some ([mk_op IR_OP_CELL 1, mk_op IR_OP_READ 2, mk_op IR_OP_LOOP_START 0, mk_op IR_OP_WRITE 2], [2])"
    by (simp add: char_step_def merge_l_def)
  moreover have A: "roomy (heap_of (mk_op IR_OP_MAX 0) 16) 10" by (rule roomy_heap) simp_all
  have "vlength ir_ctx_init + length ''++-,,[..'' \<le> 10" by (simp add: ir_ctx_init_def)
  from parser_fuses_runs [OF ctx_ok_init(1) A this] calculation show ?thesis by auto
qed

end
