(* ===== verification/Bf.thy ===== *)
theory Bf
  imports Prelude
begin

text \<open>
  The abstract specification: Brainfuck as a language.  A program is a tree of primitive
  commands and loops; a state is a tape of byte cells with a pointer inside it, the input
  not yet read and the output written so far.  The evaluator is shared by two primitive
  alphabets, the characters of the source language (here) and the counted operations of
  the intermediate representation (\<open>Ir_Gen\<close>).  Moving the pointer off the tape is
  \<open>Crash\<close>: the specification promises nothing there.  Reading at the end of the input
  leaves the cell as it is.
\<close>

datatype 'c prog = Prim 'c | While "'c prog list"

datatype bf_char = MoveRight | MoveLeft | Inc | Dec | PutByte | GetByte

record bf_state =
  ptr :: nat
  cells :: "u8 list"
  inp :: "u8 list"
  out :: "u8 list"

definition cell :: "bf_state \<Rightarrow> u8" where
  "cell s = cells s ! ptr s"

definition set_cell :: "u8 \<Rightarrow> bf_state \<Rightarrow> bf_state" where
  "set_cell b s = s\<lparr>cells := (cells s)[ptr s := b]\<rparr>"

definition on_tape :: "bf_state \<Rightarrow> bool" where
  "on_tape s \<longleftrightarrow> ptr s < length (cells s)"

definition get_byte :: "bf_state \<Rightarrow> bf_state" where
  "get_byte s = (case inp s of [] \<Rightarrow> s | b # bs \<Rightarrow> set_cell b (s\<lparr>inp := bs\<rparr>))"

definition put_byte :: "bf_state \<Rightarrow> bf_state" where
  "put_byte s = s\<lparr>out := out s @ [cell s]\<rparr>"

definition move_ptr :: "int \<Rightarrow> bf_state \<Rightarrow> bf_state option" where
  "move_ptr d s =
     (let p = int (ptr s) + d
      in if 0 \<le> p \<and> p < int (length (cells s)) then Some (s\<lparr>ptr := nat p\<rparr>) else None)"

fun bf_step :: "bf_char \<Rightarrow> bf_state \<Rightarrow> bf_state option" where
  "bf_step MoveRight s = move_ptr 1 s"
| "bf_step MoveLeft s = move_ptr (- 1) s"
| "bf_step Inc s = Some (set_cell (cell s + 1) s)"
| "bf_step Dec s = Some (set_cell (cell s - 1) s)"
| "bf_step PutByte s = Some (put_byte s)"
| "bf_step GetByte s = Some (get_byte s)"

section \<open>Evaluation\<close>

text \<open>
  The fuel bounds the number of loop iterations on any path; \<open>Timeout\<close> for every fuel
  is divergence.
\<close>

fun eval :: "('c \<Rightarrow> bf_state \<Rightarrow> bf_state option) \<Rightarrow> nat \<Rightarrow> 'c prog list \<Rightarrow> bf_state \<Rightarrow> bf_state outcome"
and eval_while :: "('c \<Rightarrow> bf_state \<Rightarrow> bf_state option) \<Rightarrow> nat \<Rightarrow> 'c prog list \<Rightarrow> bf_state \<Rightarrow> bf_state outcome"
where
  "eval st f [] s = Done s"
| "eval st f (Prim c # p) s = then_do (of_option (st c s)) (eval st f p)"
| "eval st f (While b # p) s = then_do (eval_while st f b s) (eval st f p)"
| "eval_while st f b s =
     (if cell s = 0 then Done s
      else case f of 0 \<Rightarrow> Timeout | Suc f' \<Rightarrow> then_do (eval st f' b s) (eval_while st f' b))"

declare eval_while.simps [simp del]

lemma eval_while_unfold [simp]:
  "cell s = 0 \<Longrightarrow> eval_while st f b s = Done s"
  "cell s \<noteq> 0 \<Longrightarrow> eval_while st 0 b s = Timeout"
  "cell s \<noteq> 0 \<Longrightarrow> eval_while st (Suc f) b s = then_do (eval st f b s) (eval_while st f b)"
  by (simp_all add: eval_while.simps)

lemma eval_Nil_fun [simp]: "eval st f [] = Done"
  by (rule ext) simp

lemma eval_append: "eval st f (p @ q) s = then_do (eval st f p s) (eval st f q)"
proof (induction p arbitrary: s)
  case Nil
  then show ?case by simp
next
  case (Cons c p)
  then have "eval st f (p @ q) = (\<lambda>s. then_do (eval st f p s) (eval st f q))" by blast
  then show ?case by (cases c) (simp_all add: then_do_assoc)
qed

lemma eval_more_fuel:
  "eval st f p s \<noteq> Timeout \<Longrightarrow> f \<le> g \<Longrightarrow> eval st g p s = eval st f p s"
  and eval_while_more_fuel:
  "eval_while st f p s \<noteq> Timeout \<Longrightarrow> f \<le> g \<Longrightarrow> eval_while st g p s = eval_while st f p s"
proof (induction st f p s and st f p s arbitrary: g and g rule: eval_eval_while.induct)
  case (2 st f c p s)
  show ?case
    using "2.prems" "2.IH" [of _ g] by (cases "st c s") simp_all
next
  case (3 st f b p s)
  show ?case
    using "3.prems" "3.IH"(1) [of g] "3.IH"(2) [of _ g] by (cases "eval_while st f b s") simp_all
next
  case (4 st f b s)
  show ?case
  proof (cases "cell s = 0")
    case True
    then show ?thesis by simp
  next
    case False
    with "4.prems"(1) obtain f' where f: "f = Suc f'"
      by (cases f) auto
    then obtain g' where g: "g = Suc g'" "f' \<le> g'"
      using "4.prems"(2) by (cases g) auto
    have "eval st g' b s = eval st f' b s"
      using "4.IH"(1) [OF False f, of g'] "4.prems"(1) False f g
      by (cases "eval st f' b s") simp_all
    moreover have "eval_while st g' b u = eval_while st f' b u" if "eval st f' b s = Done u" for u
      using "4.IH"(2) [OF False f that, of g'] "4.prems"(1) False f g that by simp
    ultimately show ?thesis
      using False f g
      by (cases "eval st f' b s")
         simp_all
  qed
qed simp_all

section \<open>States stay on the tape\<close>

lemma on_tape_set_cell [simp]: "on_tape (set_cell b s) = on_tape s"
  by (simp add: on_tape_def set_cell_def)

lemma on_tape_get_byte [simp]: "on_tape (get_byte s) = on_tape s"
  by (auto simp: on_tape_def set_cell_def get_byte_def split: list.split)

lemma on_tape_put_byte [simp]: "on_tape (put_byte s) = on_tape s"
  by (simp add: on_tape_def put_byte_def)

lemma on_tape_move: "move_ptr d s = Some t \<Longrightarrow> on_tape t"
  by (auto simp: move_ptr_def on_tape_def Let_def split: if_splits)

lemma bf_step_on_tape: "bf_step c s = Some t \<Longrightarrow> on_tape s \<Longrightarrow> on_tape t"
  by (cases c) (auto intro: on_tape_move)

lemma cell_set_cell: "on_tape s \<Longrightarrow> cell (set_cell b s) = b"
  by (simp add: cell_def set_cell_def on_tape_def)

lemma set_cell_set_cell: "set_cell b (set_cell c s) = set_cell b s"
  by (simp add: set_cell_def)

lemma set_cell_cell: "set_cell (cell s) s = s"
  by (simp add: set_cell_def cell_def)

lemma move_move: "move_ptr d s = Some t \<Longrightarrow> move_ptr e t = Some u \<Longrightarrow> move_ptr (d + e) s = Some u"
  by (auto simp: move_ptr_def Let_def split: if_splits) (simp add: add.assoc)?

section \<open>Programs that agree wherever the specification is defined\<close>

text \<open>
  \<open>agrees A p B q\<close>: from every state on the tape, if running \<open>p\<close> over alphabet
  \<open>A\<close> does not leave the tape then running \<open>q\<close> over \<open>B\<close> gives the same outcome,
  time-outs included.
\<close>

definition agrees :: "('a \<Rightarrow> bf_state \<Rightarrow> bf_state option) \<Rightarrow> 'a prog list
    \<Rightarrow> ('b \<Rightarrow> bf_state \<Rightarrow> bf_state option) \<Rightarrow> 'b prog list \<Rightarrow> bool" where
  "agrees A p B q \<longleftrightarrow>
     (\<forall>f s. on_tape s \<longrightarrow> eval A f p s \<noteq> Crash \<longrightarrow> eval B f q s = eval A f p s)"

definition keeps_tape :: "('a \<Rightarrow> bf_state \<Rightarrow> bf_state option) \<Rightarrow> bool" where
  "keeps_tape A \<longleftrightarrow> (\<forall>c s t. A c s = Some t \<longrightarrow> on_tape s \<longrightarrow> on_tape t)"

lemma eval_on_tape:
  "eval A f p s = Done t \<Longrightarrow> keeps_tape A \<Longrightarrow> on_tape s \<Longrightarrow> on_tape t"
  and eval_while_on_tape:
  "eval_while A f p s = Done t \<Longrightarrow> keeps_tape A \<Longrightarrow> on_tape s \<Longrightarrow> on_tape t"
proof (induction A f p s and A f p s arbitrary: t and t rule: eval_eval_while.induct)
  case (2 st f c p s)
  then show ?case
    by (cases "st c s") (auto simp: keeps_tape_def)
next
  case (3 st f b p s)
  then show ?case by (auto simp: then_do_eq_Done)
next
  case (4 st f b s)
  show ?case
  proof (cases "cell s = 0")
    case True
    then show ?thesis using "4.prems" by simp
  next
    case False
    then obtain f' where f: "f = Suc f'"
      using "4.prems"(1) by (cases f) auto
    then obtain u where "eval st f' b s = Done u" "eval_while st f' b u = Done t"
      using "4.prems"(1) False by (auto simp: then_do_eq_Done)
    then show ?thesis
      using "4.IH" False f "4.prems"(2,3) by blast
  qed
qed simp_all

lemma keeps_tape_bf [simp]: "keeps_tape bf_step"
  by (auto simp: keeps_tape_def intro: bf_step_on_tape)

lemma agrees_nil: "agrees A [] B []"
  by (simp add: agrees_def)

lemma agrees_append:
  assumes "agrees A p B q" and "agrees A p' B q'" and "keeps_tape A"
  shows "agrees A (p @ p') B (q @ q')"
proof -
  { fix f s
    assume s: "on_tape s" and nc: "eval A f (p @ p') s \<noteq> Crash"
    have "eval B f (q @ q') s = eval A f (p @ p') s"
    proof (cases "eval A f p s")
      case (Done t)
      then have "on_tape t" using assms(3) s by (rule eval_on_tape)
      then show ?thesis
        using assms(1,2) s nc Done by (simp add: agrees_def eval_append)
    qed (use assms(1) s nc in \<open>simp_all add: agrees_def eval_append\<close>) }
  then show ?thesis by (simp add: agrees_def)
qed

lemma agrees_while:
  assumes "agrees A p B q" and "keeps_tape A"
  shows "agrees A [While p] B [While q]"
proof -
  have "on_tape s \<Longrightarrow> eval_while A f p s \<noteq> Crash \<Longrightarrow> eval_while B f q s = eval_while A f p s"
    for f s
  proof (induction f arbitrary: s)
    case 0
    then show ?case by (cases "cell s = 0") simp_all
  next
    case (Suc f)
    show ?case
    proof (cases "cell s = 0")
      case True
      then show ?thesis by simp
    next
      case False
      have un: "eval_while X (Suc f) b s = then_do (eval X f b s) (eval_while X f b)"
        for X :: "'x \<Rightarrow> bf_state \<Rightarrow> bf_state option" and b
        using False by simp
      show ?thesis
      proof (cases "eval A f p s")
        case (Done t)
        then have "on_tape t" using Suc.prems(1) assms(2) by (auto intro: eval_on_tape)
        moreover have "eval B f q s = Done t"
          using Done Suc.prems(1) assms(1) by (simp add: agrees_def)
        ultimately show ?thesis
          using Suc Done by (simp add: un)
      qed (use assms(1) Suc.prems in \<open>simp_all add: agrees_def un\<close>)
    qed
  qed
  then have "eval_while B f q s = eval_while A f p s"
    if "on_tape s" "eval_while A f p s \<noteq> Crash" for f s using that by blast
  then show ?thesis by (simp add: agrees_def)
qed

lemma agrees_trans:
  assumes "agrees A p B q" and "agrees B q C r"
  shows "agrees A p C r"
  using assms by (auto simp: agrees_def)

text \<open>Two primitives in a row may be replaced by one that composes them.\<close>

lemma agrees_merge:
  assumes ag: "agrees A p B (q @ [Prim x, Prim y])" and B: "keeps_tape B"
    and xy: "\<And>s t u. on_tape s \<Longrightarrow> B x s = Some t \<Longrightarrow> B y t = Some u \<Longrightarrow> B z s = Some u"
  shows "agrees A p B (q @ [Prim z])"
proof -
  { fix f s
    assume s: "on_tape s" and nc: "eval A f p s \<noteq> Crash"
    then have e: "eval B f (q @ [Prim x, Prim y]) s = eval A f p s"
      using ag by (simp add: agrees_def)
    have "eval B f (q @ [Prim z]) s = eval A f p s"
    proof (cases "eval B f q s")
      case (Done t)
      have "on_tape t" using Done B s by (rule eval_on_tape)
      moreover obtain u where "B x t = Some u"
        using e nc Done by (cases "B x t") (auto simp: eval_append)
      moreover from this obtain w where "B y u = Some w"
        using e nc Done by (cases "B y u") (auto simp: eval_append)
      ultimately show ?thesis using e Done xy by (simp add: eval_append)
    qed (use e in \<open>simp_all add: eval_append\<close>) }
  then show ?thesis by (simp add: agrees_def)
qed

fun all_prims :: "('c \<Rightarrow> bool) \<Rightarrow> 'c prog list \<Rightarrow> bool" where
  "all_prims P [] \<longleftrightarrow> True"
| "all_prims P (Prim c # p) \<longleftrightarrow> P c \<and> all_prims P p"
| "all_prims P (While b # p) \<longleftrightarrow> all_prims P b \<and> all_prims P p"

lemma all_prims_append [simp]: "all_prims P (p @ q) \<longleftrightarrow> all_prims P p \<and> all_prims P q"
proof (induction p)
  case (Cons c p)
  then show ?case by (cases c) auto
qed simp

lemma all_prims_mono: "all_prims P p \<Longrightarrow> (\<And>c. P c \<Longrightarrow> Q c) \<Longrightarrow> all_prims Q p"
  by (induction P p rule: all_prims.induct) auto

section \<open>The concrete syntax\<close>

definition bf_of_char :: "char \<Rightarrow> bf_char option" where
  "bf_of_char c =
     (if c = CHR ''>'' then Some MoveRight else if c = CHR ''<'' then Some MoveLeft
      else if c = CHR ''+'' then Some Inc else if c = CHR ''-'' then Some Dec
      else if c = CHR ''.'' then Some PutByte else if c = CHR '','' then Some GetByte
      else None)"

definition is_comment :: "char \<Rightarrow> bool" where
  "is_comment c \<longleftrightarrow> bf_of_char c = None \<and> c \<noteq> CHR ''['' \<and> c \<noteq> CHR '']''"

text \<open>Which texts denote which program: brackets nest, every other character is a comment.\<close>

inductive bf_syntax :: "string \<Rightarrow> bf_char prog list \<Rightarrow> bool" where
  syn_nil: "bf_syntax [] []"
| syn_comment: "is_comment c \<Longrightarrow> bf_syntax s p \<Longrightarrow> bf_syntax (c # s) p"
| syn_char: "bf_of_char c = Some b \<Longrightarrow> bf_syntax s p \<Longrightarrow> bf_syntax (c # s) (Prim b # p)"
| syn_loop: "bf_syntax s p \<Longrightarrow> bf_syntax t q \<Longrightarrow>
    bf_syntax (CHR ''['' # s @ CHR '']'' # t) (While p # q)"

text \<open>
  The same as a left-to-right reader that keeps the programs of the open loops, innermost
  first.
\<close>

fun src_z :: "bf_char prog list list \<Rightarrow> string \<Rightarrow> bf_char prog list list option" where
  "src_z z [] = Some z"
| "src_z [] (c # cs) = None"
| "src_z (p # ps) (c # cs) =
     (case bf_of_char c of
        Some b \<Rightarrow> src_z ((p @ [Prim b]) # ps) cs
      | None \<Rightarrow>
          if c = CHR ''['' then src_z ([] # p # ps) cs
          else if c = CHR '']'' then
            (case ps of [] \<Rightarrow> None | q # qs \<Rightarrow> src_z ((q @ [While p]) # qs) cs)
          else src_z (p # ps) cs)"

lemma bf_of_bracket [simp]: "bf_of_char (CHR ''['') = None" "bf_of_char (CHR '']'') = None"
  by (simp_all add: bf_of_char_def)

lemma src_z_syntax: "bf_syntax s p \<Longrightarrow> src_z (q # qs) (s @ rest) = src_z ((q @ p) # qs) rest"
proof (induction arbitrary: q qs rest rule: bf_syntax.induct)
  case syn_nil
  then show ?case by simp
next
  case (syn_comment c s p)
  then show ?case by (simp add: is_comment_def)
next
  case (syn_char c b s p)
  then show ?case by simp
next
  case (syn_loop s p t q')
  then show ?case by simp
qed

lemma src_z_append: "src_z z (s @ t) = (case src_z z s of None \<Rightarrow> None | Some z' \<Rightarrow> src_z z' t)"
  by (induction z s rule: src_z.induct) (auto split: option.split list.split)

section \<open>Two small programs\<close>

lemma syntax_example: "bf_syntax ''+[-].'' [Prim Inc, While [Prim Dec], Prim PutByte]"
proof -
  have "bf_syntax ''-'' [Prim Dec]" and "bf_syntax ''.'' [Prim PutByte]"
    by (auto intro!: syn_char syn_nil simp: bf_of_char_def)
  then have "bf_syntax (CHR ''['' # ''-'' @ CHR '']'' # ''.'') [While [Prim Dec], Prim PutByte]"
    by (rule syn_loop)
  then show ?thesis by (intro syn_char) (simp_all add: bf_of_char_def)
qed

lemma syntax_forever: "bf_syntax ''+[]'' [Prim Inc, While []]"
proof -
  have "bf_syntax (CHR ''['' # [] @ CHR '']'' # []) [While []]"
    by (intro syn_loop syn_nil)
  then show ?thesis by (intro syn_char) (simp_all add: bf_of_char_def)
qed

lemma eval_example:
  assumes "cells s = 0 # bs" and "ptr s = 0"
  shows "\<exists>t. eval bf_step 1 [Prim Inc, While [Prim Dec], Prim PutByte] s = Done t \<and> out t = out s @ [0]
    \<and> ptr t = 0 \<and> inp t = inp s \<and> cells t = cells s"
proof -
  let ?u = "set_cell 1 s"
  have i: "bf_step Inc s = Some ?u" and c: "cell ?u \<noteq> 0"
    using assms by (simp_all add: cell_def set_cell_def)
  have d: "bf_step Dec ?u = Some s" and z: "cell s = 0"
    using assms by (simp_all add: cell_def set_cell_def)
  have "eval_while bf_step (Suc 0) [Prim Dec] ?u = Done s"
    using c d z by simp
  then have "eval bf_step 1 [Prim Inc, While [Prim Dec], Prim PutByte] s = Done (put_byte s)"
    using i by simp
  then show ?thesis using z assms by (simp add: put_byte_def)
qed

lemma eval_forever:
  assumes "cell s = 0" and "on_tape s"
  shows "eval bf_step f [Prim Inc, While []] s = Timeout"
proof -
  have "cell u \<noteq> 0 \<Longrightarrow> eval_while bf_step f [] u = Timeout" for u
    by (induction f) simp_all
  then show ?thesis using assms by (simp add: cell_set_cell)
qed

end
