(* ===== verification/Ir_Sem.thy ===== *)
theory Ir_Sem
  imports Ir_Gen Bf
begin

text \<open>
  What the operations of the intermediate representation mean, and the correctness of the
  parser.  \<open>flat\<close> lays a structured program out as the operation vector, with the loop
  offsets \<open>ir_ctx_parse\<close> computes; the parser's partial state (operations so far and the
  stack of open loops) is the layout \<open>zops\<close>, \<open>zpatch\<close> of a list of programs,
  innermost loop first.  Each turn of the parser's switch keeps every level in agreement
  with the source read so far.
\<close>

section \<open>Meaning of the operations\<close>

definition ir_step :: "ir_op_t \<Rightarrow> bf_state \<Rightarrow> bf_state option" where
  "ir_step x s =
     (case kind x of
        IR_OP_TAPE \<Rightarrow> move_ptr (sint (arg x)) s
      | IR_OP_CELL \<Rightarrow> Some (set_cell (cell s + ucast (arg x)) s)
      | IR_OP_WRITE \<Rightarrow> Some ((put_byte ^^ nat (sint (arg x))) s)
      | IR_OP_READ \<Rightarrow> Some ((get_byte ^^ nat (sint (arg x))) s)
      | IR_OP_SET \<Rightarrow> Some (set_cell (ucast (arg x)) s)
      | _ \<Rightarrow> None)"

fun flat :: "ir_op_t prog list \<Rightarrow> ir_op_t list" where
  "flat [] = []"
| "flat (Prim x # p) = x # flat p"
| "flat (While b # p) =
     (let d = of_nat (length (flat b) + 1)
      in mk_op IR_OP_LOOP_START d # flat b @ mk_op IR_OP_LOOP_END (- d) # flat p)"

lemma flat_append [simp]: "flat (p @ q) = flat p @ flat q"
proof (induction p)
  case (Cons c p)
  then show ?case by (cases c) (simp_all add: Let_def)
qed simp

text \<open>Operations as the parser makes them, with operands bounded by \<open>K\<close>.\<close>

definition fits :: "nat \<Rightarrow> ir_op_t \<Rightarrow> bool" where
  "fits K x \<longleftrightarrow> \<bar>sint (arg x)\<bar> \<le> int K
     \<and> (kind x = IR_OP_TAPE \<or> kind x = IR_OP_CELL
        \<or> (kind x = IR_OP_WRITE \<or> kind x = IR_OP_READ) \<and> 0 \<le> sint (arg x))"

lemma fits_mono: "fits K x \<Longrightarrow> K \<le> L \<Longrightarrow> fits L x"
  by (auto simp: fits_def)

lemma on_tape_funpow [simp]: "on_tape ((put_byte ^^ n) s) = on_tape s"
  "on_tape ((get_byte ^^ n) s) = on_tape s"
  by (induction n) simp_all

lemma keeps_tape_ir [simp]: "keeps_tape ir_step"
  by (auto simp: keeps_tape_def ir_step_def split: ir_op_kind.splits dest: on_tape_move)

section \<open>Runs of equal characters\<close>

lemma eval_replicate_step:
  "(\<And>s. st c s = Some (g s)) \<Longrightarrow> eval st f (replicate n (Prim c)) s = Done ((g ^^ n) s)"
  by (induction n arbitrary: s) (simp_all add: funpow_swap1)

lemma eval_inc_run:
  "on_tape s \<Longrightarrow> eval bf_step f (replicate n (Prim Inc)) s = Done (set_cell (cell s + of_nat n) s)"
proof (induction n arbitrary: s)
  case 0
  then show ?case by (simp add: set_cell_cell)
next
  case (Suc n)
  then show ?case by (simp add: cell_set_cell set_cell_set_cell add.assoc)
qed

lemma eval_dec_run:
  "on_tape s \<Longrightarrow> eval bf_step f (replicate n (Prim Dec)) s = Done (set_cell (cell s - of_nat n) s)"
proof (induction n arbitrary: s)
  case 0
  then show ?case by (simp add: set_cell_cell)
next
  case (Suc n)
  then show ?case by (simp add: cell_set_cell set_cell_set_cell diff_diff_add)
qed

lemma eval_move_run:
  assumes "\<And>s. bf_step c s = move_ptr d s" and "on_tape s"
    and "eval bf_step f (replicate n (Prim c)) s \<noteq> Crash"
  shows "\<exists>t. eval bf_step f (replicate n (Prim c)) s = Done t \<and> move_ptr (d * int n) s = Some t"
  using assms(2,3)
proof (induction n arbitrary: s)
  case 0
  then show ?case by (simp add: move_ptr_def on_tape_def)
next
  case (Suc n)
  then obtain u where u: "move_ptr d s = Some u" "on_tape u"
    by (cases "move_ptr d s") (auto simp: assms(1) dest: on_tape_move)
  then obtain t where "eval bf_step f (replicate n (Prim c)) u = Done t" "move_ptr (d * int n) u = Some t"
    using Suc by (auto simp: assms(1))
  then show ?case using u move_move [of d s u "d * int n" t]
    by (simp add: assms(1) algebra_simps)
qed

lemma sint_of_nat: "n < 2 ^ 63 \<Longrightarrow> sint (of_nat n :: i64) = int n"
  by (simp add: signed_of_nat signed_take_bit_int_eq_self)

lemma sint_neg_of_nat: "n < 2 ^ 63 \<Longrightarrow> sint (- of_nat n :: i64) = - int n"
  by (simp add: sint_word_ariths sint_of_nat signed_take_bit_int_eq_self)

lemma sint_add_small:
  fixes a b :: i64
  assumes "\<bar>sint a\<bar> \<le> int K" and "\<bar>sint b\<bar> \<le> int L" and "K + L < 2 ^ 63"
  shows "sint (a + b) = sint a + sint b"
  using assms by (simp add: sint_word_ariths signed_take_bit_int_eq_self)

section \<open>The parser's partial states\<close>

fun zops :: "ir_op_t prog list list \<Rightarrow> ir_op_t list" where
  "zops [] = []"
| "zops [p] = flat p"
| "zops (p # q # qs) = zops (q # qs) @ [mk_op IR_OP_LOOP_START 0] @ flat p"

fun zpatch :: "ir_op_t prog list list \<Rightarrow> nat list" where
  "zpatch [] = []"
| "zpatch [p] = []"
| "zpatch (p # q # qs) = length (zops (q # qs)) # zpatch (q # qs)"

lemma zops_extend: "zops ((p @ r) # qs) = zops (p # qs) @ flat r"
  by (cases qs) simp_all

lemma zpatch_top: "zpatch (p # qs) = zpatch (r # qs)"
  by (cases qs) simp_all

lemma zops_open: "zops ([] # p # ps) = zops (p # ps) @ [mk_op IR_OP_LOOP_START 0]"
  by simp

lemma zops_close:
  assumes "delta = (of_nat (length (zops (p # q # qs))) - of_nat (length (zops (q # qs))) :: i64)"
  shows "zops ((q @ [While p]) # qs) =
    (zops (p # q # qs))[length (zops (q # qs)) := mk_op IR_OP_LOOP_START delta]
      @ [mk_op IR_OP_LOOP_END (- delta)]"
proof -
  have "delta = of_nat (length (flat p) + 1)"
    using assms by simp
  then show ?thesis by (simp add: zops_extend Let_def list_update_append)
qed

lemma zops_last_prim:
  assumes "zops (p # qs) \<noteq> []" and "kind (last (zops (p # qs))) = k"
    and "k \<noteq> IR_OP_LOOP_START" and "k \<noteq> IR_OP_LOOP_END"
  obtains p' where "p = p' @ [Prim (last (zops (p # qs)))]"
proof (cases p rule: rev_cases)
  case Nil
  then show ?thesis using assms by (cases qs) auto
next
  case (snoc p' c)
  then have "last (zops (p # qs)) = last (flat [c])"
    by (cases c) (simp_all add: zops_extend Let_def)
  then show ?thesis using assms snoc that by (cases c) (auto simp: Let_def)
qed

text \<open>
  \<open>levels K sz z\<close>: level by level, the program read from the source agrees with the
  program emitted, and no operand exceeds \<open>K\<close>.
\<close>

definition level :: "nat \<Rightarrow> bf_char prog list \<Rightarrow> ir_op_t prog list \<Rightarrow> bool" where
  "level K p q \<longleftrightarrow> agrees bf_step p ir_step q \<and> all_prims (fits K) q"

abbreviation levels :: "nat \<Rightarrow> bf_char prog list list \<Rightarrow> ir_op_t prog list list \<Rightarrow> bool" where
  "levels K \<equiv> list_all2 (level K)"

lemma level_mono: "level K p q \<Longrightarrow> K \<le> L \<Longrightarrow> level L p q"
  unfolding level_def by (blast intro: all_prims_mono fits_mono)

lemma levels_mono: "levels K sz z \<Longrightarrow> K \<le> L \<Longrightarrow> levels L sz z"
  by (auto intro: list_all2_mono level_mono)

lemma level_nil: "level K [] []"
  by (simp add: level_def agrees_nil)

lemma level_while: "level K p q \<Longrightarrow> level K p' q' \<Longrightarrow> level K (p' @ [While p]) (q' @ [While q])"
proof -
  assume a: "level K p q" "level K p' q'"
  then have "agrees bf_step [While p] ir_step [While q]"
    by (simp add: level_def agrees_while)
  with a show ?thesis by (simp add: level_def agrees_append)
qed

text \<open>Appending an operation that agrees with a run of characters.\<close>

lemma level_push:
  assumes "level K p q" and "agrees bf_step r ir_step [Prim x]" and "fits K x"
  shows "level K (p @ r) (q @ [Prim x])"
  using assms by (auto simp: level_def intro: agrees_append)

lemma ir_step_merge:
  assumes "kind x = k" and "k = IR_OP_TAPE \<or> k = IR_OP_CELL" and "on_tape s"
    and "sint (arg x + d) = sint (arg x) + sint d"
    and "ir_step x s = Some t" and "ir_step (mk_op k d) t = Some u"
  shows "ir_step (x\<lparr>arg := arg x + d\<rparr>) s = Some u"
  using assms
  by (auto simp: ir_step_def move_move cell_set_cell set_cell_set_cell add.assoc
      ucast_add_down)

lemma mk_op_id [simp]: "mk_op (kind x) (arg x) = x"
  by simp

section \<open>One turn of the switch\<close>

fun run_op :: "bf_char \<Rightarrow> nat \<Rightarrow> ir_op_t" where
  "run_op MoveRight n = mk_op IR_OP_TAPE (of_nat n)"
| "run_op MoveLeft n = mk_op IR_OP_TAPE (- of_nat n)"
| "run_op Inc n = mk_op IR_OP_CELL (of_nat n)"
| "run_op Dec n = mk_op IR_OP_CELL (- of_nat n)"
| "run_op PutByte n = mk_op IR_OP_WRITE (of_nat n)"
| "run_op GetByte n = mk_op IR_OP_READ (of_nat n)"

definition emit_l :: "ir_op_t list \<Rightarrow> ir_op_t \<Rightarrow> ir_op_t list" where
  "emit_l ops x =
     (if kind x = IR_OP_TAPE \<or> kind x = IR_OP_CELL then merge_l ops (kind x) (arg x) else ops @ [x])"

lemma switch_l_run:
  "bf_of_char c = Some b \<Longrightarrow> switch_l ops ps c n = Some (emit_l ops (run_op b n), ps, n)"
  by (auto simp: bf_of_char_def switch_l_def emit_l_def split: if_splits)

lemma run_op_fits: "n < 2 ^ 63 \<Longrightarrow> fits n (run_op b n)"
  by (cases b) (simp_all add: fits_def sint_of_nat sint_neg_of_nat)

lemma run_op_agrees:
  assumes n: "n < 2 ^ 63"
  shows "agrees bf_step (replicate n (Prim b)) ir_step [Prim (run_op b n)]"
proof -
  have u8: "ucast (of_nat n :: i64) = (of_nat n :: u8)"
    by (induction n) (simp_all add: ucast_add_down)
  { fix f s
    assume s: "on_tape s" and nc: "eval bf_step f (replicate n (Prim b)) s \<noteq> Crash"
    have "eval ir_step f [Prim (run_op b n)] s = eval bf_step f (replicate n (Prim b)) s"
    proof (cases b)
      case MoveRight
      then show ?thesis
        using eval_move_run [of MoveRight 1 s f n] s nc n by (auto simp: ir_step_def sint_of_nat)
    next
      case MoveLeft
      then show ?thesis
        using eval_move_run [of MoveLeft "-1" s f n] s nc n by (auto simp: ir_step_def sint_neg_of_nat)
    next
      case Inc
      then show ?thesis using eval_inc_run [OF s] by (simp add: ir_step_def u8)
    next
      case Dec
      then show ?thesis
        using eval_dec_run [OF s] by (simp add: ir_step_def u8 ucast_minus_down)
    next
      case PutByte
      then show ?thesis
        using eval_replicate_step [of bf_step PutByte put_byte f n s] n
        by (simp add: ir_step_def sint_of_nat)
    next
      case GetByte
      then show ?thesis
        using eval_replicate_step [of bf_step GetByte get_byte f n s] n
        by (simp add: ir_step_def sint_of_nat)
    qed }
  then show ?thesis by (simp add: agrees_def)
qed

lemma level_emit:
  assumes l: "level K p q" and n: "K + n < 2 ^ 63"
  shows "\<exists>q'. emit_l (zops (q # qs)) (run_op b n) = zops (q' # qs)
    \<and> level (K + n) (p @ replicate n (Prim b)) q'"
proof -
  let ?x = "run_op b n" and ?ops = "zops (q # qs)"
  let ?l = "last ?ops"
  have push: "level (K + n) (p @ replicate n (Prim b)) (q @ [Prim ?x])"
    using level_push [OF level_mono [OF l] run_op_agrees fits_mono [OF run_op_fits], of "K + n" n b] n
    by simp
  show ?thesis
  proof (cases "(kind ?x = IR_OP_TAPE \<or> kind ?x = IR_OP_CELL) \<and> ?ops \<noteq> [] \<and> kind ?l = kind ?x")
    case False
    then have "emit_l ?ops ?x = zops ((q @ [Prim ?x]) # qs)"
      by (auto simp: emit_l_def merge_l_def zops_extend)
    then show ?thesis using push by blast
  next
    case True
    then obtain q0 where q0: "q = q0 @ [Prim ?l]"
      using zops_last_prim [of q qs "kind ?x"] by force
    let ?m = "?l\<lparr>arg := arg ?l + arg ?x\<rparr>"
    have "fits K ?l" using l unfolding level_def by (subst (asm) q0) simp
    moreover have x: "fits n ?x" using n by (simp add: run_op_fits)
    ultimately have sum: "sint (arg ?l + arg ?x) = sint (arg ?l) + sint (arg ?x)"
      using sint_add_small [of "arg ?l" K "arg ?x" n] n by (simp add: fits_def)
    have "fits (K + n) ?m"
      using True \<open>fits K ?l\<close> x by (auto simp: fits_def sum)
    moreover have "agrees bf_step (p @ replicate n (Prim b)) ir_step (q0 @ [Prim ?m])"
    proof (rule agrees_merge)
      show "agrees bf_step (p @ replicate n (Prim b)) ir_step (q0 @ [Prim ?l, Prim ?x])"
        using push q0 unfolding level_def by (metis append.assoc append_Cons append_Nil)
      show "ir_step ?m s = Some u" if "on_tape s" "ir_step ?l s = Some t" "ir_step ?x t = Some u"
        for s t u
        using ir_step_merge [of ?l "kind ?x" s "arg ?x" t u] True that sum by simp
    qed simp
    moreover have "all_prims (fits (K + n)) q0"
      using push unfolding level_def by (subst (asm) q0) simp
    ultimately have "level (K + n) (p @ replicate n (Prim b)) (q0 @ [Prim ?m])"
      by (simp add: level_def)
    moreover have "emit_l ?ops ?x = zops ((q0 @ [Prim ?m]) # qs)"
    proof -
      have "?ops = zops (q0 # qs) @ [?l]" using zops_extend [of q0 "[Prim ?l]" qs] q0 by simp
      then have "butlast ?ops = zops (q0 # qs)" by (metis butlast_snoc)
      then show ?thesis using True by (simp add: emit_l_def merge_l_def zops_extend)
    qed
    ultimately show ?thesis by blast
  qed
qed

section \<open>The whole pass\<close>

lemma count_char_split:
  assumes "src \<noteq> []"
  defines "n \<equiv> count_char src (hd src)"
  shows "src = replicate n (hd src) @ drop n src" and "1 \<le> n" and "n \<le> length src"
proof -
  obtain c cs where src: "src = c # cs" using assms(1) by (cases src) auto
  have n: "n = Suc (length (takeWhile (\<lambda>x. x = c) cs))"
    by (simp add: n_def count_char_def src)
  have "takeWhile (\<lambda>x. x = c) cs = replicate (length (takeWhile (\<lambda>x. x = c) cs)) c"
    by (induction cs) auto
  then show "src = replicate n (hd src) @ drop n src"
    by (simp add: n src) (metis append_eq_conv_conj takeWhile_dropWhile_id dropWhile_eq_drop)
  show "1 \<le> n" by (simp add: n)
  show "n \<le> length src" by (simp add: n src length_takeWhile_le)
qed

lemma src_z_run:
  "bf_of_char c = Some b \<Longrightarrow>
   src_z (p # ps) (replicate n c @ rest) = src_z ((p @ replicate n (Prim b)) # ps) rest"
  by (induction n arbitrary: p) simp_all

lemma src_z_comments:
  "is_comment c \<Longrightarrow> src_z (p # ps) (replicate n c @ rest) = src_z (p # ps) rest"
  by (induction n) (simp_all add: is_comment_def)

lemma switch_l_comment: "is_comment c \<Longrightarrow> switch_l ops pt c n = Some (ops, pt, n)"
  by (auto simp: switch_l_def is_comment_def bf_of_char_def split: if_splits)

text \<open>One turn keeps the correspondence between what was read and what was emitted.\<close>

lemma switch_levels:
  assumes lv: "levels K (p # ps) (q # qs)" and src: "src \<noteq> []" and K: "K + length src < 2 ^ 63"
  shows "case switch_l (zops (q # qs)) (zpatch (q # qs)) (hd src) (count_char src (hd src)) of
      None \<Rightarrow> src_z (p # ps) src = None
    | Some (ops, pt, adv) \<Rightarrow> \<exists>p' ps' q' qs'. src_z (p # ps) src = src_z (p' # ps') (drop adv src)
        \<and> levels (K + adv) (p' # ps') (q' # qs') \<and> ops = zops (q' # qs') \<and> pt = zpatch (q' # qs')
        \<and> 1 \<le> adv \<and> adv \<le> length src"
proof -
  define c where "c = hd src"
  define n where "n = count_char src c"
  note split = count_char_split [OF src, folded c_def, folded n_def]
  obtain cs where cs: "src = c # cs" using src by (cases src) (auto simp: c_def)
  have lv': "levels (K + 1) (p # ps) (q # qs)" by (rule levels_mono [OF lv]) simp
  consider b where "bf_of_char c = Some b" | "c = CHR ''[''" | "c = CHR '']''" | "is_comment c"
    by (cases "bf_of_char c") (auto simp: is_comment_def)
  then show ?thesis
  proof cases
    case 1
    obtain q' where q': "emit_l (zops (q # qs)) (run_op b n) = zops (q' # qs)"
        "level (K + n) (p @ replicate n (Prim b)) q'"
      using level_emit [of K p q n qs b] lv K split(3) by auto
    have "levels (K + n) ((p @ replicate n (Prim b)) # ps) (q' # qs)"
      using q'(2) levels_mono [of K ps qs "K + n"] lv by simp
    moreover have "src_z (p # ps) src = src_z ((p @ replicate n (Prim b)) # ps) (drop n src)"
      using src_z_run [OF 1] split(1) by metis
    ultimately show ?thesis
      using q'(1) split(2,3) switch_l_run [OF 1] zpatch_top [of q qs q']
      unfolding c_def [symmetric] n_def [symmetric] by auto
  next
    case 2
    have "levels (K + 1) ([] # p # ps) ([] # q # qs)"
      using lv' by (simp add: level_nil)
    moreover have "src_z (p # ps) src = src_z ([] # p # ps) (drop 1 src)"
      using 2 cs by simp
    moreover have "switch_l (zops (q # qs)) (zpatch (q # qs)) c n
        = Some (zops ([] # q # qs), zpatch ([] # q # qs), 1)"
      using 2 by (simp add: switch_l_def)
    ultimately show ?thesis
      using cs unfolding c_def [symmetric] n_def [symmetric] by force
  next
    case 3
    show ?thesis
    proof (cases qs)
      case Nil
      then have "ps = []" using lv by simp
      with 3 Nil cs have "switch_l (zops (q # qs)) (zpatch (q # qs)) c n = None"
        and "src_z (p # ps) src = None"
        by (simp_all add: switch_l_def)
      then show ?thesis unfolding c_def [symmetric] n_def [symmetric] by simp
    next
      case (Cons r rs)
      then obtain o' os where ps: "ps = o' # os" using lv by (cases ps) auto
      have "levels (K + 1) ((o' @ [While p]) # os) ((r @ [While q]) # rs)"
        using lv' Cons ps by (simp add: level_while)
      moreover have "src_z (p # ps) src = src_z ((o' @ [While p]) # os) (drop 1 src)"
        using 3 cs ps by simp
      moreover have "switch_l (zops (q # qs)) (zpatch (q # qs)) c n
          = Some (zops ((r @ [While q]) # rs), zpatch ((r @ [While q]) # rs), 1)"
        using 3 Cons zops_close [where p = q and q = r and qs = rs, OF refl] zpatch_top [of r rs "r @ [While q]"]
        by (simp add: switch_l_def Let_def)
      ultimately show ?thesis
        using cs unfolding c_def [symmetric] n_def [symmetric] by force
    qed
  next
    case 4
    have "src_z (p # ps) src = src_z (p # ps) (drop n src)"
      using src_z_comments [OF 4] split(1) by metis
    moreover have "levels (K + n) (p # ps) (q # qs)" by (rule levels_mono [OF lv]) simp
    ultimately show ?thesis
      using switch_l_comment [OF 4] split(2,3)
      unfolding c_def [symmetric] n_def [symmetric] by auto
  qed
qed

lemma parse_levels:
  assumes "levels K (p # ps) (q # qs)" and "K + length src < 2 ^ 63"
  shows "case parse_l (zops (q # qs)) (zpatch (q # qs)) src of
      None \<Rightarrow> src_z (p # ps) src = None
    | Some (ops, pt) \<Rightarrow> \<exists>sz z. src_z (p # ps) src = Some sz
        \<and> levels (K + length src) sz z \<and> ops = zops z \<and> pt = zpatch z"
  using assms
proof (induction "length src" arbitrary: src K p ps q qs rule: less_induct)
  case less
  show ?case
  proof (cases "src = []")
    case True
    then show ?thesis using less.prems(1) by (force simp: parse_l.simps)
  next
    case False
    note sw = switch_levels [OF less.prems(1) False less.prems(2)]
    have un: "parse_l ops pt src = (switch_l ops pt (hd src) (count_char src (hd src))
        \<bind> (\<lambda>(ops', pt', adv). parse_l ops' pt' (drop adv src)))" for ops pt
      using False by (simp add: parse_l.simps [of _ _ src])
    show ?thesis
    proof (cases "switch_l (zops (q # qs)) (zpatch (q # qs)) (hd src) (count_char src (hd src))")
      case None
      then show ?thesis using sw by (simp add: un)
    next
      case (Some x)
      obtain ops pt adv where x: "x = (ops, pt, adv)" by (cases x) auto
      from sw Some x obtain p' ps' q' qs' where s:
          "src_z (p # ps) src = src_z (p' # ps') (drop adv src)"
          "levels (K + adv) (p' # ps') (q' # qs')" "ops = zops (q' # qs')"
          "pt = zpatch (q' # qs')" "1 \<le> adv" "adv \<le> length src"
        by auto
      have sum: "K + adv + length (drop adv src) = K + length src" using s(6) by simp
      have "length (drop adv src) < length src" using s(5) False by simp
      then have "case parse_l (zops (q' # qs')) (zpatch (q' # qs')) (drop adv src) of
          None \<Rightarrow> src_z (p' # ps') (drop adv src) = None
        | Some (ops, pt) \<Rightarrow> \<exists>sz z. src_z (p' # ps') (drop adv src) = Some sz
            \<and> levels (K + adv + length (drop adv src)) sz z \<and> ops = zops z \<and> pt = zpatch z"
        using less.prems(2) by (intro less.hyps [OF _ s(2)]) (simp_all only: sum)
      then have "case parse_l ops pt (drop adv src) of
          None \<Rightarrow> src_z (p # ps) src = None
        | Some (ops, pt) \<Rightarrow> \<exists>sz z. src_z (p # ps) src = Some sz
            \<and> levels (K + length src) sz z \<and> ops = zops z \<and> pt = zpatch z"
        unfolding sum s(1) s(3) s(4) .
      moreover have "parse_l (zops (q # qs)) (zpatch (q # qs)) src = parse_l ops pt (drop adv src)"
        using Some x by (simp add: un)
      ultimately show ?thesis by (auto split: option.splits)
    qed
  qed
qed

lemma length_zpatch: "length (zpatch z) = length z - 1"
  by (induction z rule: zpatch.induct) simp_all

lemma ex_le_Suc: "(\<exists>k \<le> Suc n. P k) \<longleftrightarrow> P 0 \<or> (\<exists>k \<le> n. P (Suc k))"
  by (metis Suc_le_mono not0_implies_Suc zero_le)

lemma src_z_None_iff:
  "src_z (p # ps) s = None \<longleftrightarrow>
   (\<exists>k \<le> length s. count_list (take k s) (CHR ''['') + length ps < count_list (take k s) (CHR '']''))"
proof (induction s arbitrary: p ps)
  case Nil
  then show ?case by simp
next
  case (Cons c cs)
  consider b where "bf_of_char c = Some b" | "c = CHR ''[''" | "c = CHR '']''" | "is_comment c"
    by (cases "bf_of_char c") (auto simp: is_comment_def)
  then show ?case
  proof cases
    case 1
    then have "c \<noteq> CHR ''[''" and "c \<noteq> CHR '']''" by auto
    then show ?thesis using 1 by (simp add: ex_le_Suc Cons.IH)
  next
    case 2
    then show ?thesis by (simp add: ex_le_Suc Cons.IH)
  next
    case 3
    then show ?thesis by (cases ps) (auto simp: ex_le_Suc Cons.IH)
  next
    case 4
    then show ?thesis by (simp add: ex_le_Suc Cons.IH is_comment_def)
  qed
qed

lemma src_z_nonempty: "src_z (p # ps) s = Some z \<Longrightarrow> z \<noteq> []"
  by (induction "p # ps" s arbitrary: p ps rule: src_z.induct)
     (auto split: option.splits list.splits if_splits)

lemma src_z_depth:
  "src_z (p # ps) s = Some z \<Longrightarrow>
   length z + count_list s (CHR '']'') = Suc (length ps) + count_list s (CHR ''['')"
proof (induction s arbitrary: p ps)
  case (Cons c cs)
  consider b where "bf_of_char c = Some b" | "c = CHR ''[''" | "c = CHR '']''" | "is_comment c"
    by (cases "bf_of_char c") (auto simp: is_comment_def)
  then show ?case
  proof cases
    case 1
    then have "c \<noteq> CHR ''[''" and "c \<noteq> CHR '']''" by auto
    then show ?thesis using 1 Cons by simp
  next
    case 3
    then show ?thesis using Cons by (cases ps) force+
  qed (use Cons in \<open>force simp: is_comment_def\<close>)+
qed auto

text \<open>The parser from the empty context, in terms of the source.\<close>

lemma ir_ctx_parse_source:
  assumes A: "roomy A lim" and len: "length src \<le> lim"
  shows "case src_z [[]] src of
      None \<Rightarrow> \<exists>ctx. ir_ctx_parse A ir_ctx_init src = Some (1, ctx)
    | Some sz \<Rightarrow> \<exists>ctx z. ir_ctx_parse A ir_ctx_init src = Some (0, ctx) \<and> ctx_ok ctx
        \<and> levels (length src) sz z \<and> vec_list ctx = zops z \<and> patch ctx = zpatch z
        \<and> vlength ctx \<le> length src"
proof -
  have l: "levels 0 [[]] [[]]" by (simp add: level_nil)
  have n: "0 + length src < 2 ^ 63" using roomy_lim [OF A] len by linarith
  note run = ir_ctx_parse_list [of ir_ctx_init A lim src, simplified, OF A len]
  note sem = parse_levels [OF l n, simplified]
  have vl: "vlength ctx = length (vec_list ctx)" if "ctx_ok ctx" for ctx
    using that by (simp add: ctx_ok_def length_vec_list)
  show ?thesis
    using run sem parse_l_grows [of "[]" "[]" src] vl by (auto split: option.splits)
qed

lemma parse_syntax:
  assumes "bf_syntax src p" and "roomy A lim" and "length src \<le> lim"
  shows "\<exists>ctx q. ir_ctx_parse A ir_ctx_init src = Some (0, ctx) \<and> ctx_ok ctx \<and> patch ctx = []
    \<and> vlength ctx \<le> length src \<and> vec_list ctx = flat q
    \<and> agrees bf_step p ir_step q \<and> all_prims (fits (length src)) q"
proof -
  have z: "src_z [[]] src = Some [p]"
    using src_z_syntax [OF assms(1), of "[]" "[]" "[]"] by simp
  obtain ctx q where "ir_ctx_parse A ir_ctx_init src = Some (0, ctx)" "ctx_ok ctx"
      "level (length src) p q" "vec_list ctx = flat q" "patch ctx = []"
      "vlength ctx \<le> length src"
    using ir_ctx_parse_source [OF assms(2,3)] z by (auto simp: list_all2_Cons1)
  then show ?thesis by (auto simp: level_def)
qed

section \<open>Properties\<close>

abbreviation ops_heap :: "ir_op_t allocator" where
  "ops_heap \<equiv> heap_of (mk_op IR_OP_MAX 0) 16"

lemma roomy_ops: "roomy ops_heap 1000"
  by (rule roomy_heap) simp_all

text \<open>
  C10: Parsing a well-formed source returns 0 and leaves no open loop; the operations are the
  layout, with both offsets of every loop, of a structured program with at most one operation
  per character that agrees with the source on every state, non-termination included.
\<close>
theorem parser_correct:
  assumes "bf_syntax src p" and "roomy A lim" and "length src \<le> lim"
  shows "\<exists>ctx q. ir_ctx_parse A ir_ctx_init src = Some (0, ctx) \<and> patch ctx = []
    \<and> vlength ctx \<le> length src \<and> vec_list ctx = flat q \<and> agrees bf_step p ir_step q"
  using parse_syntax [OF assms] by blast

theorem parser_correct_witness:
  "\<exists>ctx q. ir_ctx_parse ops_heap ir_ctx_init ''+[-].'' = Some (0, ctx) \<and> vec_list ctx = flat q
    \<and> agrees bf_step [Prim Inc, While [Prim Dec], Prim PutByte] ir_step q"
proof -
  have "length ''+[-].'' \<le> (1000 :: nat)" by simp
  from parser_correct [OF syntax_example roomy_ops this] show ?thesis by blast
qed

text \<open>C11: The parser returns 1 exactly when some prefix has more \<open>]\<close> than \<open>[\<close>, and otherwise 0.\<close>
theorem parser_rejects_iff:
  assumes "roomy A lim" and "length src \<le> lim"
  shows "\<exists>ret ctx. ir_ctx_parse A ir_ctx_init src = Some (ret, ctx) \<and> ret \<le> 1
    \<and> (ret = 1 \<longleftrightarrow> (\<exists>k \<le> length src.
          count_list (take k src) (CHR ''['') < count_list (take k src) (CHR '']'')))"
  using ir_ctx_parse_source [OF assms] src_z_None_iff [of "[]" "[]" src]
  by (cases "src_z [[]] src") auto

theorem parser_rejects_iff_witness:
  "\<exists>ctx. ir_ctx_parse ops_heap ir_ctx_init ''[]]'' = Some (1, ctx)"
proof -
  have l: "length ''[]]'' \<le> (1000 :: nat)" by simp
  have "\<exists>k \<le> length ''[]]''. count_list (take k ''[]]'') (CHR ''['') < count_list (take k ''[]]'') (CHR '']'')"
    by (rule exI [of _ 3]) simp
  with parser_rejects_iff [OF roomy_ops l] show ?thesis by auto
qed

text \<open>
  C12: A source that is accepted leaves as many patch records, the unmatched \<open>[\<close> that
  \<open>ir_ctx_free\<close> reports, as it has more \<open>[\<close> than \<open>]\<close>.
\<close>
theorem parser_open_loops:
  assumes "roomy A lim" and "length src \<le> lim" and "ir_ctx_parse A ir_ctx_init src = Some (0, ctx)"
  shows "length (patch ctx) + count_list src (CHR '']'') = count_list src (CHR ''['')"
proof -
  obtain sz z where z: "src_z [[]] src = Some sz" "levels (length src) sz z" "patch ctx = zpatch z"
    using ir_ctx_parse_source [OF assms(1,2)] assms(3) by (auto split: option.splits)
  have "length sz = length z" using z(2) by (rule list_all2_lengthD)
  moreover have "length sz + count_list src (CHR '']'') = 1 + count_list src (CHR ''['')"
    using src_z_depth [OF z(1)] by simp
  moreover have "sz \<noteq> []" using src_z_nonempty [OF z(1)] .
  ultimately show ?thesis by (cases z) (auto simp: z(3) length_zpatch)
qed

theorem parser_open_loops_witness:
  "\<exists>ctx. ir_ctx_parse ops_heap ir_ctx_init ''[[]'' = Some (0, ctx) \<and> length (patch ctx) = 1"
proof -
  have l: "length ''[[]'' \<le> (1000 :: nat)" by simp
  obtain ctx where c: "ir_ctx_parse ops_heap ir_ctx_init ''[[]'' = Some (0, ctx)"
    using ir_ctx_parse_source [OF roomy_ops l] by (auto simp: bf_of_char_def)
  from parser_open_loops [OF roomy_ops l c] c show ?thesis by auto
qed

section \<open>Parsing without memory\<close>

text \<open>The bytes \<open>vec_push\<close> requests for a full vector, and a full vector that does not get them.\<close>

definition next_block :: "ir_op_t allocator \<Rightarrow> ir_ctx \<Rightarrow> nat" where
  "next_block A ctx = (if vlength ctx = 0 then 1 else (2 * vlength ctx) mod size_max) * memsz A mod size_max"

definition stuck :: "ir_op_t allocator \<Rightarrow> ir_ctx \<Rightarrow> bool" where
  "stuck A ctx \<longleftrightarrow> vec_ok ctx \<and> vcapacity ctx = vlength ctx
     \<and> \<not> avail A (next_block A ctx)"

lemma next_block_length: "vlength ctx' = vlength ctx \<Longrightarrow> next_block A ctx' = next_block A ctx"
  by (simp only: next_block_def)

lemma stuck_patch [simp]: "stuck A (ctx\<lparr>patch := ps\<rparr>) = stuck A ctx" for ctx :: ir_ctx
  using next_block_length [of "ctx\<lparr>patch := ps\<rparr>" ctx A] by (simp add: stuck_def)








end
