(* ===== verification/Machine.thy ===== *)
theory Machine
  imports Bf
begin

text \<open>
  The contract between a machine that executes laid-out code and the structured programs
  of \<open>Bf\<close>.  A provider says where the code of a primitive and of a loop test lies and
  proves one law for each; the locale turns that into the simulation of whole programs.
  The IR interpreter and the IA-32 code the compiler emits are the two providers.
\<close>

locale loop_machine =
  fixes run :: "nat \<Rightarrow> 'm \<Rightarrow> 'r outcome"
    and st :: "'c \<Rightarrow> bf_state \<Rightarrow> bf_state option"
    and at_pos :: "nat \<Rightarrow> bf_state \<Rightarrow> 'm \<Rightarrow> bool"
    and prim_code :: "nat \<Rightarrow> 'c \<Rightarrow> nat \<Rightarrow> bool"
    and test_code :: "nat \<Rightarrow> nat \<Rightarrow> nat \<Rightarrow> bool"
  assumes prim_law: "prim_code i c j \<Longrightarrow> at_pos i s m \<Longrightarrow> st c s = Some t \<Longrightarrow>
      \<exists>n m'. (\<forall>k. run (n + k) m = run k m') \<and> at_pos j t m'"
    and test_law: "test_code i nz z \<Longrightarrow> at_pos i s m \<Longrightarrow>
      \<exists>n m'. 0 < n \<and> (\<forall>k. run (n + k) m = run k m') \<and> at_pos (if cell s = 0 then z else nz) s m'"
    and run_0: "run 0 m = Timeout"
begin

definition goes :: "nat \<Rightarrow> 'm \<Rightarrow> 'm \<Rightarrow> bool" where
  "goes n m m' \<longleftrightarrow> (\<forall>k. run (n + k) m = run k m')"

lemma goes_0: "goes 0 m m"
  by (simp add: goes_def)

lemma goes_trans: "goes a m m' \<Longrightarrow> goes b m' m'' \<Longrightarrow> goes (a + b) m m''"
  by (simp add: goes_def add.assoc)

text \<open>Where a program lies: its code starts at the first position and is left at the last.\<close>

inductive placed :: "nat \<Rightarrow> 'c prog list \<Rightarrow> nat \<Rightarrow> bool" where
  placed_nil: "placed i [] i"
| placed_prim: "prim_code i c j \<Longrightarrow> placed j p k \<Longrightarrow> placed i (Prim c # p) k"
| placed_while: "test_code i b e \<Longrightarrow> placed b p j \<Longrightarrow> test_code j b e \<Longrightarrow> placed e q k \<Longrightarrow>
    placed i (While p # q) k"

inductive_cases placed_nilE: "placed i [] k"
inductive_cases placed_primE: "placed i (Prim c # p) k"
inductive_cases placed_whileE: "placed i (While p # q) k"

text \<open>
  \<open>ends r f j m\<close>: what running from \<open>m\<close> does when evaluation has outcome \<open>r\<close>.  On
  \<open>Done\<close> the machine gets to \<open>j\<close>; on \<open>Timeout\<close> it makes at least as many steps as
  there was fuel.
\<close>

fun ends :: "bf_state outcome \<Rightarrow> nat \<Rightarrow> nat \<Rightarrow> 'm \<Rightarrow> bool" where
  "ends (Done t) f j m \<longleftrightarrow> (\<exists>n m'. goes n m m' \<and> at_pos j t m')"
| "ends Timeout f j m \<longleftrightarrow> (\<exists>n m'. f \<le> n \<and> goes n m m')"
| "ends Crash f j m \<longleftrightarrow> True"

lemma ends_after: "goes n m m' \<Longrightarrow> ends r f j m' \<Longrightarrow> ends r f j m"
proof (cases r)
  case Timeout
  assume n: "goes n m m'" "ends r f j m'"
  then obtain k m'' where "f \<le> k" "goes k m' m''" using Timeout by auto
  then have "f \<le> n + k" and "goes (n + k) m m''"
    using n by (auto intro: goes_trans)
  then show ?thesis using Timeout by auto
next
  case (Done t)
  assume "goes n m m'" "ends r f j m'"
  then show ?thesis using Done by (auto dest: goes_trans)
qed simp

lemma ends_after_step: "goes n m m' \<Longrightarrow> 0 < n \<Longrightarrow> ends r f j m' \<Longrightarrow> ends r (Suc f) j m"
proof (cases r)
  case Timeout
  assume n: "goes n m m'" "0 < n" "ends r f j m'"
  then obtain k m'' where "f \<le> k" "goes k m' m''" using Timeout by auto
  then have "Suc f \<le> n + k" and "goes (n + k) m m''"
    using n by (auto intro: goes_trans)
  then show ?thesis unfolding Timeout ends.simps by blast
next
  case (Done t)
  assume "goes n m m'" "ends r f j m'"
  then show ?thesis using Done by (auto dest: goes_trans)
qed simp

lemma ends_then:
  assumes "ends r f k m" and "\<And>t m'. r = Done t \<Longrightarrow> at_pos k t m' \<Longrightarrow> ends (g t) f j m'"
  shows "ends (then_do r g) f j m"
proof (cases r)
  case (Done t)
  then obtain n m' where "goes n m m'" "at_pos k t m'" using assms(1) by auto
  then show ?thesis using Done assms(2) ends_after by simp
qed (use assms(1) in simp_all)

text \<open>The simulation of programs and of loops, whose test may sit at the head or at the tail.\<close>

lemma simulation_aux:
  "placed i p j \<Longrightarrow> at_pos i s m \<Longrightarrow> sx = st \<Longrightarrow> ends (eval sx f p s) f j m"
  and simulation_while_aux:
  "test_code i b e \<Longrightarrow> placed b p l \<Longrightarrow> test_code l b e \<Longrightarrow> at_pos h s m \<Longrightarrow> h = i \<or> h = l \<Longrightarrow>
   sx = st \<Longrightarrow> ends (eval_while sx f p s) f e m"
proof (induction sx f p s and sx f p s arbitrary: i j m and i b e l h m rule: eval_eval_while.induct)
  case (1 sx f s)
  then show ?case using goes_0 by (auto elim: placed_nilE)
next
  case (2 sx f c p s)
  note sx = "2.prems"(3)
  from "2.prems"(1) obtain k where k: "prim_code i c k" "placed k p j"
    by (auto elim: placed_primE)
  show ?case
  proof (cases "st c s")
    case (Some t)
    then obtain n m' where "goes n m m'" "at_pos k t m'"
      using prim_law [OF k(1) "2.prems"(2) Some] unfolding goes_def by blast
    then show ?thesis using Some "2.IH" [of t k j m'] k(2) ends_after sx by simp
  qed (simp add: sx)
next
  case (3 sx f b p s)
  note sx = "3.prems"(3)
  from "3.prems"(1) obtain c e l where k: "test_code i c e" "placed c b l" "test_code l c e"
      "placed e p j"
    by (auto elim: placed_whileE)
  have "ends (eval_while st f b s) f e m"
    using "3.IH"(1) [OF k(1-3) "3.prems"(2)] sx by simp
  then show ?case
    using "3.IH"(2) [OF _ k(4)] sx by (auto intro: ends_then)
next
  case (4 sx f p s)
  note sx = "4.prems"(6)
  have tc: "test_code h b e" using "4.prems" by auto
  obtain n m' where n: "0 < n" "goes n m m'" "at_pos (if cell s = 0 then e else b) s m'"
    using test_law [OF tc "4.prems"(4)] unfolding goes_def by blast
  show ?case
  proof (cases "cell s = 0")
    case True
    then show ?thesis using n by auto
  next
    case False
    show ?thesis
    proof (cases f)
      case 0
      then show ?thesis using False goes_0 by auto
    next
      case (Suc f')
      have "at_pos b s m'" using n(3) False by simp
      then have "ends (eval st f' p s) f' l m'"
        using "4.IH"(1) [OF False Suc "4.prems"(2)] sx by blast
      then have "ends (then_do (eval st f' p s) (eval_while st f' p)) f' e m'"
        using "4.IH"(2) [OF False Suc _ "4.prems"(1-3)] sx by (auto intro: ends_then)
      then show ?thesis using ends_after_step [OF n(2,1)] False Suc sx by simp
    qed
  qed
qed

theorem simulation: "placed i p j \<Longrightarrow> at_pos i s m \<Longrightarrow> ends (eval st f p s) f j m"
  by (rule simulation_aux [OF _ _ refl])

text \<open>What an observer of the machine sees.\<close>

corollary run_done:
  assumes "placed i p j" and "at_pos i s m" and "eval st f p s = Done t"
  shows "\<exists>n m'. (\<forall>k. run (n + k) m = run k m') \<and> at_pos j t m'"
  using simulation [OF assms(1,2), of f] assms(3) by (simp add: goes_def)

corollary run_timeout:
  assumes "placed i p j" and "at_pos i s m" and "eval st f p s = Timeout"
  shows "\<exists>n \<ge> f. run n m = Timeout"
proof -
  obtain n m' where "f \<le> n" "goes n m m'"
    using simulation [OF assms(1,2), of f] assms(3) by auto
  then have "run (n + 0) m = run 0 m'" unfolding goes_def by blast
  with \<open>f \<le> n\<close> show ?thesis using run_0 by auto
qed

end

end
