(* ===== verification/Ir_Interpret.thy ===== *)
theory Ir_Interpret
  imports Ir_Sem Machine
begin

text \<open>
  The interpreter, \<open>csrc/src/ir_interpret.c\<close>: direct-threaded dispatch over the
  operation vector.  The state has the two locals \<open>ip\<close> (\<open>size_t\<close>) and \<open>sp\<close>
  (\<open>ssize_t\<close>) at their width, the tape vector and the two standard streams.  One step is
  one dispatched block followed by the fetch of the next operation; \<open>None\<close> is a read or
  write outside the tape or outside the operation vector.
\<close>

section \<open>State\<close>

record interpret_state =
  ip :: u64
  sp :: i64
  ictx :: "u8 vec"
  stdin :: "u8 list"
  stdout :: "u8 list"

definition cell_get :: "interpret_state \<Rightarrow> u8 option" where
  "cell_get r = (if sint (sp r) < 0 then None else vec_get (ictx r) (nat (sint (sp r))))"

definition cell_put :: "interpret_state \<Rightarrow> u8 \<Rightarrow> interpret_state option" where
  "cell_put r b =
     (if sint (sp r) < 0 then None
      else map_option (\<lambda>c. r\<lparr>ictx := c\<rparr>) (vec_set (ictx r) (nat (sint (sp r))) b))"

section \<open>The dispatched blocks\<close>

text \<open>
  \<open>sp >= ctx->capacity\<close> compares \<open>ssize_t\<close> with \<open>size_t\<close>: the C conversions make
  it an unsigned comparison.
\<close>

definition op_tape :: "i64 \<Rightarrow> interpret_state \<Rightarrow> interpret_state" where
  "op_tape a r =
     (let p = sp r + a; cap = vcapacity (ictx r)
      in if cap \<le> unat p then r\<lparr>sp := p - of_nat cap\<rparr>
         else if sint p < 0 then r\<lparr>sp := p + of_nat cap\<rparr>
         else r\<lparr>sp := p\<rparr>)"

definition op_cell :: "i64 \<Rightarrow> interpret_state \<Rightarrow> interpret_state option" where
  "op_cell a r = do { b \<leftarrow> cell_get r; cell_put r (b + ucast a) }"

definition op_loop_start :: "i64 \<Rightarrow> interpret_state \<Rightarrow> interpret_state option" where
  "op_loop_start delta r =
     do { b \<leftarrow> cell_get r; Some (if b = 0 then r\<lparr>ip := ip r + delta\<rparr> else r) }"

definition op_loop_end :: "i64 \<Rightarrow> interpret_state \<Rightarrow> interpret_state option" where
  "op_loop_end delta r =
     do { b \<leftarrow> cell_get r; Some (if b \<noteq> 0 then r\<lparr>ip := ip r + delta\<rparr> else r) }"

fun op_write :: "nat \<Rightarrow> interpret_state \<Rightarrow> interpret_state option" where
  "op_write 0 r = Some r"
| "op_write (Suc n) r = do { b \<leftarrow> cell_get r; op_write n (r\<lparr>stdout := stdout r @ [b]\<rparr>) }"

text \<open>\<open>fread\<close> of one byte into the cell; at end of file it stores nothing.\<close>

fun op_read :: "nat \<Rightarrow> interpret_state \<Rightarrow> interpret_state option" where
  "op_read 0 r = Some r"
| "op_read (Suc n) r =
     (case stdin r of
        [] \<Rightarrow> op_read n r
      | b # bs \<Rightarrow> do { r' \<leftarrow> cell_put (r\<lparr>stdin := bs\<rparr>) b; op_read n r' })"

definition op_set :: "i64 \<Rightarrow> interpret_state \<Rightarrow> interpret_state option" where
  "op_set a r = cell_put r (ucast a)"

section \<open>Dispatch\<close>

text \<open>
  \<open>interpret_block\<close> runs the block an operation selects; the loop bounds
  \<open>i < opcode.arg\<close> are signed.  \<open>interpret_step\<close> returns \<open>Inl\<close> at the halt
  operation and \<open>Inr\<close> with \<open>ip\<close> advanced otherwise.
\<close>

definition interpret_block :: "ir_op_t \<Rightarrow> interpret_state \<Rightarrow> interpret_state option" where
  "interpret_block x r =
     (case kind x of
        IR_OP_TAPE \<Rightarrow> Some (op_tape (arg x) r)
      | IR_OP_CELL \<Rightarrow> op_cell (arg x) r
      | IR_OP_LOOP_START \<Rightarrow> op_loop_start (arg x) r
      | IR_OP_LOOP_END \<Rightarrow> op_loop_end (arg x) r
      | IR_OP_WRITE \<Rightarrow> op_write (nat (sint (arg x))) r
      | IR_OP_READ \<Rightarrow> op_read (nat (sint (arg x))) r
      | IR_OP_SET \<Rightarrow> op_set (arg x) r
      | IR_OP_MAX \<Rightarrow> Some r)"

definition interpret_step :: "ir_ctx \<Rightarrow> interpret_state
    \<Rightarrow> (interpret_state + interpret_state) option" where
  "interpret_step ir r = do {
     x \<leftarrow> vec_get ir (unat (ip r));
     r' \<leftarrow> interpret_block x r;
     Some (if kind x = IR_OP_MAX then Inl r' else Inr (r'\<lparr>ip := ip r' + 1\<rparr>)) }"

fun interpret_run :: "ir_ctx \<Rightarrow> nat \<Rightarrow> interpret_state \<Rightarrow> interpret_state outcome" where
  "interpret_run ir 0 r = Timeout"
| "interpret_run ir (Suc n) r =
     (case interpret_step ir r of
        None \<Rightarrow> Crash
      | Some (Inl r') \<Rightarrow> Done r'
      | Some (Inr r') \<Rightarrow> interpret_run ir n r')"

definition interpret_start :: "u8 vec \<Rightarrow> u8 list \<Rightarrow> interpret_state" where
  "interpret_start ctx input = \<lparr>ip = 0, sp = 0, ictx = ctx, stdin = input, stdout = []\<rparr>"

definition ir_interpret :: "ir_op_t allocator \<Rightarrow> nat \<Rightarrow> ir_ctx \<Rightarrow> u8 vec \<Rightarrow> u8 list
    \<Rightarrow> interpret_state outcome" where
  "ir_interpret A fuel ir ctx input =
     then_do (of_option (vec_push A ir (mk_op IR_OP_MAX 0)))
       (\<lambda>(rc, ir'). interpret_run ir' fuel (interpret_start ctx input))"

section \<open>The interpreter as a machine for structured programs\<close>

definition interp_at :: "nat \<Rightarrow> bf_state \<Rightarrow> interpret_state \<Rightarrow> bool" where
  "interp_at i s r \<longleftrightarrow> ip r = of_nat i \<and> on_tape s \<and> sp r = of_nat (ptr s)
     \<and> vdata (ictx r) = cells s \<and> vcapacity (ictx r) = length (cells s)
     \<and> length (cells s) < 2 ^ 63 \<and> stdin r = inp s \<and> stdout r = out s"

definition interp_prim :: "ir_ctx \<Rightarrow> nat \<Rightarrow> ir_op_t \<Rightarrow> nat \<Rightarrow> bool" where
  "interp_prim ir i x j \<longleftrightarrow> vec_ok ir \<and> vlength ir < 2 ^ 63 \<and> i < vlength ir
     \<and> vec_list ir ! i = x \<and> j = i + 1"

definition interp_test :: "ir_ctx \<Rightarrow> nat \<Rightarrow> nat \<Rightarrow> nat \<Rightarrow> bool" where
  "interp_test ir i nz z \<longleftrightarrow> vec_ok ir \<and> vlength ir < 2 ^ 63 \<and> i < vlength ir
     \<and> (vec_list ir ! i = mk_op IR_OP_LOOP_START (of_nat z - of_nat i - 1) \<and> nz = i + 1
        \<or> vec_list ir ! i = mk_op IR_OP_LOOP_END (of_nat nz - of_nat i - 1) \<and> z = i + 1)"

lemma interp_sp: "interp_at i s r \<Longrightarrow> sint (sp r) = int (ptr s) \<and> ptr s < length (vdata (ictx r))"
  by (simp add: interp_at_def on_tape_def sint_of_nat)

lemma interp_cell_get: "interp_at i s r \<Longrightarrow> cell_get r = Some (cell s)"
  using interp_sp [of i s r]
  by (simp add: cell_get_def vec_get_def load_def cell_def interp_at_def)

lemma interp_cell_put:
  "interp_at i s r \<Longrightarrow> \<exists>r'. cell_put r b = Some r' \<and> interp_at i (set_cell b s) r'"
  using interp_sp [of i s r] on_tape_set_cell [of b s]
  by (auto simp: cell_put_def vec_set_def store_def interp_at_def set_cell_def)

lemma interp_op_cell:
  "interp_at i s r \<Longrightarrow> \<exists>r'. op_cell a r = Some r' \<and> interp_at i (set_cell (cell s + ucast a) s) r'"
  using interp_cell_get interp_cell_put by (simp add: op_cell_def)

lemma interp_op_write:
  "interp_at i s r \<Longrightarrow> \<exists>r'. op_write n r = Some r' \<and> interp_at i ((put_byte ^^ n) s) r'"
proof (induction n arbitrary: s r)
  case 0
  then show ?case by simp
next
  case (Suc n)
  have "interp_at i (put_byte s) (r\<lparr>stdout := stdout r @ [cell s]\<rparr>)"
    using Suc.prems by (simp add: interp_at_def put_byte_def on_tape_def)
  then show ?case
    using Suc.IH interp_cell_get [OF Suc.prems] by (simp add: funpow_swap1)
qed

lemma interp_op_read:
  "interp_at i s r \<Longrightarrow> \<exists>r'. op_read n r = Some r' \<and> interp_at i ((get_byte ^^ n) s) r'"
proof (induction n arbitrary: s r)
  case 0
  then show ?case by simp
next
  case (Suc n)
  show ?case
  proof (cases "inp s")
    case Nil
    then have "get_byte s = s" "stdin r = []"
      using Suc.prems by (simp_all add: get_byte_def interp_at_def)
    then show ?thesis using Suc.IH [OF Suc.prems] by (simp add: funpow_swap1)
  next
    case (Cons b bs)
    then have "get_byte s = set_cell b (s\<lparr>inp := bs\<rparr>)" and r: "stdin r = b # bs"
      using Suc.prems by (simp_all add: get_byte_def interp_at_def)
    moreover have "interp_at i (s\<lparr>inp := bs\<rparr>) (r\<lparr>stdin := bs\<rparr>)"
      using Suc.prems by (simp add: interp_at_def on_tape_def)
    ultimately obtain r' where "cell_put (r\<lparr>stdin := bs\<rparr>) b = Some r'" "interp_at i (get_byte s) r'"
      using interp_cell_put by fastforce
    then show ?thesis using Suc.IH r by (simp add: funpow_swap1)
  qed
qed

lemma of_nat_move:
  fixes a :: i64
  assumes "0 \<le> int p + sint a"
  shows "(of_nat (nat (int p + sint a)) :: i64) = of_nat p + a"
proof -
  have "(of_nat (nat (int p + sint a)) :: i64) = of_int (int p + sint a)"
    using assms by (metis int_nat_eq of_int_of_nat_eq)
  then show ?thesis by simp
qed

lemma interp_op_tape:
  assumes "interp_at i s r" and "move_ptr (sint a) s = Some t"
  shows "interp_at i t (op_tape a r)"
proof -
  let ?p = "nat (int (ptr s) + sint a)"
  have p: "0 \<le> int (ptr s) + sint a" "?p < length (cells s)" and t: "t = s\<lparr>ptr := ?p\<rparr>"
    using assms(2) by (auto simp: move_ptr_def Let_def split: if_splits)
  have len: "length (cells s) < 2 ^ 63" "vcapacity (ictx r) = length (cells s)"
    using assms(1) by (simp_all add: interp_at_def)
  have w: "sp r + a = of_nat ?p"
    using of_nat_move [OF p(1)] assms(1) by (simp add: interp_at_def)
  have "unat (of_nat ?p :: i64) = ?p"
    using p(2) len by (intro unat_of_nat_small) simp
  moreover have "sint (of_nat ?p :: i64) = int ?p"
    using p(2) len by (intro sint_of_nat) simp
  ultimately have "op_tape a r = r\<lparr>sp := of_nat ?p\<rparr>"
    unfolding op_tape_def w Let_def using p(2) len by simp
  then show ?thesis
    using assms(1) p(2) by (simp add: interp_at_def t on_tape_def)
qed

lemma interp_block_prim:
  assumes at: "interp_at i s r" and st: "ir_step x s = Some t"
  shows "\<exists>r'. interpret_block x r = Some r' \<and> interp_at i t r' \<and> kind x \<noteq> IR_OP_MAX"
proof (cases "kind x")
  case IR_OP_TAPE
  then show ?thesis
    using at st interp_op_tape by (simp add: interpret_block_def ir_step_def)
next
  case IR_OP_CELL
  then show ?thesis
    using at st interp_op_cell by (auto simp: interpret_block_def ir_step_def)
next
  case IR_OP_WRITE
  then show ?thesis
    using at st interp_op_write by (auto simp: interpret_block_def ir_step_def)
next
  case IR_OP_READ
  then show ?thesis
    using at st interp_op_read by (auto simp: interpret_block_def ir_step_def)
next
  case IR_OP_SET
  then show ?thesis
    using at st interp_cell_put by (auto simp: interpret_block_def ir_step_def op_set_def)
qed (use st in \<open>simp_all add: ir_step_def\<close>)

lemma interpret_run_step:
  assumes "vec_get ir (unat (ip r)) = Some x" and "interpret_block x r = Some r'"
    and "kind x \<noteq> IR_OP_MAX"
  shows "interpret_run ir (1 + k) r = interpret_run ir k (r'\<lparr>ip := ip r' + 1\<rparr>)"
  using assms by (simp add: interpret_step_def)

lemma interp_fetch:
  assumes "interp_at i s r" and "vec_ok ir" and "vlength ir < 2 ^ 63" and "i < vlength ir"
  shows "vec_get ir (unat (ip r)) = Some (vec_list ir ! i)"
proof -
  have "unat (of_nat i :: u64) = i" using assms(3,4) by (intro unat_of_nat_small) simp
  then show ?thesis using assms by (simp add: interp_at_def vec_get_ok)
qed

lemma interp_at_jump: "interp_at i s r \<Longrightarrow> w = of_nat j \<Longrightarrow> interp_at j s (r\<lparr>ip := w\<rparr>)"
  by (simp add: interp_at_def)

interpretation it: loop_machine "interpret_run ir" ir_step interp_at "interp_prim ir" "interp_test ir"
  for ir
proof unfold_locales
  fix i x j s t r
  assume c: "interp_prim ir i x j" and at: "interp_at i s r" and st: "ir_step x s = Some t"
  then obtain r' where r': "interpret_block x r = Some r'" "interp_at i t r'" "kind x \<noteq> IR_OP_MAX"
    using interp_block_prim by blast
  have "vec_get ir (unat (ip r)) = Some x"
    using interp_fetch [OF at] c by (auto simp: interp_prim_def)
  then have "interpret_run ir (1 + k) r = interpret_run ir k (r'\<lparr>ip := ip r' + 1\<rparr>)" for k
    using r' by (intro interpret_run_step) simp_all
  moreover have "interp_at j t (r'\<lparr>ip := ip r' + 1\<rparr>)"
    using r'(2) c by (intro interp_at_jump) (auto simp: interp_prim_def interp_at_def)
  ultimately show "\<exists>n m'. (\<forall>k. interpret_run ir (n + k) r = interpret_run ir k m') \<and> interp_at j t m'"
    by blast
next
  fix i nz z s r
  assume c: "interp_test ir i nz z" and at: "interp_at i s r"
  let ?x = "vec_list ir ! i" and ?j = "if cell s = 0 then z else nz"
  have ip: "ip r = of_nat i" using at by (simp add: interp_at_def)
  have get: "vec_get ir (unat (ip r)) = Some ?x"
    using interp_fetch [OF at] c by (auto simp: interp_test_def)
  have "\<exists>r'. interpret_block ?x r = Some r' \<and> kind ?x \<noteq> IR_OP_MAX
      \<and> r'\<lparr>ip := ip r' + 1\<rparr> = r\<lparr>ip := of_nat ?j\<rparr>"
    using c interp_cell_get [OF at]
    by (auto simp: interp_test_def interpret_block_def op_loop_start_def op_loop_end_def ip)
  then obtain r' where r': "interpret_block ?x r = Some r'" "kind ?x \<noteq> IR_OP_MAX"
      "r'\<lparr>ip := ip r' + 1\<rparr> = r\<lparr>ip := of_nat ?j\<rparr>" by blast
  have "interpret_run ir (1 + k) r = interpret_run ir k (r\<lparr>ip := of_nat ?j\<rparr>)" for k
    unfolding r'(3) [symmetric] by (rule interpret_run_step [OF get r'(1,2)])
  moreover have "interp_at ?j s (r\<lparr>ip := of_nat ?j\<rparr>)"
    by (rule interp_at_jump [OF at refl])
  ultimately show "\<exists>n m'. 0 < n \<and> (\<forall>k. interpret_run ir (n + k) r = interpret_run ir k m')
      \<and> interp_at ?j s m'"
    by (intro exI [of _ 1] exI [of _ "r\<lparr>ip := of_nat ?j\<rparr>"]) simp
qed simp

section \<open>Programs as the parser lays them out\<close>

lemma interp_placed:
  assumes "vec_ok ir" and "vlength ir < 2 ^ 63" and "vec_list ir = pre @ flat q @ post"
  shows "it.placed ir (length pre) q (length pre + length (flat q))"
  using assms(3)
proof (induction q arbitrary: pre post rule: flat.induct)
  case 1
  then show ?case by (simp add: it.placed_nil)
next
  case (2 x p)
  have "interp_prim ir (length pre) x (length pre + 1)"
    using assms(1,2) 2(2) length_vec_list [OF assms(1)]
    by (simp add: interp_prim_def)
  moreover have "it.placed ir (length pre + 1) p (length pre + 1 + length (flat p))"
    using "2.IH" [of "pre @ [x]" post] 2(2) by simp
  ultimately show ?case using it.placed_prim by fastforce
next
  case (3 b p)
  let ?d = "of_nat (length (flat b) + 1) :: i64"
  let ?i = "length pre" and ?l = "length pre + 1 + length (flat b)"
  have v: "vec_list ir = pre @ mk_op IR_OP_LOOP_START ?d # flat b @ mk_op IR_OP_LOOP_END (- ?d) # flat p @ post"
    using "3.prems" by (simp add: Let_def)
  have len: "vlength ir = ?l + 1 + length (flat p) + length post"
    using length_vec_list [OF assms(1)] unfolding v by simp
  have "interp_test ir ?i (?i + 1) (?l + 1)"
    using assms(1,2) len by (simp add: interp_test_def v)
  moreover have "interp_test ir ?l (?i + 1) (?l + 1)"
  proof -
    have "vec_list ir ! ?l = mk_op IR_OP_LOOP_END (- ?d)"
      unfolding v by (simp add: nth_append)
    moreover have "(of_nat (?i + 1) - of_nat ?l - 1 :: i64) = - ?d"
      by simp
    ultimately show ?thesis using assms(1,2) len by (simp add: interp_test_def)
  qed
  moreover have "it.placed ir (?i + 1) b ?l"
    using "3.IH"(1) [of "pre @ [mk_op IR_OP_LOOP_START ?d]"
        "mk_op IR_OP_LOOP_END (- ?d) # flat p @ post"] v by simp
  moreover have "it.placed ir (?l + 1) p (?l + 1 + length (flat p))"
    using "3.IH"(3) [OF refl, of "pre @ [mk_op IR_OP_LOOP_START ?d] @ flat b @ [mk_op IR_OP_LOOP_END (- ?d)]"
        post] v by (simp add: add.assoc)
  ultimately have "it.placed ir ?i (While b # p) (?l + 1 + length (flat p))"
    by (intro it.placed_while)
  then show ?case by (simp add: Let_def add.assoc)
qed

definition fresh_state :: "u8 list \<Rightarrow> u8 list \<Rightarrow> bf_state" where
  "fresh_state tape input = \<lparr>ptr = 0, cells = tape, inp = input, out = []\<rparr>"

definition tape_ok :: "u8 vec \<Rightarrow> bool" where
  "tape_ok c \<longleftrightarrow> length (vdata c) = vcapacity c \<and> 0 < vcapacity c \<and> vcapacity c < 2 ^ 63"

lemma interp_at_start: "tape_ok c \<Longrightarrow> interp_at 0 (fresh_state (vdata c) input) (interpret_start c input)"
  by (auto simp: interp_at_def tape_ok_def fresh_state_def interpret_start_def on_tape_def)

text \<open>Running a parsed program to its halt operation.\<close>

lemma interpret_flat:
  assumes ir: "ctx_ok ir" "vec_list ir = flat q" and A: "roomy A lim" "vlength ir < lim"
    and c: "tape_ok c"
  shows "eval ir_step f q (fresh_state (vdata c) input) = Done t \<Longrightarrow>
      \<exists>n r. \<forall>k. ir_interpret A (n + k) ir c input = Done r \<and> stdout r = out t \<and> stdin r = inp t
        \<and> vdata (ictx r) = cells t \<and> sp r = of_nat (ptr t)"
    and "eval ir_step f q (fresh_state (vdata c) input) = Timeout \<Longrightarrow>
      \<exists>n \<ge> f. ir_interpret A n ir c input = Timeout"
proof -
  obtain ir' where p: "vec_push A ir (mk_op IR_OP_MAX 0) = Some (RC_OK, ir')"
      and ir': "vec_ok ir'" "vec_list ir' = flat q @ [mk_op IR_OP_MAX 0]"
    using vec_push_roomy [of ir A lim "mk_op IR_OP_MAX 0"] ir A by (auto simp: ctx_ok_def)
  have len: "vlength ir' = length (flat q) + 1"
    using length_vec_list [OF ir'(1)] ir'(2) by simp
  have "vlength ir = length (flat q)"
    using length_vec_list [of ir] ir by (simp add: ctx_ok_def)
  then have lim: "vlength ir' < 2 ^ 63"
    using len A roomy_lim [OF A(1)] by linarith
  have pl: "it.placed ir' 0 q (length (flat q))"
    using interp_placed [OF ir'(1) lim, of "[]" q "[mk_op IR_OP_MAX 0]"] ir'(2) by simp
  have run: "ir_interpret A n ir c input = interpret_run ir' n (interpret_start c input)" for n
    by (simp add: ir_interpret_def p)
  note at = interp_at_start [OF c, of input]
  show "\<exists>n r. \<forall>k. ir_interpret A (n + k) ir c input = Done r \<and> stdout r = out t \<and> stdin r = inp t
        \<and> vdata (ictx r) = cells t \<and> sp r = of_nat (ptr t)"
    if d: "eval ir_step f q (fresh_state (vdata c) input) = Done t"
  proof -
    obtain n r where n: "\<And>k. interpret_run ir' (n + k) (interpret_start c input) = interpret_run ir' k r"
        and r: "interp_at (length (flat q)) t r"
      using it.run_done [OF pl at d] by blast
    have "vec_get ir' (unat (ip r)) = Some (mk_op IR_OP_MAX 0)"
      using interp_fetch [OF r ir'(1) lim] len ir'(2) by simp
    then have "interpret_run ir' (Suc k) r = Done r" for k
      by (simp add: interpret_step_def interpret_block_def)
    then have "\<forall>k. ir_interpret A (n + 1 + k) ir c input = Done r"
      using n [of "Suc k" for k] by (simp add: run)
    then show ?thesis using r unfolding interp_at_def by blast
  qed
  show "\<exists>n \<ge> f. ir_interpret A n ir c input = Timeout"
    if "eval ir_step f q (fresh_state (vdata c) input) = Timeout"
    using it.run_timeout [OF pl at that] by (simp add: run)
qed

lemma interpret_run_mono: "interpret_run ir n r \<noteq> Timeout \<Longrightarrow> interpret_run ir (n + k) r = interpret_run ir n r"
  by (induction n arbitrary: r) (auto split: option.splits sum.splits)

lemma ir_interpret_mono:
  "ir_interpret A n ir c input \<noteq> Timeout \<Longrightarrow> ir_interpret A (n + k) ir c input = ir_interpret A n ir c input"
  by (cases "vec_push A ir (mk_op IR_OP_MAX 0)") (auto simp: ir_interpret_def interpret_run_mono)

lemma interpret_source:
  fixes input :: "u8 list"
  assumes "bf_syntax src p" and "roomy A lim" and "length src < lim" and "tape_ok c"
  defines "s \<equiv> fresh_state (vdata c) input"
  shows "eval bf_step f p s = Done t \<Longrightarrow>
      \<exists>ir n r. ir_ctx_parse A ir_ctx_init src = Some (0, ir)
        \<and> (\<forall>k. ir_interpret A (n + k) ir c input = Done r) \<and> stdout r = out t \<and> stdin r = inp t
        \<and> vdata (ictx r) = cells t \<and> sp r = of_nat (ptr t)"
    and "eval bf_step f p s = Timeout \<Longrightarrow>
      \<exists>ir. ir_ctx_parse A ir_ctx_init src = Some (0, ir)
        \<and> (\<forall>n \<le> f. ir_interpret A n ir c input = Timeout)"
proof -
  obtain ir q where ir: "ir_ctx_parse A ir_ctx_init src = Some (0, ir)" "ctx_ok ir"
      "vlength ir \<le> length src" "vec_list ir = flat q" "agrees bf_step p ir_step q"
    using parse_syntax [OF assms(1,2)] assms(3) by auto
  have s: "on_tape s"
    using assms(4) by (auto simp: s_def fresh_state_def tape_ok_def on_tape_def)
  have e: "eval bf_step f p s \<noteq> Crash \<Longrightarrow> eval ir_step f q s = eval bf_step f p s" for f
    using ir(5) s by (simp add: agrees_def)
  have len: "vlength ir < lim" using ir(3) assms(3) by simp
  note run = interpret_flat [OF ir(2,4) assms(2) len assms(4), of f input, folded s_def]
  show "\<exists>ir n r. ir_ctx_parse A ir_ctx_init src = Some (0, ir)
        \<and> (\<forall>k. ir_interpret A (n + k) ir c input = Done r) \<and> stdout r = out t \<and> stdin r = inp t
        \<and> vdata (ictx r) = cells t \<and> sp r = of_nat (ptr t)"
    if d: "eval bf_step f p s = Done t"
    using run(1) [of t] e [of f] d ir(1) by auto
  show "\<exists>ir. ir_ctx_parse A ir_ctx_init src = Some (0, ir)
        \<and> (\<forall>n \<le> f. ir_interpret A n ir c input = Timeout)"
    if d: "eval bf_step f p s = Timeout"
  proof -
    obtain m where m: "f \<le> m" "ir_interpret A m ir c input = Timeout"
      using run(2) e [of f] d by auto
    have "ir_interpret A n ir c input = Timeout" if "n \<le> f" for n
      using ir_interpret_mono [of A n ir c input "m - n"] m that by (cases "ir_interpret A n ir c input") auto
    then show ?thesis using ir(1) by blast
  qed
qed

lemma unat_of_sint: "0 \<le> sint w \<Longrightarrow> int (unat w) = sint w" for w :: i64
proof -
  assume w: "0 \<le> sint w"
  have "sint w < 2 ^ 63" using sint_lt [of w] by simp
  moreover have "(of_nat (nat (sint w)) :: i64) = w"
    using of_nat_move [of 0 w] w by simp
  ultimately show ?thesis
    using unat_of_nat_small [of "nat (sint w)", where 'a = 64] w by simp
qed

lemma unat_of_neg: "sint w < 0 \<Longrightarrow> 2 ^ 63 \<le> unat w" for w :: i64
  using sint_of_nat [of "unat w"] by (cases "unat w < 2 ^ 63") simp_all

section \<open>Properties\<close>

text \<open>
  C17: Every dispatched block except the loop brackets does to the tape, the pointer and the
  streams what its operation means, and leaves the instruction pointer alone.
\<close>
theorem blocks_correct:
  assumes "interp_at i s r" and "ir_step x s = Some t"
  shows "\<exists>r'. interpret_block x r = Some r' \<and> interp_at i t r'"
  using interp_block_prim [OF assms] by blast

abbreviation two_cells :: interpret_state where
  "two_cells \<equiv> \<lparr>ip = 0, sp = 0, ictx = \<lparr>borrowed = False, vlength = 0, vcapacity = 2, vdata = [3, 4]\<rparr>,
     stdin = [], stdout = []\<rparr>"

theorem blocks_correct_witness:
  "\<exists>r'. interpret_block (mk_op IR_OP_TAPE 1) two_cells = Some r' \<and> sp r' = 1"
proof -
  let ?s = "\<lparr>ptr = 0, cells = [3, 4], inp = [], out = []\<rparr>"
  have at: "interp_at 0 ?s two_cells" by (simp add: interp_at_def on_tape_def)
  have st: "ir_step (mk_op IR_OP_TAPE 1) ?s = Some (?s\<lparr>ptr := 1\<rparr>)"
    by (simp add: ir_step_def move_ptr_def)
  from blocks_correct [OF at st] show ?thesis by (auto simp: interp_at_def)
qed

text \<open>Moving right across the last cell wraps to the first cells, as the code intends.\<close>
theorem tape_wraps_right:
  assumes "vcapacity (ictx r) < 2 ^ 62" and "0 \<le> sint (sp r)" and "sint (sp r) < int (vcapacity (ictx r))"
    and "0 \<le> sint a" and "sint a \<le> int (vcapacity (ictx r))"
    and "int (vcapacity (ictx r)) \<le> sint (sp r) + sint a"
  shows "sint (sp (op_tape a r)) = sint (sp r) + sint a - int (vcapacity (ictx r))"
proof -
  let ?c = "vcapacity (ictx r)"
  have p: "sint (sp r + a) = sint (sp r) + sint a"
    using assms by (simp add: sint_word_ariths signed_take_bit_int_eq_self)
  then have "int (unat (sp r + a)) = sint (sp r) + sint a"
    using unat_of_sint [of "sp r + a"] assms(2,4) by linarith
  then have "?c \<le> unat (sp r + a)" using assms(6) by linarith
  moreover have "sint (sp r + a - of_nat ?c) = sint (sp r) + sint a - int ?c"
    using assms p sint_of_nat [of ?c] by (simp add: sint_word_ariths(2) signed_take_bit_int_eq_self)
  ultimately show ?thesis by (simp add: op_tape_def Let_def)
qed

theorem tape_wraps_right_witness: "sint (sp (op_tape 2 two_cells)) = 0"
  using tape_wraps_right [of two_cells 2] by simp

text \<open>
  C18: Moving left across the first cell does not wrap to the last cells: the comparison with
  the capacity is unsigned, so the branch for a negative pointer is never taken, the pointer
  moves further left by the capacity, and the next access to the cell is outside the tape.
\<close>
theorem tape_left_escapes:
  assumes "vcapacity (ictx r) < 2 ^ 62" and "0 \<le> sint (sp r)" and "sint (sp r) < int (vcapacity (ictx r))"
    and "- (2 ^ 62) \<le> sint a" and "sint (sp r) + sint a < 0"
  shows "sint (sp (op_tape a r)) = sint (sp r) + sint a - int (vcapacity (ictx r)) \<and> cell_get (op_tape a r) = None"
proof -
  let ?c = "vcapacity (ictx r)"
  have p: "sint (sp r + a) = sint (sp r) + sint a"
    using assms by (simp add: sint_word_ariths signed_take_bit_int_eq_self)
  then have "2 ^ 63 \<le> unat (sp r + a)" using assms(5) by (intro unat_of_neg) simp
  then have "?c \<le> unat (sp r + a)" using assms(1) by simp
  moreover have n: "sint (sp r + a - of_nat ?c) = sint (sp r) + sint a - int ?c"
    using assms p sint_of_nat [of ?c] by (simp add: sint_word_ariths(2) signed_take_bit_int_eq_self)
  ultimately have s: "sint (sp (op_tape a r)) = sint (sp r) + sint a - int ?c"
    by (simp add: op_tape_def Let_def)
  then show ?thesis using assms(5) by (simp add: cell_get_def)
qed

theorem tape_left_escapes_witness: "sint (sp (op_tape (- 1) two_cells)) = - 3 \<and> cell_get (op_tape (- 1) two_cells) = None"
  using tape_left_escapes [of two_cells "- 1"] by simp

end
