(* ===== verification/Ir_Dump.thy ===== *)
theory Ir_Dump
  imports Ir_Sem
begin

text \<open>
  The printers of \<open>csrc/src/ir_gen.c\<close>: \<open>ir_ctx_dump_bf\<close> writes the operations back as
  source text, \<open>ir_fmt_op\<close> and \<open>ir_ctx_dump_ir\<close> as a listing.  The results are the
  characters written.  \<open>None\<close> is the overflow of the \<open>int\<close> loop counter of \<open>putcc\<close> or a
  read outside the operation vector.  The text that \<open>ir_ctx_dump_bf\<close> prints for a parsed
  program denotes a program that agrees with it, and a listing line determines its operation.
\<close>

section \<open>Printing source text\<close>

definition putcc :: "char \<Rightarrow> i64 \<Rightarrow> string option" where
  "putcc c n = (if sint n > 2147483647 then None else Some (replicate (nat (sint n)) c))"

definition dump_bf_op :: "ir_op_t \<Rightarrow> string option" where
  "dump_bf_op x =
     (case kind x of
        IR_OP_READ \<Rightarrow> putcc (CHR '','') (arg x)
      | IR_OP_WRITE \<Rightarrow> putcc (CHR ''.'') (arg x)
      | IR_OP_CELL \<Rightarrow>
          if sint (arg x) < 0 then putcc (CHR ''-'') (- arg x) else putcc (CHR ''+'') (arg x)
      | IR_OP_TAPE \<Rightarrow>
          if sint (arg x) < 0 then putcc (CHR ''<'') (- arg x) else putcc (CHR ''>'') (arg x)
      | IR_OP_LOOP_START \<Rightarrow> Some ''[''
      | IR_OP_LOOP_END \<Rightarrow> Some '']''
      | _ \<Rightarrow> putcc (CHR ''#'') (arg x))"

function dump_bf_from :: "ir_ctx \<Rightarrow> nat \<Rightarrow> string option" where
  "dump_bf_from ctx i =
     (if i < vlength ctx
      then do { x \<leftarrow> vec_get ctx i; s \<leftarrow> dump_bf_op x; t \<leftarrow> dump_bf_from ctx (i + 1); Some (s @ t) }
      else Some [CHR 0x0A])"
  by pat_completeness auto
termination
  by (relation "measure (\<lambda>(ctx, i). vlength ctx - i)") auto

declare dump_bf_from.simps [simp del]

definition ir_ctx_dump_bf :: "ir_ctx \<Rightarrow> string option" where
  "ir_ctx_dump_bf ctx = dump_bf_from ctx 0"

section \<open>The listing\<close>

text \<open>\<open>%ld\<close> and \<open>%zu\<close>.\<close>

definition fmt_ld :: "i64 \<Rightarrow> string" where
  "fmt_ld w = (if sint w < 0 then CHR ''-'' # dec_digits (nat (- sint w)) else dec_digits (nat (sint w)))"

definition ir_fmt_op :: "ir_op_t \<Rightarrow> string" where
  "ir_fmt_op x =
     (let add_sub = (if sint (arg x) < 0 then ''sub'' else ''add'');
          abs = (if sint (arg x) < 0 then - arg x else arg x)
      in case kind x of
        IR_OP_READ \<Rightarrow> ''read '' @ fmt_ld (arg x)
      | IR_OP_WRITE \<Rightarrow> ''write '' @ fmt_ld (arg x)
      | IR_OP_CELL \<Rightarrow> add_sub @ '' [$tape] '' @ fmt_ld abs
      | IR_OP_TAPE \<Rightarrow> add_sub @ '' $tape '' @ fmt_ld abs
      | IR_OP_LOOP_START \<Rightarrow> ''jz '' @ fmt_ld (arg x)
      | IR_OP_LOOP_END \<Rightarrow> ''jnz '' @ fmt_ld (arg x)
      | IR_OP_MAX \<Rightarrow> ''halt''
      | IR_OP_SET \<Rightarrow> ''invalid * '' @ fmt_ld (arg x))"

function dump_ir_from :: "ir_ctx \<Rightarrow> nat \<Rightarrow> string option" where
  "dump_ir_from ctx i =
     (if i < vlength ctx
      then do {
        x \<leftarrow> vec_get ctx i;
        t \<leftarrow> dump_ir_from ctx (i + 1);
        Some (''['' @ dec_digits i @ ''] '' @ ir_fmt_op x @ [CHR 0x0A] @ t) }
      else Some [])"
  by pat_completeness auto
termination
  by (relation "measure (\<lambda>(ctx, i). vlength ctx - i)") auto

declare dump_ir_from.simps [simp del]

definition ir_ctx_dump_ir :: "ir_ctx \<Rightarrow> string option" where
  "ir_ctx_dump_ir ctx = dump_ir_from ctx 0"

section \<open>The printed text denotes the program\<close>

text \<open>The text of a structured program and the source program it denotes.\<close>

definition text_of_op :: "ir_op_t \<Rightarrow> string" where
  "text_of_op x = the (dump_bf_op x)"

definition unfuse :: "ir_op_t \<Rightarrow> bf_char \<times> nat" where
  "unfuse x =
     (let a = sint (arg x) in
      case kind x of
        IR_OP_TAPE \<Rightarrow> if a < 0 then (MoveLeft, nat (- a)) else (MoveRight, nat a)
      | IR_OP_CELL \<Rightarrow> if a < 0 then (Dec, nat (- a)) else (Inc, nat a)
      | IR_OP_WRITE \<Rightarrow> (PutByte, nat a)
      | _ \<Rightarrow> (GetByte, nat a))"

fun unfused :: "ir_op_t prog list \<Rightarrow> bf_char prog list" where
  "unfused [] = []"
| "unfused (Prim x # p) = (let (b, n) = unfuse x in replicate n (Prim b)) @ unfused p"
| "unfused (While b # p) = While (unfused b) # unfused p"

fun text_of :: "ir_op_t prog list \<Rightarrow> string" where
  "text_of [] = []"
| "text_of (Prim x # p) = text_of_op x @ text_of p"
| "text_of (While b # p) = CHR ''['' # text_of b @ CHR '']'' # text_of p"

definition char_of_bf :: "bf_char \<Rightarrow> char" where
  "char_of_bf b =
     (case b of MoveRight \<Rightarrow> CHR ''>'' | MoveLeft \<Rightarrow> CHR ''<'' | Inc \<Rightarrow> CHR ''+'' | Dec \<Rightarrow> CHR ''-''
      | PutByte \<Rightarrow> CHR ''.'' | GetByte \<Rightarrow> CHR '','')"

lemma bf_of_char_of_bf [simp]: "bf_of_char (char_of_bf b) = Some b"
  by (cases b) (simp_all add: char_of_bf_def bf_of_char_def)

lemma sint_uminus:
  fixes a :: i64
  assumes "\<bar>sint a\<bar> \<le> int K" and "K < 2 ^ 31"
  shows "sint (- a) = - sint a"
  using assms by (simp add: sint_word_ariths signed_take_bit_int_eq_self)

lemma dump_bf_op_fits:
  assumes "fits K x" and "K < 2 ^ 31"
  shows "dump_bf_op x = Some (case unfuse x of (b, n) \<Rightarrow> replicate n (char_of_bf b))"
  using assms
  by (auto simp: fits_def dump_bf_op_def unfuse_def putcc_def char_of_bf_def Let_def
      sint_uminus [OF _ assms(2)])

lemma text_of_op_fits:
  "fits K x \<Longrightarrow> K < 2 ^ 31 \<Longrightarrow> text_of_op x = (case unfuse x of (b, n) \<Rightarrow> replicate n (char_of_bf b))"
  by (simp add: text_of_op_def dump_bf_op_fits)

lemma syn_run: "bf_syntax s p \<Longrightarrow> bf_syntax (replicate n (char_of_bf b) @ s) (replicate n (Prim b) @ p)"
  by (induction n) (auto intro: syn_char)

lemma text_of_syntax:
  "all_prims (fits K) q \<Longrightarrow> K < 2 ^ 31 \<Longrightarrow> bf_syntax s p \<Longrightarrow> bf_syntax (text_of q @ s) (unfused q @ p)"
proof (induction q arbitrary: s p rule: text_of.induct)
  case (2 x q)
  obtain b n where u: "unfuse x = (b, n)" by fastforce
  have "bf_syntax (text_of q @ s) (unfused q @ p)" using 2 by simp
  moreover have "text_of_op x = replicate n (char_of_bf b)"
    using text_of_op_fits [OF _ "2.prems"(2), of x] "2.prems"(1) u by simp
  ultimately show ?case using syn_run u by simp
next
  case (3 b q)
  have "bf_syntax (text_of b) (unfused b)"
    using "3.IH"(1) [of "[]" "[]"] "3.prems" by (simp add: syn_nil)
  then have "bf_syntax (CHR ''['' # text_of b @ CHR '']'' # (text_of q @ s)) (While (unfused b) # (unfused q @ p))"
    using "3.IH"(2) [of s p] "3.prems" by (intro syn_loop) simp_all
  then show ?case by simp
qed simp

lemma dump_bf_flat:
  assumes "vec_ok ctx" and "vec_list ctx = pre @ flat q @ post" and "all_prims (fits K) q"
    and "K < 2 ^ 31"
  shows "dump_bf_from ctx (length pre)
    = map_option (\<lambda>t. text_of q @ t) (dump_bf_from ctx (length pre + length (flat q)))"
  using assms(2,3)
proof (induction q arbitrary: pre post rule: flat.induct)
  case 1
  then show ?case by (cases "dump_bf_from ctx (length pre)") simp_all
next
  case (2 x q)
  have len: "length pre < vlength ctx" and get: "vec_get ctx (length pre) = Some x"
    using "2.prems"(1) length_vec_list [OF assms(1)] vec_get_ok [OF assms(1), of "length pre"] by auto
  have x: "dump_bf_op x = Some (text_of_op x)"
    using dump_bf_op_fits [of K x] "2.prems"(2) assms(4) by (simp add: text_of_op_def)
  have "dump_bf_from ctx (length pre + 1)
      = map_option (\<lambda>t. text_of q @ t) (dump_bf_from ctx (length pre + 1 + length (flat q)))"
    using "2.IH" [of "pre @ [x]" post] "2.prems" by simp
  then show ?case
    using len get x by (subst dump_bf_from.simps) (simp add: map_option_case split: option.split)
next
  case (3 b q)
  let ?d = "of_nat (length (flat b) + 1) :: i64"
  let ?s = "mk_op IR_OP_LOOP_START ?d" and ?e = "mk_op IR_OP_LOOP_END (- ?d)"
  let ?j = "length pre + 1 + length (flat b)"
  have v: "vec_list ctx = pre @ ?s # flat b @ ?e # flat q @ post"
    using "3.prems" by (simp add: Let_def)
  have len: "length pre < vlength ctx" "?j < vlength ctx"
    using length_vec_list [OF assms(1)] unfolding v by simp_all
  have get: "vec_get ctx (length pre) = Some ?s" "vec_get ctx ?j = Some ?e"
    using vec_get_ok [OF assms(1) len(1)] vec_get_ok [OF assms(1) len(2)] by (simp_all add: v nth_append)
  have b: "dump_bf_from ctx (length pre + 1) = map_option (\<lambda>t. text_of b @ t) (dump_bf_from ctx ?j)"
    using "3.IH"(1) [of "pre @ [?s]" "?e # flat q @ post"] "3.prems"(2) v by simp
  have q: "dump_bf_from ctx (?j + 1) = map_option (\<lambda>t. text_of q @ t) (dump_bf_from ctx (?j + 1 + length (flat q)))"
    using "3.IH"(3) [OF refl, of "pre @ ?s # flat b @ [?e]" post] "3.prems"(2) v by (simp add: add.assoc)
  have e: "dump_bf_from ctx ?j = map_option (\<lambda>t. CHR '']'' # t) (dump_bf_from ctx (?j + 1))"
    using len get by (subst dump_bf_from.simps) (simp add: dump_bf_op_def map_option_case split: option.split)
  have "dump_bf_from ctx (length pre) = map_option (\<lambda>t. CHR ''['' # t) (dump_bf_from ctx (length pre + 1))"
    using len get by (subst dump_bf_from.simps) (simp add: dump_bf_op_def map_option_case split: option.split)
  then show ?case unfolding b e q by (simp add: Let_def option.map_comp o_def add.assoc)
qed

text \<open>One operation and the run of characters it prints.\<close>

lemma eval_moves:
  assumes "\<And>s. bf_step c s = move_ptr d s" and "d = 1 \<or> d = - 1"
  shows "move_ptr (d * int n) s = Some t \<Longrightarrow> on_tape s \<Longrightarrow> eval bf_step f (replicate n (Prim c)) s = Done t"
proof (induction n arbitrary: s)
  case 0
  then show ?case by (auto simp: move_ptr_def split: if_splits)
next
  case (Suc n)
  let ?u = "s\<lparr>ptr := nat (int (ptr s) + d)\<rparr>"
  have b: "0 \<le> int (ptr s) + d * int (Suc n)" "int (ptr s) + d * int (Suc n) < int (length (cells s))"
    and t: "t = s\<lparr>ptr := nat (int (ptr s) + d * int (Suc n))\<rparr>"
    using Suc.prems(1) by (auto simp: move_ptr_def Let_def split: if_splits)
  have d: "0 \<le> int (ptr s) + d" "int (ptr s) + d < int (length (cells s))"
    using b Suc.prems(2) assms(2) by (auto simp: on_tape_def)
  then have u: "move_ptr d s = Some ?u" by (simp add: move_ptr_def)
  have "int (nat (int (ptr s) + d)) + d * int n = int (ptr s) + d * int (Suc n)"
    using d(1) by (simp add: algebra_simps)
  then have "move_ptr (d * int n) ?u = Some t"
    using b t by (simp add: move_ptr_def)
  then show ?case using Suc.IH [of ?u] u on_tape_move [OF u] assms(1) by simp
qed

lemma nat_sint_pos:
  fixes a :: i64
  assumes "0 \<le> sint a"
  shows "(ucast a :: u8) = of_nat (nat (sint a))"
proof -
  have "(of_nat (nat (sint a)) :: i64) = of_int (sint a)"
    using assms by (metis int_nat_eq of_int_of_nat_eq)
  then have "(of_nat (nat (sint a)) :: i64) = a" by simp
  then show ?thesis using ucast_of_nat_down [of "nat (sint a)", where 'a = 64 and 'b = 8] by simp
qed

lemma nat_sint_neg:
  fixes a :: i64
  assumes "sint a < 0"
  shows "(ucast a :: u8) = - of_nat (nat (- sint a))"
proof -
  have "(of_nat (nat (- sint a)) :: i64) = of_int (- sint a)"
    using assms by (metis int_nat_eq less_imp_le neg_0_le_iff_le of_int_of_nat_eq)
  then have "(of_nat (nat (- sint a)) :: i64) = - a" by simp
  then have "(ucast (- a) :: u8) = of_nat (nat (- sint a))"
    using ucast_of_nat_down [of "nat (- sint a)", where 'a = 64 and 'b = 8] by simp
  then have "- (ucast a :: u8) = of_nat (nat (- sint a))"
    using ucast_minus_down [of a, where 'b = 8] by simp
  then show ?thesis by (metis minus_minus)
qed

lemma unfuse_agrees:
  assumes "fits K x" and "K < 2 ^ 31" and "unfuse x = (b, n)"
  shows "agrees ir_step [Prim x] bf_step (replicate n (Prim b))"
proof -
  { fix f s
    assume s: "on_tape s" and nc: "eval ir_step f [Prim x] s \<noteq> Crash"
    then obtain t where t: "ir_step x s = Some t" by (cases "ir_step x s") auto
    have cn: "cell s + ucast (arg x) = cell s - of_nat (nat (- sint (arg x)))" if "sint (arg x) < 0"
      using nat_sint_neg [OF that] by (metis add_uminus_conv_diff)
    have cp: "cell s + ucast (arg x) = cell s + of_nat (nat (sint (arg x)))" if "0 \<le> sint (arg x)"
      using nat_sint_pos [OF that] by simp
    have "eval bf_step f (replicate n (Prim b)) s = Done t"
    proof (cases "kind x")
      case IR_OP_TAPE
      then show ?thesis
        using t s assms(3) eval_moves [of MoveLeft "- 1" n s t f] eval_moves [of MoveRight 1 n s t f]
        by (auto simp: ir_step_def unfuse_def Let_def split: if_splits)
    next
      case IR_OP_CELL
      then have e: "t = set_cell (cell s + ucast (arg x)) s" using t by (simp add: ir_step_def)
      show ?thesis
      proof (cases "sint (arg x) < 0")
        case True
        then have "b = Dec" "n = nat (- sint (arg x))"
          using assms(3) IR_OP_CELL by (simp_all add: unfuse_def Let_def)
        then show ?thesis using eval_dec_run [OF s, of f n] unfolding e cn [OF True] by simp
      next
        case False
        then have "b = Inc" "n = nat (sint (arg x))"
          using assms(3) IR_OP_CELL by (simp_all add: unfuse_def Let_def)
        moreover have "0 \<le> sint (arg x)" using False by simp
        note cp [OF this]
        ultimately show ?thesis using eval_inc_run [OF s, of f n] e by (simp only:)
      qed
    next
      case IR_OP_WRITE
      then show ?thesis
        using t assms(3) eval_replicate_step [of bf_step PutByte put_byte f n s]
        by (auto simp: ir_step_def unfuse_def Let_def)
    next
      case IR_OP_READ
      then show ?thesis
        using t assms(3) eval_replicate_step [of bf_step GetByte get_byte f n s]
        by (auto simp: ir_step_def unfuse_def Let_def)
    qed (use assms(1) in \<open>auto simp: fits_def\<close>)
    then have "eval bf_step f (replicate n (Prim b)) s = eval ir_step f [Prim x] s"
      using t by simp }
  then show ?thesis by (simp add: agrees_def)
qed

lemma unfused_agrees:
  "all_prims (fits K) q \<Longrightarrow> K < 2 ^ 31 \<Longrightarrow> agrees ir_step q bf_step (unfused q)"
proof (induction q rule: text_of.induct)
  case 1
  then show ?case by (simp add: agrees_nil)
next
  case (2 x q)
  obtain b n where u: "unfuse x = (b, n)" by fastforce
  have "agrees ir_step ([Prim x] @ q) bf_step (replicate n (Prim b) @ unfused q)"
    using 2 u unfuse_agrees [of K x b n] by (intro agrees_append) simp_all
  then show ?case using u by simp
next
  case (3 b q)
  then have "agrees ir_step ([While b] @ q) bf_step ([While (unfused b)] @ unfused q)"
    by (intro agrees_append agrees_while) simp_all
  then show ?case by simp
qed

section \<open>A listing line determines its operation\<close>

definition dec_value :: "string \<Rightarrow> nat" where
  "dec_value s = foldl (\<lambda>a c. 10 * a + (of_char c - 48)) 0 s"

lemma digit_value: "d < 10 \<Longrightarrow> (of_char (char_of (48 + d :: nat)) :: nat) = 48 + d"
  by simp

lemma dec_value_digits: "dec_value (dec_digits n) = n"
proof (induction n rule: dec_digits.induct)
  case (1 n)
  show ?case
  proof (cases "n < 10")
    case True
    then show ?thesis by (subst dec_digits.simps) (simp add: dec_value_def digit_value del: of_char_of)
  next
    case False
    then have "dec_value (dec_digits n) = 10 * dec_value (dec_digits (n div 10)) + n mod 10"
      by (subst dec_digits.simps) (simp add: dec_value_def digit_value del: of_char_of)
    then show ?thesis using 1 [OF False] by simp
  qed
qed

lemma dec_digits_inj: "dec_digits n = dec_digits m \<longleftrightarrow> n = m"
  by (metis dec_value_digits)

lemma dec_digits_chars: "c \<in> set (dec_digits n) \<Longrightarrow> c \<noteq> CHR ''-''"
proof (induction n rule: dec_digits.induct)
  case (1 n)
  have "char_of (48 + d :: nat) \<noteq> CHR ''-''" if "d < 10" for d
  proof
    assume "char_of (48 + d :: nat) = CHR ''-''"
    then have "(of_char (char_of (48 + d :: nat)) :: nat) = of_char (CHR ''-'')" by simp
    then show False using digit_value [OF that] by simp
  qed
  then have "char_of (48 + n mod 10) \<noteq> CHR ''-''" and "n < 10 \<Longrightarrow> char_of (48 + n) \<noteq> CHR ''-''"
    by simp_all
  then show ?case
    using "1.prems" "1.IH" by (auto simp only: dec_digits.simps [of n] set_append split: if_splits) auto
qed

lemma dec_digits_no_sign: "dec_digits n \<noteq> CHR ''-'' # s"
  using dec_digits_chars [of "CHR ''-''" n] by auto

lemma fmt_ld_inj: "fmt_ld a = fmt_ld b \<longleftrightarrow> a = b"
proof
  assume "fmt_ld a = fmt_ld b"
  then have "sint a = sint b"
    using dec_digits_no_sign dec_digits_no_sign [symmetric]
    by (auto simp: fmt_ld_def dec_digits_inj split: if_splits)
  then show "a = b" by (rule signed_word_eqI)
qed simp

lemma fmt_op_inj:
  "ir_fmt_op x = ir_fmt_op y \<Longrightarrow> kind x = kind y \<and> (kind x \<noteq> IR_OP_MAX \<longrightarrow> arg x = arg y)"
  by (cases "kind x"; cases "kind y") (auto simp: ir_fmt_op_def Let_def fmt_ld_inj split: if_splits)

section \<open>Properties\<close>

text \<open>
  C15: The source text that \<open>ir_ctx_dump_bf\<close> prints for a parsed file, followed by its newline,
  is again well formed and denotes a program that agrees with the original one.
\<close>
theorem dump_bf_roundtrip:
  assumes "bf_syntax src p" and "roomy A lim" and "length src \<le> lim" and "length src < 2 ^ 31"
  shows "\<exists>ctx s p'. ir_ctx_parse A ir_ctx_init src = Some (0, ctx) \<and> ir_ctx_dump_bf ctx = Some s
    \<and> bf_syntax s p' \<and> agrees bf_step p bf_step p'"
proof -
  obtain ctx q where c: "ir_ctx_parse A ir_ctx_init src = Some (0, ctx)" "ctx_ok ctx" "vec_list ctx = flat q"
      "agrees bf_step p ir_step q" "all_prims (fits (length src)) q"
    using parse_syntax [OF assms(1-3)] by blast
  have v: "vec_ok ctx" using c(2) by (simp add: ctx_ok_def)
  have nl: "is_comment (CHR 0x0A)" by (simp add: is_comment_def bf_of_char_def)
  have "dump_bf_from ctx (length (flat q)) = Some [CHR 0x0A]"
    using length_vec_list [OF v] c(3) by (subst dump_bf_from.simps) simp
  then have d: "ir_ctx_dump_bf ctx = Some (text_of q @ [CHR 0x0A])"
    using dump_bf_flat [OF v _ c(5) assms(4), of "[]" "[]"] c(3) by (simp add: ir_ctx_dump_bf_def)
  have "bf_syntax [CHR 0x0A] []" using syn_comment [OF nl syn_nil] .
  from text_of_syntax [OF c(5) assms(4) this] have "bf_syntax (text_of q @ [CHR 0x0A]) (unfused q)" by simp
  then show ?thesis
    using c(1) d agrees_trans [OF c(4) unfused_agrees [OF c(5) assms(4)]] by blast
qed

theorem dump_bf_roundtrip_witness:
  "\<exists>ctx s p'. ir_ctx_parse ops_heap ir_ctx_init ''+[-].'' = Some (0, ctx)
    \<and> ir_ctx_dump_bf ctx = Some s \<and> bf_syntax s p'"
proof -
  have "length ''+[-].'' \<le> (1000 :: nat)" "length ''+[-].'' < (2 ^ 31 :: nat)" by simp_all
  from dump_bf_roundtrip [OF syntax_example roomy_ops this] show ?thesis by blast
qed

text \<open>
  A line of the listing determines its operation; only the operand of the halt operation
  is not printed.
\<close>
theorem listing_injective:
  assumes "ir_fmt_op x = ir_fmt_op y"
  shows "kind x = kind y \<and> (kind x \<noteq> IR_OP_MAX \<longrightarrow> arg x = arg y)"
  using assms by (rule fmt_op_inj)

theorem listing_injective_witness:
  "ir_fmt_op (mk_op IR_OP_MAX 0) = ir_fmt_op (mk_op IR_OP_MAX 5) \<and> kind (mk_op IR_OP_MAX 0) = kind (mk_op IR_OP_MAX 5)"
proof -
  have e: "ir_fmt_op (mk_op IR_OP_MAX 0) = ir_fmt_op (mk_op IR_OP_MAX 5)"
    by (simp add: ir_fmt_op_def)
  from e listing_injective [OF e] show ?thesis by blast
qed

end
