(* ===== verification/X86.thy ===== *)
theory X86
  imports Prelude
begin

text \<open>
  The target of the compiler: the fragment of IA-32 it emits, as documented in the
  instruction set reference (decoding by opcode and ModRM byte, jumps relative to the end
  of the instruction, the zero flag), and the three Linux system calls behind
  \<open>int 0x80\<close> (exit, read of standard input, write to standard output).  A process has
  its text at a fixed address, an uninitialised data segment that alone may be written
  through pointers, and a stack.  This theory is specification, not a model of code:
  anything outside the fragment, an access outside the data segment, or a fetch outside
  the text is \<open>None\<close>.
\<close>

section \<open>Little-endian immediates\<close>

fun imm32 :: "u8 list \<Rightarrow> u32 option" where
  "imm32 (b0 # b1 # b2 # b3 # bs) =
     Some (ucast b0 OR push_bit 8 (ucast b1) OR push_bit 16 (ucast b2) OR push_bit 24 (ucast b3))"
| "imm32 _ = None"

fun imm8 :: "u8 list \<Rightarrow> u8 option" where
  "imm8 (b # bs) = Some b"
| "imm8 [] = None"

lemma imm32_le32: "imm32 (le32 w @ bs) = Some w"
proof -
  have "(ucast (ucast w :: u8) OR push_bit 8 (ucast (ucast (drop_bit 8 w) :: u8))
      OR push_bit 16 (ucast (ucast (drop_bit 16 w) :: u8))
      OR push_bit 24 (ucast (ucast (drop_bit 24 w) :: u8)) :: u32) = w"
  proof (rule bit_word_eqI)
    fix n assume "n < LENGTH(32)"
    then have "n < 24 \<or> 24 + (n - 24) = n" by auto
    then show "bit (ucast (ucast w :: u8) OR push_bit 8 (ucast (ucast (drop_bit 8 w) :: u8))
      OR push_bit 16 (ucast (ucast (drop_bit 16 w) :: u8))
      OR push_bit 24 (ucast (ucast (drop_bit 24 w) :: u8)) :: u32) n = bit w n"
      using \<open>n < LENGTH(32)\<close> by (auto simp: bit_simps)
  qed
  then show ?thesis by (simp add: le32_def)
qed

section \<open>Instructions\<close>

datatype operand = Reg nat | Mem nat

datatype alu = ADD | SUB | CMP

datatype instr =
    IncReg nat | DecReg nat
  | IncByte operand | DecByte operand
  | AluByteImm alu operand u8
  | AluByteReg alu operand nat
  | AluImm alu operand u32
  | MovRegImm nat u32
  | MovImm operand u32
  | MovReg operand nat
  | JumpIf bool u32
  | Interrupt u8
  | Push operand

text \<open>The ModRM byte: the operand it names and its middle field.  Displacements and SIB bytes are not emitted.\<close>

definition modrm :: "u8 list \<Rightarrow> (operand \<times> nat) option" where
  "modrm bs = do {
     b \<leftarrow> imm8 bs;
     let md = drop_bit 6 b; rm = b AND 7; rg = unat (drop_bit 3 b AND 7) in
     if md = 3 then Some (Reg (unat rm), rg)
     else if md = 0 \<and> rm \<noteq> 4 \<and> rm \<noteq> 5 then Some (Mem (unat rm), rg)
     else None }"

definition alu_of :: "nat \<Rightarrow> alu option" where
  "alu_of d = (if d = 0 then Some ADD else if d = 5 then Some SUB else if d = 7 then Some CMP else None)"

fun decode :: "u8 list \<Rightarrow> (instr \<times> nat) option" where
  "decode [] = None"
| "decode (b # bs) =
     (if b AND 0xF8 = 0x40 then Some (IncReg (unat (b AND 7)), 1)
      else if b AND 0xF8 = 0x48 then Some (DecReg (unat (b AND 7)), 1)
      else if b AND 0xF8 = 0xB8 then do { w \<leftarrow> imm32 bs; Some (MovRegImm (unat (b AND 7)) w, 5) }
      else if b = 0xFE then do {
        (opd, d) \<leftarrow> modrm bs;
        if d = 0 then Some (IncByte opd, 2) else if d = 1 then Some (DecByte opd, 2) else None }
      else if b = 0x80 then do {
        (opd, d) \<leftarrow> modrm bs; k \<leftarrow> alu_of d; i \<leftarrow> imm8 (tl bs); Some (AluByteImm k opd i, 3) }
      else if b = 0x83 then do {
        (opd, d) \<leftarrow> modrm bs; k \<leftarrow> alu_of d; i \<leftarrow> imm8 (tl bs); Some (AluImm k opd (scast i), 3) }
      else if b = 0x81 then do {
        (opd, d) \<leftarrow> modrm bs; k \<leftarrow> alu_of d; w \<leftarrow> imm32 (tl bs); Some (AluImm k opd w, 6) }
      else if b = 0xC7 then do {
        (opd, d) \<leftarrow> modrm bs; w \<leftarrow> imm32 (tl bs); if d = 0 then Some (MovImm opd w, 6) else None }
      else if b = 0x00 then do { (opd, d) \<leftarrow> modrm bs; Some (AluByteReg ADD opd d, 2) }
      else if b = 0x28 then do { (opd, d) \<leftarrow> modrm bs; Some (AluByteReg SUB opd d, 2) }
      else if b = 0x89 then do { (opd, d) \<leftarrow> modrm bs; Some (MovReg opd d, 2) }
      else if b = 0x74 then do { i \<leftarrow> imm8 bs; Some (JumpIf True (scast i), 2) }
      else if b = 0x75 then do { i \<leftarrow> imm8 bs; Some (JumpIf False (scast i), 2) }
      else if b = 0x0F then do {
        c \<leftarrow> imm8 bs; w \<leftarrow> imm32 (tl bs);
        if c = 0x84 then Some (JumpIf True w, 6)
        else if c = 0x85 then Some (JumpIf False w, 6) else None }
      else if b = 0xCD then do { i \<leftarrow> imm8 bs; Some (Interrupt i, 2) }
      else if b = 0xFF then do { (opd, d) \<leftarrow> modrm bs; if d = 6 then Some (Push opd, 2) else None }
      else None)"

section \<open>The process\<close>

record image =
  text_base :: u32
  text_bytes :: "u8 list"
  bss_base :: u32

record cpu =
  eip :: u32
  regs :: "nat \<Rightarrow> u32"
  zf :: bool
  bss :: "u8 list"
  stack :: "u32 list"
  sin :: "u8 list"
  sout :: "u8 list"

definition mem_get :: "image \<Rightarrow> cpu \<Rightarrow> u32 \<Rightarrow> u8 option" where
  "mem_get im m a = load (bss m) (unat (a - bss_base im))"

definition mem_put :: "image \<Rightarrow> cpu \<Rightarrow> u32 \<Rightarrow> u8 \<Rightarrow> cpu option" where
  "mem_put im m a b = map_option (\<lambda>d. m\<lparr>bss := d\<rparr>) (store (bss m) (unat (a - bss_base im)) b)"

text \<open>Byte operands: the low halves of the first four registers, or memory.\<close>

fun byte_get :: "image \<Rightarrow> cpu \<Rightarrow> operand \<Rightarrow> u8 option" where
  "byte_get im m (Reg r) = (if r < 4 then Some (ucast (regs m r)) else None)"
| "byte_get im m (Mem r) = mem_get im m (regs m r)"

fun byte_put :: "image \<Rightarrow> cpu \<Rightarrow> operand \<Rightarrow> u8 \<Rightarrow> cpu option" where
  "byte_put im m (Reg r) b = None"
| "byte_put im m (Mem r) b = mem_put im m (regs m r) b"

fun word_get :: "cpu \<Rightarrow> operand \<Rightarrow> u32 option" where
  "word_get m (Reg r) = Some (regs m r)"
| "word_get m (Mem r) = None"

fun word_put :: "cpu \<Rightarrow> operand \<Rightarrow> u32 \<Rightarrow> cpu option" where
  "word_put m (Reg r) w = Some (m\<lparr>regs := (regs m)(r := w)\<rparr>)"
| "word_put m (Mem r) w = None"

fun alu_result :: "alu \<Rightarrow> 'a::len word \<Rightarrow> 'a word \<Rightarrow> 'a word" where
  "alu_result ADD a b = a + b"
| "alu_result SUB a b = a - b"
| "alu_result CMP a b = a - b"

definition alu_byte :: "image \<Rightarrow> cpu \<Rightarrow> alu \<Rightarrow> operand \<Rightarrow> u8 \<Rightarrow> cpu option" where
  "alu_byte im m k opd b = do {
     a \<leftarrow> byte_get im m opd;
     let r = alu_result k a b in
     let m' = m\<lparr>zf := (r = 0)\<rparr> in
     if k = CMP then Some m' else byte_put im m' opd r }"

definition alu_word :: "cpu \<Rightarrow> alu \<Rightarrow> operand \<Rightarrow> u32 \<Rightarrow> cpu option" where
  "alu_word m k opd w = do {
     a \<leftarrow> word_get m opd;
     let r = alu_result k a w in
     let m' = m\<lparr>zf := (r = 0)\<rparr> in
     if k = CMP then Some m' else word_put m' opd r }"

fun mem_read :: "image \<Rightarrow> cpu \<Rightarrow> u32 \<Rightarrow> nat \<Rightarrow> u8 list option" where
  "mem_read im m a 0 = Some []"
| "mem_read im m a (Suc n) = do { b \<leftarrow> mem_get im m a; bs \<leftarrow> mem_read im m (a + 1) n; Some (b # bs) }"

fun mem_write :: "image \<Rightarrow> cpu \<Rightarrow> u32 \<Rightarrow> u8 list \<Rightarrow> cpu option" where
  "mem_write im m a [] = Some m"
| "mem_write im m a (b # bs) = do { m' \<leftarrow> mem_put im m a b; mem_write im m' (a + 1) bs }"

text \<open>System calls: number in \<open>eax\<close>, arguments in \<open>ebx\<close>, \<open>ecx\<close>, \<open>edx\<close>, result in \<open>eax\<close>.\<close>

definition syscall :: "image \<Rightarrow> cpu \<Rightarrow> (cpu + cpu) option" where
  "syscall im m =
     (if regs m 0 = 1 then Some (Inl m)
      else if regs m 0 = 4 \<and> regs m 3 = 1 then do {
        bs \<leftarrow> mem_read im m (regs m 1) (unat (regs m 2));
        Some (Inr (m\<lparr>sout := sout m @ bs, regs := (regs m)(0 := regs m 2)\<rparr>)) }
      else if regs m 0 = 3 \<and> regs m 3 = 0 then do {
        let bs = take (unat (regs m 2)) (sin m);
        m' \<leftarrow> mem_write im m (regs m 1) bs;
        Some (Inr (m'\<lparr>sin := drop (length bs) (sin m'),
                      regs := (regs m')(0 := of_nat (length bs))\<rparr>)) }
      else None)"

text \<open>Execution of one instruction, with \<open>eip\<close> already past it.\<close>

fun exec_instr :: "image \<Rightarrow> instr \<Rightarrow> cpu \<Rightarrow> (cpu + cpu) option" where
  "exec_instr im (IncReg r) m = map_option Inr (alu_word m ADD (Reg r) 1)"
| "exec_instr im (DecReg r) m = map_option Inr (alu_word m SUB (Reg r) 1)"
| "exec_instr im (IncByte opd) m = map_option Inr (alu_byte im m ADD opd 1)"
| "exec_instr im (DecByte opd) m = map_option Inr (alu_byte im m SUB opd 1)"
| "exec_instr im (AluByteImm k opd b) m = map_option Inr (alu_byte im m k opd b)"
| "exec_instr im (AluByteReg k opd r) m =
     do { b \<leftarrow> byte_get im m (Reg r); map_option Inr (alu_byte im m k opd b) }"
| "exec_instr im (AluImm k opd w) m = map_option Inr (alu_word m k opd w)"
| "exec_instr im (MovRegImm r w) m = map_option Inr (word_put m (Reg r) w)"
| "exec_instr im (MovImm opd w) m = map_option Inr (word_put m opd w)"
| "exec_instr im (MovReg opd r) m = map_option Inr (word_put m opd (regs m r))"
| "exec_instr im (JumpIf c d) m = Some (Inr (if zf m = c then m\<lparr>eip := eip m + d\<rparr> else m))"
| "exec_instr im (Interrupt b) m = (if b = 0x80 then syscall im m else None)"
| "exec_instr im (Push opd) m =
     do { w \<leftarrow> word_get m opd; Some (Inr (m\<lparr>stack := w # stack m\<rparr>)) }"

definition x86_step :: "image \<Rightarrow> cpu \<Rightarrow> (cpu + cpu) option" where
  "x86_step im m = do {
     (i, n) \<leftarrow> decode (drop (unat (eip m - text_base im)) (text_bytes im));
     exec_instr im i (m\<lparr>eip := eip m + of_nat n\<rparr>) }"

fun x86_run :: "image \<Rightarrow> nat \<Rightarrow> cpu \<Rightarrow> cpu outcome" where
  "x86_run im 0 m = Timeout"
| "x86_run im (Suc n) m =
     (case x86_step im m of
        None \<Rightarrow> Crash
      | Some (Inl m') \<Rightarrow> Done m'
      | Some (Inr m') \<Rightarrow> x86_run im n m')"

end
