(* ===== verification/Ir_Compile.thy ===== *)
theory Ir_Compile
  imports Ir_Sem Machine X86
begin

text \<open>
  The code generator, \<open>csrc/src/ir_compile.c\<close>: byte emission per operation, the two
  encodings of loop tests, and the recursive walk over the operation vector.  The code
  buffer is a byte vector; all emission goes through \<open>vec_pusharr\<close>, so an allocator is a
  parameter of every function.  \<open>None\<close> stands for an access outside a vector or for a
  walk that does not return.  The second half gives the bytes as functions of the
  operations (\<open>op_bytes\<close>, \<open>code_bytes\<close>), shows that the code emits exactly them, and
  that the processor of \<open>X86\<close> running them simulates the program.
\<close>

section \<open>Tables\<close>

datatype compile_result =
    COMPILE_OPERAND_SIZE | COMPILE_MALFORMED_LOOP | COMPILE_ILLEGAL_STATE | COMPILE_OK

datatype reg_t = REG_EAX | REG_ECX | REG_EDX | REG_EBX | REG_ESP | REG_EBP | REG_ESI | REG_EDI

datatype syscall_t = SYS_EXIT | SYS_READ | SYS_WRITE

datatype mod_rm_mode = MODE_REG_INDIRECT | MODE_SIB_1 | MODE_SIB_2 | MODE_REG_DIRECT

fun reg_code :: "reg_t \<Rightarrow> u8" where
  "reg_code REG_EAX = 0x00"
| "reg_code REG_ECX = 0x01"
| "reg_code REG_EDX = 0x02"
| "reg_code REG_EBX = 0x03"
| "reg_code REG_ESP = 0x04"
| "reg_code REG_EBP = 0x05"
| "reg_code REG_ESI = 0x06"
| "reg_code REG_EDI = 0x07"

fun syscall_code :: "syscall_t \<Rightarrow> u8" where
  "syscall_code SYS_EXIT = 0x01"
| "syscall_code SYS_READ = 0x03"
| "syscall_code SYS_WRITE = 0x04"

fun mode_code :: "mod_rm_mode \<Rightarrow> u8" where
  "mode_code MODE_REG_INDIRECT = 0x0"
| "mode_code MODE_SIB_1 = 0x1"
| "mode_code MODE_SIB_2 = 0x2"
| "mode_code MODE_REG_DIRECT = 0x3"

definition SP_REG :: u8 where
  "SP_REG = reg_code REG_EDI"

definition mod_rm :: "mod_rm_mode \<Rightarrow> u8 \<Rightarrow> u8 \<Rightarrow> u8" where
  "mod_rm mode reg rm = (push_bit 6 (mode_code mode) OR push_bit 3 reg OR rm)"

section \<open>Emitting bytes\<close>

definition ctx_push_code :: "u8 allocator \<Rightarrow> u8 vec \<Rightarrow> u8 list \<Rightarrow> u8 vec option" where
  "ctx_push_code A ctx bytes = vec_pusharr A ctx bytes"

definition push_as_bytes :: "u8 allocator \<Rightarrow> u8 vec \<Rightarrow> i32 \<Rightarrow> u8 vec option" where
  "push_as_bytes A ctx w = vec_pusharr A ctx (le32 w)"

abbreviation emitted :: "u8 vec option \<Rightarrow> (compile_result \<times> u8 vec) option" where
  "emitted r \<equiv> map_option (Pair COMPILE_OK) r"

definition too_big :: "i64 \<Rightarrow> bool" where
  "too_big a \<longleftrightarrow> sint a > 2147483647 \<or> sint a < - 2147483648"

definition emit_add_sub :: "u8 allocator \<Rightarrow> u8 vec \<Rightarrow> mod_rm_mode \<Rightarrow> ir_op_t
    \<Rightarrow> (compile_result \<times> u8 vec) option" where
  "emit_add_sub A ctx mode x =
     (let a = sint (arg x) in
      if a = 0 then Some (COMPILE_OK, ctx)
      else if too_big (arg x) then Some (COMPILE_OPERAND_SIZE, ctx)
      else if a = 1 then
        emitted (if mode = MODE_REG_DIRECT then ctx_push_code A ctx [0x40 + SP_REG]
                 else ctx_push_code A ctx [0xFE, mod_rm mode 0 SP_REG])
      else if a = - 1 then
        emitted (if mode = MODE_REG_DIRECT then ctx_push_code A ctx [0x48 + SP_REG]
                 else ctx_push_code A ctx [0xFE, mod_rm mode 1 SP_REG])
      else if mode = MODE_REG_INDIRECT then
        (if a > 0 then
           (if a \<le> 127 then emitted (ctx_push_code A ctx [0x80, mod_rm mode 0 SP_REG, ucast (arg x)])
            else emitted (do {
              c1 \<leftarrow> ctx_push_code A ctx [0xC7, mod_rm MODE_REG_DIRECT 0 (reg_code REG_EAX)];
              c2 \<leftarrow> push_as_bytes A c1 (ucast (arg x));
              ctx_push_code A c2 [0x00, mod_rm mode (reg_code REG_EAX) SP_REG] }))
         else
           (if - a \<le> 127 then emitted (ctx_push_code A ctx [0x80, mod_rm mode 5 SP_REG, ucast (- arg x)])
            else emitted (do {
              c1 \<leftarrow> ctx_push_code A ctx [0xC7, mod_rm MODE_REG_DIRECT 0 (reg_code REG_EAX)];
              c2 \<leftarrow> push_as_bytes A c1 (ucast (- arg x));
              ctx_push_code A c2 [0x28, mod_rm mode (reg_code REG_EAX) SP_REG] })))
      else if mode = MODE_REG_DIRECT then
        (if a > 0 then
           (if a \<le> 127 then emitted (ctx_push_code A ctx [0x83, mod_rm mode 0 SP_REG, ucast (arg x)])
            else emitted (do {
              c1 \<leftarrow> ctx_push_code A ctx [0x81, mod_rm mode 0 SP_REG];
              push_as_bytes A c1 (ucast (arg x)) }))
         else
           (if - a \<le> 127 then emitted (ctx_push_code A ctx [0x83, mod_rm mode 5 SP_REG, ucast (- arg x)])
            else emitted (do {
              c1 \<leftarrow> ctx_push_code A ctx [0x81, mod_rm mode 5 SP_REG];
              push_as_bytes A c1 (ucast (- arg x)) })))
      else Some (COMPILE_ILLEGAL_STATE, ctx))"

definition emit_code_tape :: "u8 allocator \<Rightarrow> u8 vec \<Rightarrow> ir_ctx \<Rightarrow> nat
    \<Rightarrow> (compile_result \<times> u8 vec) option" where
  "emit_code_tape A ctx ir idx =
     do { x \<leftarrow> vec_get ir idx; emit_add_sub A ctx MODE_REG_DIRECT x }"

definition emit_code_cell :: "u8 allocator \<Rightarrow> u8 vec \<Rightarrow> ir_ctx \<Rightarrow> nat
    \<Rightarrow> (compile_result \<times> u8 vec) option" where
  "emit_code_cell A ctx ir idx =
     do { x \<leftarrow> vec_get ir idx; emit_add_sub A ctx MODE_REG_INDIRECT x }"

text \<open>\<open>size + 2 <= INT8_MAX\<close> is evaluated on \<open>size_t\<close>.\<close>

definition emit_code_loop_start :: "u8 allocator \<Rightarrow> u8 vec \<Rightarrow> nat
    \<Rightarrow> (compile_result \<times> u8 vec) option" where
  "emit_code_loop_start A ctx sz =
     emitted (do {
       c1 \<leftarrow> ctx_push_code A ctx [0x80, mod_rm MODE_REG_INDIRECT 0x7 SP_REG, 0x0];
       if (sz + 2) mod size_max \<le> 127 then ctx_push_code A c1 [0x74, of_nat sz]
       else do {
         c2 \<leftarrow> ctx_push_code A c1 [0x0F, 0x84];
         push_as_bytes A c2 (of_nat sz) } })"

definition emit_code_loop_end :: "u8 allocator \<Rightarrow> u8 vec \<Rightarrow> (compile_result \<times> u8 vec) option" where
  "emit_code_loop_end A ctx =
     emitted (do {
       c1 \<leftarrow> ctx_push_code A ctx [0x80, mod_rm MODE_REG_INDIRECT 0x7 SP_REG, 0x0];
       let offset = (ucast (- (of_nat (vlength c1) + 2 :: u64)) :: i32) in
       if sint offset \<ge> - 128 then ctx_push_code A c1 [0x75, ucast offset]
       else do {
         c2 \<leftarrow> ctx_push_code A c1 [0x0F, 0x85];
         push_as_bytes A c2 (offset - 4) } })"

section \<open>System calls\<close>

definition syscall_arg_reg :: "reg_t list" where
  "syscall_arg_reg = [REG_EBX, REG_ECX, REG_EDX, REG_ESI, REG_EDI, REG_EBP]"

definition syscall_const_arg :: "u8 allocator \<Rightarrow> u8 vec \<Rightarrow> nat \<Rightarrow> i32 \<Rightarrow> u8 vec option" where
  "syscall_const_arg A ctx n w = do {
     r \<leftarrow> load syscall_arg_reg n;
     c1 \<leftarrow> ctx_push_code A ctx [0xb8 + reg_code r];
     push_as_bytes A c1 w }"

definition syscall_reg_arg :: "u8 allocator \<Rightarrow> u8 vec \<Rightarrow> nat \<Rightarrow> u8 \<Rightarrow> u8 vec option" where
  "syscall_reg_arg A ctx n reg = do {
     r \<leftarrow> load syscall_arg_reg n;
     ctx_push_code A ctx [0x89, mod_rm MODE_REG_DIRECT reg (reg_code r)] }"

text \<open>The common shape of read and write: number, descriptor, cell address, count 1, trap.\<close>

definition emit_io :: "u8 allocator \<Rightarrow> u8 vec \<Rightarrow> syscall_t \<Rightarrow> i32 \<Rightarrow> u8 vec option" where
  "emit_io A ctx nr fd = do {
     c1 \<leftarrow> ctx_push_code A ctx [0xb8 + reg_code REG_EAX, syscall_code nr, 0x0, 0x0, 0x0];
     c2 \<leftarrow> syscall_const_arg A c1 0 fd;
     c3 \<leftarrow> syscall_reg_arg A c2 1 SP_REG;
     c4 \<leftarrow> syscall_const_arg A c3 2 1;
     ctx_push_code A c4 [0xcd, 0x80] }"

fun emit_writes :: "u8 allocator \<Rightarrow> nat \<Rightarrow> u8 vec \<Rightarrow> u8 vec option" where
  "emit_writes A 0 ctx = Some ctx"
| "emit_writes A (Suc n) ctx = do { c \<leftarrow> emit_io A ctx SYS_WRITE 1; emit_writes A n c }"

definition emit_code_write :: "u8 allocator \<Rightarrow> u8 vec \<Rightarrow> ir_ctx \<Rightarrow> nat
    \<Rightarrow> (compile_result \<times> u8 vec) option" where
  "emit_code_write A ctx ir idx = do {
     x \<leftarrow> vec_get ir idx;
     if too_big (arg x) then Some (COMPILE_OPERAND_SIZE, ctx)
     else emitted (emit_writes A (nat (sint (arg x))) ctx) }"

definition emit_code_read :: "u8 allocator \<Rightarrow> u8 vec \<Rightarrow> ir_ctx \<Rightarrow> nat
    \<Rightarrow> (compile_result \<times> u8 vec) option" where
  "emit_code_read A ctx ir idx = do {
     x \<leftarrow> vec_get ir idx;
     if too_big (arg x) then Some (COMPILE_OPERAND_SIZE, ctx)
     else emitted (emit_io A ctx SYS_READ 0) }"

definition emit_code_trap :: "u8 allocator \<Rightarrow> u8 vec \<Rightarrow> (compile_result \<times> u8 vec) option" where
  "emit_code_trap A ctx = emitted (ctx_push_code A ctx [0xcd, 0x03])"

definition emit_code_exit :: "u8 allocator \<Rightarrow> u8 vec \<Rightarrow> ir_ctx \<Rightarrow> nat
    \<Rightarrow> (compile_result \<times> u8 vec) option" where
  "emit_code_exit A ctx ir idx = do {
     x \<leftarrow> vec_get ir idx;
     if too_big (arg x) then Some (COMPILE_OPERAND_SIZE, ctx)
     else emitted (do {
       c1 \<leftarrow> ctx_push_code A ctx [0xb8 + reg_code REG_EAX, syscall_code SYS_EXIT, 0x0, 0x0, 0x0];
       c2 \<leftarrow> syscall_const_arg A c1 0 (ucast (arg x));
       ctx_push_code A c2 [0xcd, 0x80] }) }"

section \<open>The walk\<close>

fun code_fn :: "ir_op_kind \<Rightarrow> u8 allocator \<Rightarrow> u8 vec \<Rightarrow> ir_ctx \<Rightarrow> nat
    \<Rightarrow> (compile_result \<times> u8 vec) option" where
  "code_fn IR_OP_TAPE A ctx ir i = emit_code_tape A ctx ir i"
| "code_fn IR_OP_CELL A ctx ir i = emit_code_cell A ctx ir i"
| "code_fn IR_OP_LOOP_START A ctx ir i = emit_code_loop_start A ctx i"
| "code_fn IR_OP_LOOP_END A ctx ir i = emit_code_loop_end A ctx"
| "code_fn IR_OP_WRITE A ctx ir i = emit_code_write A ctx ir i"
| "code_fn IR_OP_READ A ctx ir i = emit_code_read A ctx ir i"
| "code_fn IR_OP_SET A ctx ir i = emit_code_trap A ctx"
| "code_fn IR_OP_MAX A ctx ir i = emit_code_exit A ctx ir i"

text \<open>
  \<open>ir_ctx_compile__\<close>: the loop from \<open>i\<close>, with the recursive call for a loop body into a
  fresh buffer.  A code other than \<open>COMPILE_OK\<close> is returned at once.
\<close>

partial_function (option) compile_from :: "u8 allocator \<Rightarrow> u8 vec \<Rightarrow> ir_ctx \<Rightarrow> nat
    \<Rightarrow> (compile_result \<times> u8 vec) option" where
  "compile_from A ctx ir i =
     (if i < vlength ir then do {
        x \<leftarrow> vec_get ir i;
        (err, ctx', i') \<leftarrow>
          (if kind x = IR_OP_LOOP_START then do {
             (err, loop_code) \<leftarrow>
               compile_from A (snd (vec_reserve A vec_init (unat (arg x * 2)))) ir (i + 1);
             if err = COMPILE_OK then do {
               (err', c1) \<leftarrow> emit_code_loop_start A ctx (vlength loop_code);
               c2 \<leftarrow> vec_extend A c1 loop_code;
               Some (err', c2, unat (of_nat i + arg x)) }
             else Some (err, ctx, i) }
           else map_option (\<lambda>(err, c). (err, c, i)) (code_fn (kind x) A ctx ir i));
        if err \<noteq> COMPILE_OK then Some (err, ctx')
        else if kind x = IR_OP_LOOP_END then Some (COMPILE_OK, ctx')
        else compile_from A ctx' ir (i' + 1) }
      else Some (COMPILE_OK, ctx))"

definition ir_ctx_compile :: "ir_op_t allocator \<Rightarrow> u8 allocator \<Rightarrow> u8 vec \<Rightarrow> ir_ctx
    \<Rightarrow> (bool \<times> u8 vec \<times> ir_ctx) option" where
  "ir_ctx_compile Ai A ctx ir = do {
     (r, ir') \<leftarrow> vec_push Ai ir (mk_op IR_OP_MAX 0);
     c1 \<leftarrow> ctx_push_code A ctx [0xFF, mod_rm MODE_REG_DIRECT 6 SP_REG];
     (err, c2) \<leftarrow> compile_from A c1 ir' 0;
     Some (err = COMPILE_OK, c2, ir') }"

section \<open>The emitted bytes\<close>

definition add_sub_bytes :: "mod_rm_mode \<Rightarrow> i64 \<Rightarrow> u8 list" where
  "add_sub_bytes mode w =
     (let a = sint w in
      if mode = MODE_REG_DIRECT then
        (if a = 0 then [] else if a = 1 then [0x47] else if a = - 1 then [0x4F]
         else if a > 0 then
           (if a \<le> 127 then [0x83, 0xC7, ucast w] else [0x81, 0xC7] @ le32 (ucast w))
         else (if - a \<le> 127 then [0x83, 0xEF, ucast (- w)] else [0x81, 0xEF] @ le32 (ucast (- w))))
      else
        (if a = 0 then [] else if a = 1 then [0xFE, 0x07] else if a = - 1 then [0xFE, 0x0F]
         else if a > 0 then
           (if a \<le> 127 then [0x80, 0x07, ucast w]
            else [0xC7, 0xC0] @ le32 (ucast w) @ [0x00, 0x07])
         else
           (if - a \<le> 127 then [0x80, 0x2F, ucast (- w)]
            else [0xC7, 0xC0] @ le32 (ucast (- w)) @ [0x28, 0x07])))"

definition io_bytes :: "u8 \<Rightarrow> i32 \<Rightarrow> u8 list" where
  "io_bytes nr fd = [0xB8, nr, 0, 0, 0, 0xBB] @ le32 fd @ [0x89, 0xF9, 0xBA] @ le32 1 @ [0xCD, 0x80]"

definition exit_bytes :: "i32 \<Rightarrow> u8 list" where
  "exit_bytes status = [0xB8, 0x01, 0, 0, 0, 0xBB] @ le32 status @ [0xCD, 0x80]"

definition start_bytes :: "nat \<Rightarrow> u8 list" where
  "start_bytes n =
     [0x80, 0x3F, 0] @ (if n + 2 \<le> 127 then [0x74, of_nat n] else [0x0F, 0x84] @ le32 (of_nat n))"

definition end_bytes :: "nat \<Rightarrow> u8 list" where
  "end_bytes n =
     [0x80, 0x3F, 0] @ (if n + 5 \<le> 128 then [0x75, - of_nat (n + 5)]
                        else [0x0F, 0x85] @ le32 (- of_nat (n + 9)))"

definition op_bytes :: "ir_op_t \<Rightarrow> u8 list" where
  "op_bytes x =
     (case kind x of
        IR_OP_TAPE \<Rightarrow> add_sub_bytes MODE_REG_DIRECT (arg x)
      | IR_OP_CELL \<Rightarrow> add_sub_bytes MODE_REG_INDIRECT (arg x)
      | IR_OP_WRITE \<Rightarrow> concat (replicate (nat (sint (arg x))) (io_bytes 4 1))
      | IR_OP_READ \<Rightarrow> io_bytes 3 0
      | IR_OP_SET \<Rightarrow> [0xCD, 0x03]
      | _ \<Rightarrow> exit_bytes (ucast (arg x)))"

fun code_bytes :: "ir_op_t prog list \<Rightarrow> u8 list" where
  "code_bytes [] = []"
| "code_bytes (Prim x # p) = op_bytes x @ code_bytes p"
| "code_bytes (While b # p) =
     (let body = code_bytes b @ end_bytes (length (code_bytes b))
      in start_bytes (length body) @ body @ code_bytes p)"

section \<open>The code emits exactly these bytes\<close>

abbreviation emits_in :: "u8 allocator \<Rightarrow> nat \<Rightarrow> u8 vec \<Rightarrow> u8 list \<Rightarrow> u8 vec option \<Rightarrow> bool" where
  "emits_in A lim \<equiv> vb.emits A lim"

definition emits_ok :: "u8 allocator \<Rightarrow> nat \<Rightarrow> u8 vec \<Rightarrow> u8 list
    \<Rightarrow> (compile_result \<times> u8 vec) option \<Rightarrow> bool" where
  "emits_ok A lim v xs r \<longleftrightarrow> (\<exists>k. r = emitted k \<and> emits_in A lim v xs k)"

lemma emits_okI: "emits_in A lim v xs k \<Longrightarrow> emits_ok A lim v xs (emitted k)"
  by (auto simp: emits_ok_def)

lemma emits_ok_nothing: "emits_ok A lim v [] (Some (COMPILE_OK, v))"
  using emits_okI [OF vb.emits_nil] by simp

lemmas reg_simps = SP_REG_def mod_rm_def

lemmas push_defs = ctx_push_code_def push_as_bytes_def syscall_const_arg_def syscall_reg_arg_def
  syscall_arg_reg_def

lemma sint_0_iff: "sint w = 0 \<longleftrightarrow> w = 0" for w :: i64
  by (metis signed_0 signed_word_eqI)

lemma emit_add_sub_bytes:
  assumes "\<not> too_big (arg x)" and "mode = MODE_REG_DIRECT \<or> mode = MODE_REG_INDIRECT"
  shows "emits_ok A lim v (add_sub_bytes mode (arg x)) (emit_add_sub A v mode x)"
  using assms unfolding emit_add_sub_def add_sub_bytes_def Let_def push_defs
  by (auto intro!: emits_okI emits_ok_nothing vb.emit_rules simp: reg_simps)

lemma emit_io_bytes: "emits_in A lim v (io_bytes (syscall_code nr) fd) (emit_io A v nr fd)"
  unfolding emit_io_def push_defs
  by (auto intro!: vb.emit_rules simp: reg_simps io_bytes_def mem_simps)

lemma emit_writes_bytes:
  "emits_in A lim v (concat (replicate n (io_bytes 4 1))) (emit_writes A n v)"
proof (induction n arbitrary: v)
  case 0
  then show ?case by (simp add: vb.emits_nil)
next
  case (Suc n)
  have "emits_in A lim v (io_bytes 4 1) (emit_io A v SYS_WRITE 1)"
    using emit_io_bytes [of A lim v SYS_WRITE 1] by simp
  then show ?case using Suc.IH by (auto intro: vb.emits_bind)
qed

lemma emit_trap_bytes: "emits_ok A lim v [0xCD, 0x03] (emit_code_trap A v)"
  unfolding emit_code_trap_def push_defs by (intro emits_okI vb.emits_put_eq) simp

lemma emit_exit_bytes:
  assumes "vec_get ir i = Some x" and "\<not> too_big (arg x)"
  shows "emits_ok A lim v (exit_bytes (ucast (arg x))) (emit_code_exit A v ir i)"
  using assms unfolding emit_code_exit_def push_defs
  by (auto intro!: emits_okI vb.emit_rules simp: reg_simps exit_bytes_def mem_simps)

text \<open>Every operation but the loop brackets.\<close>

lemma code_fn_bytes:
  assumes "vec_get ir i = Some x" and "\<not> too_big (arg x)"
    and "kind x \<noteq> IR_OP_LOOP_START" and "kind x \<noteq> IR_OP_LOOP_END"
  shows "emits_ok A lim v (op_bytes x) (code_fn (kind x) A v ir i)"
proof (cases "kind x")
  case IR_OP_TAPE
  then show ?thesis
    using assms emit_add_sub_bytes by (simp add: op_bytes_def emit_code_tape_def)
next
  case IR_OP_CELL
  then show ?thesis
    using assms emit_add_sub_bytes by (simp add: op_bytes_def emit_code_cell_def)
next
  case IR_OP_WRITE
  then show ?thesis
    using assms emit_writes_bytes by (simp add: op_bytes_def emit_code_write_def emits_okI)
next
  case IR_OP_READ
  then show ?thesis
    using assms emit_io_bytes [of A lim v SYS_READ 0]
    by (simp add: op_bytes_def emit_code_read_def emits_okI)
next
  case IR_OP_SET
  then show ?thesis using emit_trap_bytes by (simp add: op_bytes_def)
next
  case IR_OP_MAX
  then show ?thesis using assms emit_exit_bytes by (simp add: op_bytes_def)
qed (use assms in simp_all)

lemma emit_start_bytes:
  assumes "n < 2 ^ 63"
  shows "emits_ok A lim v (start_bytes n) (emit_code_loop_start A v n)"
  using assms unfolding emit_code_loop_start_def push_defs
  by (auto intro!: emits_okI vb.emit_rules simp: reg_simps start_bytes_def)

lemma loop_end_offset:
  assumes "n < 2 ^ 31 - 2"
  shows "sint (ucast (- (of_nat n + 2 :: u64)) :: i32) = - int (n + 2)"
proof -
  have "(ucast (- (of_nat n + 2 :: u64)) :: i32) = - (of_nat (n + 2))"
    by (simp add: ucast_minus_down ucast_add_down ucast_of_nat_down del: minus_add_distrib)
  then show ?thesis
    using assms by (simp add: sint_word_ariths signed_of_nat signed_take_bit_int_eq_self)
qed

text \<open>
  The closing test measures the loop buffer it is emitted into, so its bytes depend on what
  the buffer holds.
\<close>

lemma emit_end_bytes:
  assumes v: "vec_ok v" and A: "roomy A lim" and room: "vlength v + length (end_bytes (vlength v)) \<le> lim" and lim: "vlength v < 2 ^ 31 - 9"
  shows "\<exists>v'. emit_code_loop_end A v = Some (COMPILE_OK, v') \<and> vec_ok v'
    \<and> vec_list v' = vec_list v @ end_bytes (vlength v)"
proof -
  obtain c1 where c1: "vec_pusharr A v [0x80, 0x3F, 0] = Some c1" "vec_ok c1"
      "vec_list c1 = vec_list v @ [0x80, 0x3F, 0]"
    using vec_pusharr_roomy [OF v A, of "[0x80, 0x3F, 0]"] room by (auto simp: end_bytes_def)
  note room
  have len: "vlength c1 = vlength v + 3"
    using length_vec_list [OF c1(2)] length_vec_list [OF v] c1(3) by simp
  define off where "off = (ucast (- (of_nat (vlength c1) + 2 :: u64)) :: i32)"
  have off: "sint off = - int (vlength v + 5)"
    using loop_end_offset [of "vlength c1"] lim len by (simp add: off_def)
  have off_eq: "off = - of_nat (vlength v + 5)"
    unfolding off_def len
    by (simp add: ucast_minus_down ucast_add_down ucast_of_nat_down del: minus_add_distrib)
  have off4: "off - 4 = - of_nat (vlength v + 9)"
    unfolding off_eq by (simp add: algebra_simps)
  have e: "emit_code_loop_end A v = emitted (if - 128 \<le> sint off then vec_pusharr A c1 [0x75, ucast off]
      else (vec_pusharr A c1 [0x0F, 0x85] \<bind> (\<lambda>c2. vec_pusharr A c2 (le32 (off - 4)))))"
    using c1(1) by (simp add: emit_code_loop_end_def push_defs reg_simps off_def)
  have bytes: "(if vlength v + 5 \<le> 128 then [0x75, ucast off] else [0x0F, 0x85] @ le32 (off - 4))
      = drop 3 (end_bytes (vlength v))"
    unfolding off4 by (simp add: end_bytes_def off_eq ucast_minus_down ucast_add_down
        ucast_of_nat_down del: minus_add_distrib)
  have "emits_in A lim c1 (if vlength v + 5 \<le> 128 then [0x75, ucast off] else [0x0F, 0x85] @ le32 (off - 4))
      (if - 128 \<le> sint off then vec_pusharr A c1 [0x75, ucast off]
      else (vec_pusharr A c1 [0x0F, 0x85] \<bind> (\<lambda>c2. vec_pusharr A c2 (le32 (off - 4)))))"
    unfolding off by (auto intro!: vb.emit_rules)
  note em = this [unfolded bytes]
  have rm: "length (vec_list c1) + length (drop 3 (end_bytes (vlength v))) \<le> lim"
    using room len length_vec_list [OF c1(2)] by (simp add: end_bytes_def split: if_splits)
  have inv: "vec_ok c1 \<and> roomy A lim" using c1(2) A by simp
  obtain v' where v': "emit_code_loop_end A v = Some (COMPILE_OK, v')" "vec_ok v'"
      "vec_list v' = vec_list c1 @ drop 3 (end_bytes (vlength v))"
    by (rule vb.emitsE [OF em inv rm]) (simp add: e)
  then show ?thesis using c1(3) by (simp add: end_bytes_def)
qed

section \<open>The walk emits the code of the program\<close>

definition plain_op :: "ir_op_t \<Rightarrow> bool" where
  "plain_op x \<longleftrightarrow> \<not> too_big (arg x) \<and> kind x \<noteq> IR_OP_LOOP_START \<and> kind x \<noteq> IR_OP_LOOP_END"

lemma vec_init_ok [simp]: "vec_ok vec_init" "vec_list vec_init = []"
  by (simp_all add: vec_ok_def vec_list_def vec_init_def)

lemma reserve_fresh:
  assumes "0 < memsz A" and "n * memsz A < size_max"
  shows "vec_ok (snd (vec_reserve A vec_init n)) \<and> vec_list (snd (vec_reserve A (vec_init :: 'a vec) n)) = []"
proof (cases "0 < n")
  case True
  obtain r w where "vec_grow A 1 (vec_init :: 'a vec) n = (r, w)" by fastforce
  moreover have cap: "vcapacity (vec_init :: 'a vec) = 0" by (simp add: vec_init_def)
  moreover from calculation have "vec_ok w \<and> vec_list w = []"
    using vec_grow_ok [OF vec_init_ok(1) assms, of r w] by simp
  ultimately show ?thesis using True by (simp add: vec_reserve_def)
next
  case False
  then show ?thesis by (simp add: vec_reserve_def vec_init_def) (simp add: vec_ok_def vec_list_def)
qed

lemma compile_from_op:
  assumes "vec_get ir i = Some x" and "i < vlength ir" and "kind x \<noteq> IR_OP_LOOP_START"
    and "code_fn (kind x) A v ir i = Some (COMPILE_OK, v')"
  shows "compile_from A v ir i =
    (if kind x = IR_OP_LOOP_END then Some (COMPILE_OK, v') else compile_from A v' ir (i + 1))"
  using assms by (subst compile_from.simps) simp

lemma compile_from_loop:
  assumes "vec_get ir i = Some x" and "i < vlength ir" and "kind x = IR_OP_LOOP_START"
    and "compile_from A (snd (vec_reserve A vec_init (unat (arg x * 2)))) ir (i + 1) = Some (COMPILE_OK, body)"
    and "emit_code_loop_start A v (vlength body) = Some (COMPILE_OK, c1)"
    and "vec_extend A c1 body = Some v'"
  shows "compile_from A v ir i = compile_from A v' ir (unat (of_nat i + arg x) + 1)"
  using assms by (subst compile_from.simps) simp

lemma length_code_while:
  "length (code_bytes (While b # p)) = length (start_bytes (length (code_bytes b) + length (end_bytes (length (code_bytes b)))))
     + length (code_bytes b) + length (end_bytes (length (code_bytes b))) + length (code_bytes p)"
  by (simp add: Let_def)

text \<open>
  The buffer limits: \<open>lim\<close> elements can be stored, and no loop body is so long that the
  32-bit displacement overflows.
\<close>

lemma compile_from_flat:
  assumes ir: "vec_ok ir" "vlength ir \<le> lim" and A: "roomy A lim"
    and q: "all_prims plain_op q" and small: "length (code_bytes q) < 2 ^ 31 - 9"
    and v: "vec_ok v" and room: "vlength v + length (code_bytes q) \<le> lim"
    and code: "vec_list ir = pre @ flat q @ post"
  shows "\<exists>v'. compile_from A v ir (length pre) = compile_from A v' ir (length pre + length (flat q))
    \<and> vec_ok v' \<and> vec_list v' = vec_list v @ code_bytes q"
  using q small v room code
proof (induction q arbitrary: v pre post rule: code_bytes.induct)
  case 1
  then show ?case by auto
next
  case (2 x p)
  let ?i = "length pre"
  have len: "vlength ir = ?i + 1 + length (flat p) + length post"
    using length_vec_list [OF ir(1)] "2.prems"(5) by simp
  then have get: "vec_get ir ?i = Some x"
    using ir(1) "2.prems"(5) by (simp add: vec_get_ok)
  have x: "\<not> too_big (arg x)" "kind x \<noteq> IR_OP_LOOP_START" "kind x \<noteq> IR_OP_LOOP_END"
    using "2.prems"(1) by (simp_all add: plain_op_def)
  obtain k where k: "code_fn (kind x) A v ir ?i = emitted k" "emits_in A lim v (op_bytes x) k"
    using code_fn_bytes [OF get x] unfolding emits_ok_def by blast
  have inv: "vec_ok v \<and> roomy A lim" using "2.prems"(3) A by simp
  have rm: "length (vec_list v) + length (op_bytes x) \<le> lim"
    using "2.prems"(4) length_vec_list [OF "2.prems"(3)] by simp
  obtain w where w: "k = Some w" "vec_ok w" "vec_list w = vec_list v @ op_bytes x"
    by (rule vb.emitsE [OF k(2) inv rm]) simp
  have "vlength w + length (code_bytes p) \<le> lim"
    using "2.prems"(3,4) w length_vec_list [OF w(2)] length_vec_list [OF "2.prems"(3)] by simp
  then obtain v' where v': "compile_from A w ir (?i + 1) = compile_from A v' ir (?i + 1 + length (flat p))"
      "vec_ok v'" "vec_list v' = vec_list w @ code_bytes p"
    using "2.IH" [of w "pre @ [x]" post] "2.prems" w(2) by auto
  have "compile_from A v ir ?i = compile_from A w ir (?i + 1)"
    using compile_from_op [OF get _ x(2), of A v w] k(1) w(1) x(3) len by simp
  then show ?case using v' w(3) by auto
next
  case (3 b p)
  let ?i = "length pre" and ?n = "length (code_bytes b)"
  let ?d = "of_nat (length (flat b) + 1) :: i64"
  let ?body = "code_bytes b @ end_bytes ?n"
  have code: "vec_list ir = pre @ mk_op IR_OP_LOOP_START ?d # flat b @ mk_op IR_OP_LOOP_END (- ?d) # flat p @ post"
    using "3.prems"(5) by (simp add: Let_def)
  have len: "vlength ir = ?i + length (flat b) + 2 + length (flat p) + length post"
    using length_vec_list [OF ir(1)] code by simp
  have lt: "vlength ir < 2 ^ 63" using ir(2) roomy_lim [OF A] by linarith
  note size = "3.prems"(2,4) [unfolded length_code_while]
  have d: "unat (?d * 2) = 2 * (length (flat b) + 1)"
  proof -
    have "?d * 2 = of_nat (2 * (length (flat b) + 1))" by simp
    then show ?thesis using len lt by (simp only:) (rule unat_of_nat_small, simp)
  qed
  have jump: "unat (of_nat ?i + ?d) = ?i + length (flat b) + 1"
  proof -
    have "of_nat ?i + ?d = of_nat (?i + length (flat b) + 1)" by simp
    then show ?thesis using len lt by (simp only:) (rule unat_of_nat_small, simp)
  qed
  define w0 where "w0 = snd (vec_reserve A (vec_init :: u8 vec) (unat (?d * 2)))"
  have "2 * (length (flat b) + 1) \<le> 2 * lim" using len ir(2) by simp
  then have w0: "vec_ok w0" "vec_list w0 = []"
    using reserve_fresh [OF roomy_memsz [OF A], of "2 * (length (flat b) + 1)"]
      roomy_avail [OF A, of "2 * (length (flat b) + 1)"]
    unfolding w0_def d by blast+
  then have w0l: "vlength w0 = 0" using length_vec_list [of w0] by simp
  obtain w1 where w1: "compile_from A w0 ir (?i + 1) = compile_from A w1 ir (?i + 1 + length (flat b))"
      "vec_ok w1" "vec_list w1 = code_bytes b"
    using "3.IH"(1) [of w0 "pre @ [mk_op IR_OP_LOOP_START ?d]" "mk_op IR_OP_LOOP_END (- ?d) # flat p @ post"]
      "3.prems"(1) size w0 w0l code by auto
  have w1l: "vlength w1 = ?n" using length_vec_list [OF w1(2)] w1(3) by simp
  obtain w2 where w2: "emit_code_loop_end A w1 = Some (COMPILE_OK, w2)" "vec_ok w2" "vec_list w2 = ?body"
    using emit_end_bytes [OF w1(2) A] w1(3) w1l size by auto
  have "vec_get ir (?i + 1 + length (flat b)) = Some (mk_op IR_OP_LOOP_END (- ?d))"
    using len by (simp add: vec_get_ok [OF ir(1)] code nth_append)
  then have body: "compile_from A w0 ir (?i + 1) = Some (COMPILE_OK, w2)"
    using compile_from_op [of ir "?i + 1 + length (flat b)" _ A w1 w2] w1(1) w2(1) len by simp
  have w2l: "vlength w2 = length ?body" using length_vec_list [OF w2(2)] w2(3) by simp
  have "length ?body < 2 ^ 63" using size by simp
  from emit_start_bytes [OF this, of A lim v] obtain k where
      k: "emit_code_loop_start A v (length ?body) = emitted k" "emits_in A lim v (start_bytes (length ?body)) k"
    unfolding emits_ok_def by blast
  have inv: "vec_ok v \<and> roomy A lim" using "3.prems"(3) A by simp
  have vl: "length (vec_list v) = vlength v" using "3.prems"(3) by (rule length_vec_list)
  have rm: "length (vec_list v) + length (start_bytes (length ?body)) \<le> lim"
    using size vl by simp
  obtain c1 where c1: "k = Some c1" "vec_ok c1" "vec_list c1 = vec_list v @ start_bytes (length ?body)"
    by (rule vb.emitsE [OF k(2) inv rm]) simp
  have c1l: "vlength c1 = vlength v + length (start_bytes (length ?body))"
    using length_vec_list [OF c1(2)] c1(3) vl by simp
  have "vlength c1 + length ?body \<le> lim" using c1l size by simp
  then obtain c2 where c2: "vec_pusharr A c1 ?body = Some c2" "vec_ok c2"
      "vec_list c2 = vec_list v @ start_bytes (length ?body) @ ?body"
    using vec_pusharr_roomy [OF c1(2) A, of ?body] c1(3) by auto
  have ext: "vec_extend A c1 w2 = Some c2"
    using c2(1) w2(2,3) by (simp add: vec_extend_def vec_ok_def)
  have get: "vec_get ir ?i = Some (mk_op IR_OP_LOOP_START ?d)"
    using len by (simp add: vec_get_ok [OF ir(1)] code)
  have step: "compile_from A v ir ?i = compile_from A c2 ir (?i + length (flat b) + 2)"
    using compile_from_loop [OF get _ _ _ _ ext, of v] body k(1) c1(1) len jump w2l
    unfolding w0_def by simp
  have "vlength c2 + length (code_bytes p) \<le> lim"
    using length_vec_list [OF c2(2)] c2(3) vl size by simp
  then obtain v' where "compile_from A c2 ir (?i + length (flat b) + 2)
        = compile_from A v' ir (?i + length (flat b) + 2 + length (flat p))"
      "vec_ok v'" "vec_list v' = vec_list c2 @ code_bytes p"
    using "3.IH"(3) [OF refl, of c2 "pre @ mk_op IR_OP_LOOP_START ?d # flat b @ [mk_op IR_OP_LOOP_END (- ?d)]" post]
      "3.prems"(1) size c2(2) code by (auto simp: add.assoc)
  then show ?case using step c2(3) by (auto simp: Let_def add.assoc)
qed

end
