(* ===== verification/Code_Sim.thy ===== *)
theory Code_Sim
  imports Ir_Compile
begin

text \<open>
  The bytes of \<open>code_bytes\<close> on the processor of \<open>X86\<close>.  \<open>x86_at\<close> relates a processor
  state to a program state: \<open>edi\<close> points at the current cell of the data segment.  Each
  operation's bytes carry one program state to the next (\<open>x86_prim\<close>), the two loop tests
  fall through or jump (\<open>x86_test\<close>), and the contract \<open>loop_machine\<close> of \<open>Machine\<close> turns
  that into the correctness of whole compiled programs.
\<close>

section \<open>Running to a later state\<close>

definition reaches :: "image \<Rightarrow> nat \<Rightarrow> cpu \<Rightarrow> cpu \<Rightarrow> bool" where
  "reaches im n m m' \<longleftrightarrow> (\<forall>k. x86_run im (n + k) m = x86_run im k m')"

lemma reaches_refl: "reaches im 0 m m"
  by (simp add: reaches_def)

lemma reaches_trans: "reaches im a m m' \<Longrightarrow> reaches im b m' m'' \<Longrightarrow> reaches im (a + b) m m''"
  by (simp add: reaches_def add.assoc)

text \<open>One instruction at offset \<open>i\<close> of the text.\<close>

lemma reaches_step:
  assumes "eip m = text_base im + of_nat i" and "i < 2 ^ 32"
    and "decode (drop i (text_bytes im)) = Some (ins, n)"
    and "exec_instr im ins (m\<lparr>eip := text_base im + of_nat (i + n)\<rparr>) = Some (Inr m')"
  shows "reaches im 1 m m'"
proof -
  have "unat (of_nat i :: u32) = i" using assms(2) by (intro unat_of_nat_small) simp
  then have "x86_step im m = Some (Inr m')"
    using assms by (simp add: x86_step_def add.assoc)
  then show ?thesis by (simp add: reaches_def)
qed

lemma reaches_step_then:
  assumes "eip m = text_base im + of_nat i" and "i < 2 ^ 32"
    and "decode (drop i (text_bytes im)) = Some (ins, n)"
    and "exec_instr im ins (m\<lparr>eip := text_base im + of_nat (i + n)\<rparr>) = Some (Inr m')"
    and "reaches im k m' m''"
  shows "reaches im (Suc k) m m''"
  using reaches_trans [OF reaches_step [OF assms(1-4)] assms(5)] by simp

section \<open>Decoding the emitted instructions\<close>

lemma imm8_Cons: "imm8 (b # bs) = Some b"
  by simp

lemmas decode_simps = modrm_def alu_of_def Let_def imm32_le32

lemma decode_tape:
  "decode (0x47 # bs) = Some (IncReg 7, 1)"
  "decode (0x4F # bs) = Some (DecReg 7, 1)"
  "decode (0x83 # 0xC7 # b # bs) = Some (AluImm ADD (Reg 7) (scast b), 3)"
  "decode (0x83 # 0xEF # b # bs) = Some (AluImm SUB (Reg 7) (scast b), 3)"
  "decode (0x81 # 0xC7 # le32 w @ bs) = Some (AluImm ADD (Reg 7) w, 6)"
  "decode (0x81 # 0xEF # le32 w @ bs) = Some (AluImm SUB (Reg 7) w, 6)"
  by (simp_all add: decode_simps)

lemma decode_cell:
  "decode (0xFE # 0x07 # bs) = Some (IncByte (Mem 7), 2)"
  "decode (0xFE # 0x0F # bs) = Some (DecByte (Mem 7), 2)"
  "decode (0x80 # 0x07 # b # bs) = Some (AluByteImm ADD (Mem 7) b, 3)"
  "decode (0x80 # 0x2F # b # bs) = Some (AluByteImm SUB (Mem 7) b, 3)"
  "decode (0xC7 # 0xC0 # le32 w @ bs) = Some (MovImm (Reg 0) w, 6)"
  "decode (0x00 # 0x07 # bs) = Some (AluByteReg ADD (Mem 7) 0, 2)"
  "decode (0x28 # 0x07 # bs) = Some (AluByteReg SUB (Mem 7) 0, 2)"
  by (simp_all add: decode_simps)

lemma decode_test:
  "decode (0x80 # 0x3F # b # bs) = Some (AluByteImm CMP (Mem 7) b, 3)"
  "decode (0x74 # b # bs) = Some (JumpIf True (scast b), 2)"
  "decode (0x75 # b # bs) = Some (JumpIf False (scast b), 2)"
  "decode (0x0F # 0x84 # le32 w @ bs) = Some (JumpIf True w, 6)"
  "decode (0x0F # 0x85 # le32 w @ bs) = Some (JumpIf False w, 6)"
  by (simp_all add: decode_simps)

lemma decode_io:
  "decode (0xB8 # le32 w @ bs) = Some (MovRegImm 0 w, 5)"
  "decode (0xBB # le32 w @ bs) = Some (MovRegImm 3 w, 5)"
  "decode (0xBA # le32 w @ bs) = Some (MovRegImm 2 w, 5)"
  "decode (0x89 # 0xF9 # bs) = Some (MovReg (Reg 1) 7, 2)"
  "decode (0xCD # 0x80 # bs) = Some (Interrupt 0x80, 2)"
  "decode (0xFF # 0xF7 # bs) = Some (Push (Reg 7), 2)"
  by (simp_all add: decode_simps)

declare decode.simps [simp del]

section \<open>Processor states that hold a program state\<close>

definition x86_at :: "image \<Rightarrow> nat \<Rightarrow> bf_state \<Rightarrow> cpu \<Rightarrow> bool" where
  "x86_at im i s m \<longleftrightarrow> eip m = text_base im + of_nat i \<and> on_tape s
     \<and> regs m 7 = bss_base im + of_nat (ptr s) \<and> bss m = cells s
     \<and> length (cells s) < 2 ^ 31 \<and> sin m = inp s \<and> sout m = out s"

lemma x86_at_eip: "x86_at im i s m \<Longrightarrow> x86_at im j s (m\<lparr>eip := text_base im + of_nat j\<rparr>)"
  by (simp add: x86_at_def)

lemma x86_at_zf [simp]: "x86_at im i s (m\<lparr>zf := b\<rparr>) = x86_at im i s m"
  by (simp add: x86_at_def)

lemma x86_at_reg: "x86_at im i s m \<Longrightarrow> regs m = g \<Longrightarrow> r \<noteq> 7 \<Longrightarrow> x86_at im i s (m\<lparr>regs := g(r := w)\<rparr>)"
  by (auto simp: x86_at_def)

lemma x86_index: "x86_at im i s m \<Longrightarrow> unat (regs m 7 - bss_base im) = ptr s \<and> ptr s < length (bss m)"
  by (simp add: x86_at_def on_tape_def unat_of_nat_small)

lemma x86_mem_get: "x86_at im i s m \<Longrightarrow> mem_get im m (regs m 7) = Some (cell s)"
  using x86_index [of im i s m] by (simp add: mem_get_def load_def cell_def x86_at_def)

lemma x86_mem_put:
  "x86_at im i s m \<Longrightarrow> \<exists>m'. mem_put im m (regs m 7) b = Some m' \<and> x86_at im i (set_cell b s) m'"
  using x86_index [of im i s m] on_tape_set_cell [of b s]
  by (auto simp: mem_put_def store_def x86_at_def set_cell_def)

lemma x86_alu_byte:
  assumes "x86_at im i s m" and "k \<noteq> CMP"
  shows "\<exists>m'. alu_byte im m k (Mem 7) b = Some m' \<and> x86_at im i (set_cell (alu_result k (cell s) b) s) m'"
proof -
  let ?r = "alu_result k (cell s) b"
  have "x86_at im i s (m\<lparr>zf := (?r = 0)\<rparr>)" using assms(1) by simp
  then show ?thesis
    using x86_mem_get [OF assms(1)] x86_mem_put [of im i s "m\<lparr>zf := (?r = 0)\<rparr>" ?r] assms(2)
    by (simp add: alu_byte_def Let_def)
qed

lemma x86_alu_word:
  assumes "x86_at im i s m" and "k \<noteq> CMP" and "move_ptr d s = Some t"
    and "\<And>a. alu_result k a w = a + (of_int d :: u32)"
  shows "\<exists>m'. alu_word m k (Reg 7) w = Some m' \<and> x86_at im i t m'"
proof -
  let ?p = "nat (int (ptr s) + d)"
  have p: "0 \<le> int (ptr s) + d" "?p < length (cells s)" and t: "t = s\<lparr>ptr := ?p\<rparr>"
    using assms(3) by (auto simp: move_ptr_def Let_def split: if_splits)
  have "(of_nat ?p :: u32) = of_int (int (ptr s) + d)"
    using p(1) by (metis int_nat_eq of_int_of_nat_eq)
  then show ?thesis
    using assms p(2) by (simp add: alu_word_def Let_def x86_at_def t on_tape_def add.assoc)
qed

section \<open>Code embedded in the text\<close>

definition code_at :: "image \<Rightarrow> nat \<Rightarrow> u8 list \<Rightarrow> bool" where
  "code_at im i bs \<longleftrightarrow> length (text_bytes im) < 2 ^ 31 \<and> i \<le> length (text_bytes im)
     \<and> (\<exists>post. drop i (text_bytes im) = bs @ post)"

lemma code_at_append: "code_at im i (a @ b) \<longleftrightarrow> code_at im i a \<and> code_at im (i + length a) b"
proof
  assume l: "code_at im i (a @ b)"
  then obtain post where post: "drop i (text_bytes im) = a @ b @ post"
    by (auto simp: code_at_def)
  then have "length (text_bytes im) - i = length a + length (b @ post)"
    by (metis length_append length_drop)
  moreover have "drop (i + length a) (text_bytes im) = b @ post"
    using arg_cong [OF post, of "drop (length a)"] by (simp add: add.commute)
  ultimately show "code_at im i a \<and> code_at im (i + length a) b"
    using l post by (auto simp: code_at_def)
next
  assume r: "code_at im i a \<and> code_at im (i + length a) b"
  then obtain p1 p2 where p: "drop i (text_bytes im) = a @ p1"
      "drop (i + length a) (text_bytes im) = b @ p2"
    by (auto simp: code_at_def)
  have "drop (i + length a) (text_bytes im) = p1"
    using arg_cong [OF p(1), of "drop (length a)"] by (simp add: add.commute)
  then show "code_at im i (a @ b)" using r p by (auto simp: code_at_def)
qed

lemma code_atI:
  "text_bytes im = pre @ bs @ post \<Longrightarrow> length (text_bytes im) < 2 ^ 31 \<Longrightarrow> code_at im (length pre) bs"
  by (auto simp: code_at_def)

lemma code_at_end: "code_at im i bs \<Longrightarrow> i + length bs < 2 ^ 31"
  by (metis append_Nil2 code_at_append code_at_def order_le_less_trans)

definition runs_to :: "image \<Rightarrow> cpu \<Rightarrow> nat \<Rightarrow> bf_state \<Rightarrow> bool" where
  "runs_to im m j t \<longleftrightarrow> (\<exists>n m'. reaches im n m m' \<and> x86_at im j t m')"

lemma runs_to_here: "x86_at im j t m \<Longrightarrow> runs_to im m j t"
  unfolding runs_to_def using reaches_refl by blast

lemma runs_to_after: "reaches im n m m' \<Longrightarrow> runs_to im m' j t \<Longrightarrow> runs_to im m j t"
  unfolding runs_to_def using reaches_trans by blast

text \<open>One instruction whose effect keeps a program state.\<close>

lemma one_instr:
  assumes at: "x86_at im i s m" and code: "code_at im i bs"
    and dec: "\<And>post. decode (bs @ post) = Some (ins, length bs)"
    and ex: "\<And>m1. x86_at im (i + length bs) s m1 \<Longrightarrow> regs m1 = regs m \<Longrightarrow> zf m1 = zf m \<Longrightarrow>
      \<exists>m'. exec_instr im ins m1 = Some (Inr m') \<and> P m'"
  shows "\<exists>m'. reaches im 1 m m' \<and> P m'"
proof -
  let ?m1 = "m\<lparr>eip := text_base im + of_nat (i + length bs)\<rparr>"
  obtain m' where m': "exec_instr im ins ?m1 = Some (Inr m')" "P m'"
    using ex [OF x86_at_eip [OF at]] by auto
  obtain post where "drop i (text_bytes im) = bs @ post" using code by (auto simp: code_at_def)
  then have d: "decode (drop i (text_bytes im)) = Some (ins, length bs)" using dec by simp
  have "i < 2 ^ 32" using code_at_end [OF code] by simp
  then show ?thesis
    using reaches_step [OF _ _ d m'(1)] m'(2) at by (auto simp: x86_at_def)
qed

lemma one_instr_to:
  assumes at: "x86_at im i s m" and code: "code_at im i bs"
    and dec: "\<And>post. decode (bs @ post) = Some (ins, length bs)"
    and ex: "\<And>m1. x86_at im (i + length bs) s m1 \<Longrightarrow> regs m1 = regs m \<Longrightarrow>
      \<exists>m'. exec_instr im ins m1 = Some (Inr m') \<and> x86_at im (i + length bs) t m'"
  shows "runs_to im m (i + length bs) t"
  using one_instr [OF at code dec, of "x86_at im (i + length bs) t"] ex
  unfolding runs_to_def by blast

section \<open>Moves and additions\<close>

lemma ucast_sint: "LENGTH('b) \<le> LENGTH('a) \<Longrightarrow> (ucast a :: 'b::len word) = of_int (sint a)"
  for a :: "'a::len word"
proof -
  assume l: "LENGTH('b) \<le> LENGTH('a)"
  have "(ucast (word_of_int (sint a) :: 'a word) :: 'b word) = word_of_int (sint a)"
    by (rule bit_word_eqI) (use l in \<open>simp add: bit_simps\<close>)
  then show ?thesis by simp
qed

lemma scast_small:
  fixes a :: i64
  assumes "0 \<le> sint a" and "sint a \<le> 127"
  shows "(scast (ucast a :: u8) :: u32) = of_int (sint a)"
proof -
  have u: "(ucast a :: u8) = of_int (sint a)" by (intro ucast_sint) simp
  have "sint (of_int (sint a) :: u8) = sint a"
    using assms by (simp add: signed_of_int signed_take_bit_int_eq_self del: of_int_sint)
  then show ?thesis unfolding u by (simp only: scast_eq)
qed

lemma ucast_minus_sint:
  "LENGTH('b) \<le> LENGTH('a) \<Longrightarrow> (ucast (- a) :: 'b::len word) = - of_int (sint a)"
  for a :: "'a::len word"
  using ucast_minus_down [of a, where 'b = 'b] ucast_sint [of a, where 'b = 'b] by metis

lemma ucast_ucast_down:
  "LENGTH('c) \<le> LENGTH('b) \<Longrightarrow> (ucast (ucast a :: 'b::len word) :: 'c::len word) = ucast a"
  for a :: "'a::len word"
  by (rule bit_word_eqI) (auto simp: bit_simps)

lemma runs_tape:
  assumes at: "x86_at im i s m" and code: "code_at im i (add_sub_bytes MODE_REG_DIRECT a)"
    and t: "move_ptr (sint a) s = Some t"
  shows "runs_to im m (i + length (add_sub_bytes MODE_REG_DIRECT a)) t"
proof -
  let ?bs = "add_sub_bytes MODE_REG_DIRECT a"
  have u: "(ucast a :: u32) = of_int (sint a)" "(ucast (- a) :: u32) = - of_int (sint a)"
    by (rule ucast_sint, simp) (rule ucast_minus_sint, simp)
  have instr: ?thesis if "\<And>post. decode (?bs @ post) = Some (ins, length ?bs)"
      and "\<And>m. exec_instr im ins m = map_option Inr (alu_word m k (Reg 7) w)" and "k \<noteq> CMP"
      and "\<And>x. alu_result k x w = x + of_int (sint a)" for ins k w
    using one_instr_to [OF at code that(1)] x86_alu_word [OF _ that(3) t that(4)] that(2) by simp
  have neg: "sint (- a) = - sint a" if "- 127 \<le> sint a" "sint a < 0"
    using that by (simp add: sint_word_ariths signed_take_bit_int_eq_self)
  have small: "(scast (ucast (- a) :: u8) :: u32) = - of_int (sint a)" if "- 127 \<le> sint a" "sint a < 0"
    using scast_small [of "- a"] that neg by simp
  consider "sint a = 0" | "sint a = 1" | "sint a = - 1" | "1 < sint a" "sint a \<le> 127" | "127 < sint a"
    | "sint a < - 1" "- 127 \<le> sint a" | "sint a < - 127" by linarith
  then show ?thesis
  proof cases
    case 1
    then have "t = s" using t by (auto simp: move_ptr_def split: if_splits)
    then show ?thesis using 1 at by (simp add: add_sub_bytes_def Let_def runs_to_here)
  next
    case 2
    then show ?thesis by (intro instr [of "IncReg 7" ADD 1]) (simp_all add: add_sub_bytes_def decode_tape)
  next
    case 3
    then show ?thesis by (intro instr [of "DecReg 7" SUB 1]) (simp_all add: add_sub_bytes_def decode_tape)
  next
    case 4
    then show ?thesis
      by (intro instr [of "AluImm ADD (Reg 7) (scast (ucast a :: u8))" ADD])
         (simp_all add: add_sub_bytes_def decode_tape scast_small)
  next
    case 5
    then show ?thesis
      by (intro instr [of "AluImm ADD (Reg 7) (ucast a)" ADD])
         (simp_all add: add_sub_bytes_def decode_tape u)
  next
    case 6
    then show ?thesis
      by (intro instr [of "AluImm SUB (Reg 7) (- of_int (sint a))" SUB "- of_int (sint a)"])
         (simp_all add: add_sub_bytes_def decode_tape small)
  next
    case 7
    then show ?thesis
      by (intro instr [of "AluImm SUB (Reg 7) (- of_int (sint a))" SUB "- of_int (sint a)"])
         (simp_all add: add_sub_bytes_def decode_tape u)
  qed
qed

lemma runs_mov_eax:
  assumes at: "x86_at im i s m" and code: "code_at im i ([0xC7, 0xC0] @ le32 w @ bs)"
    and nx: "\<And>m'. x86_at im (i + 6) s m' \<Longrightarrow> regs m' 0 = w \<Longrightarrow> runs_to im m' j t"
  shows "runs_to im m j t"
proof -
  have c: "code_at im i ([0xC7, 0xC0] @ le32 w)" using code code_at_append [of im i "[0xC7, 0xC0] @ le32 w"] by simp
  have "\<exists>m'. reaches im 1 m m' \<and> x86_at im (i + 6) s m' \<and> regs m' 0 = w"
    by (rule one_instr [OF at c, of "MovImm (Reg 0) w"]) (simp_all add: decode_cell x86_at_def)
  then show ?thesis using nx runs_to_after by blast
qed

lemma runs_cell:
  assumes at: "x86_at im i s m" and code: "code_at im i (add_sub_bytes MODE_REG_INDIRECT a)"
  shows "runs_to im m (i + length (add_sub_bytes MODE_REG_INDIRECT a)) (set_cell (cell s + ucast a) s)"
proof -
  let ?bs = "add_sub_bytes MODE_REG_INDIRECT a" and ?t = "set_cell (cell s + ucast a) s"
  have u: "(ucast (- a) :: u8) = - ucast a" "(ucast (ucast a :: u32) :: u8) = ucast a"
    "(ucast (ucast (- a) :: u32) :: u8) = - ucast a"
    by (simp_all add: ucast_minus_down ucast_ucast_down)
  have s1: "(ucast a :: u8) = of_int (sint a)" by (simp add: ucast_sint)
  have instr: "runs_to im m' (j + length bs) ?t"
    if "x86_at im j s m'" "code_at im j bs" "\<And>post. decode (bs @ post) = Some (ins, length bs)"
      and "\<And>m1. x86_at im (j + length bs) s m1 \<Longrightarrow> regs m1 = regs m' \<Longrightarrow> zf m1 = zf m' \<Longrightarrow> exec_instr im ins m1 = map_option Inr (alu_byte im m1 k (Mem 7) w)" and "k \<noteq> CMP"
      and "\<And>x. alu_result k x w = x + ucast a" for ins k w bs j m'
  proof -
    have "\<exists>m2. reaches im 1 m' m2 \<and> x86_at im (j + length bs) ?t m2"
      by (rule one_instr [OF that(1-3)]) (use x86_alu_byte [of im "j + length bs" s _ k w] that(4-6) in fastforce)
    then show ?thesis unfolding runs_to_def by blast
  qed
  consider "sint a = 0" | "sint a = 1" | "sint a = - 1" | "1 < sint a" "sint a \<le> 127" | "127 < sint a"
    | "sint a < - 1" "- 127 \<le> sint a" | "sint a < - 127" by linarith
  then show ?thesis
  proof cases
    case 1
    then show ?thesis using at by (simp add: add_sub_bytes_def Let_def runs_to_here s1 set_cell_cell)
  next
    case 2
    then show ?thesis using instr [OF at code, of "IncByte (Mem 7)" ADD 1]
      by (simp add: add_sub_bytes_def decode_cell s1)
  next
    case 3
    then show ?thesis using instr [OF at code, of "DecByte (Mem 7)" SUB 1]
      by (simp add: add_sub_bytes_def decode_cell s1)
  next
    case 4
    then show ?thesis using instr [OF at code, of "AluByteImm ADD (Mem 7) (ucast a)" ADD "ucast a"]
      by (simp add: add_sub_bytes_def decode_cell)
  next
    case 5
    then have bs: "?bs = ([0xC7, 0xC0] @ le32 (ucast a)) @ [0x00, 0x07]" by (simp add: add_sub_bytes_def)
    show ?thesis
    proof (rule runs_mov_eax [OF at])
      show "code_at im i ([0xC7, 0xC0] @ le32 (ucast a) @ [0x00, 0x07])" using code bs by simp
      fix m' assume m': "x86_at im (i + 6) s m'" "regs m' 0 = ucast a"
      have "code_at im (i + 6) [0x00, 0x07]"
        using code code_at_append [of im i "[0xC7, 0xC0] @ le32 (ucast a)" "[0x00, 0x07]"] unfolding bs by simp
      from instr [OF m'(1) this, of "AluByteReg ADD (Mem 7) 0" ADD "ucast a"]
      show "runs_to im m' (i + length ?bs) ?t" unfolding bs using m'(2) u by (simp add: decode_cell add.commute [of _ i])
    qed
  next
    case 6
    then show ?thesis using instr [OF at code, of "AluByteImm SUB (Mem 7) (ucast (- a))" SUB "ucast (- a)"]
      by (simp add: add_sub_bytes_def decode_cell u)
  next
    case 7
    then have bs: "?bs = ([0xC7, 0xC0] @ le32 (ucast (- a))) @ [0x28, 0x07]" by (simp add: add_sub_bytes_def)
    show ?thesis
    proof (rule runs_mov_eax [OF at])
      show "code_at im i ([0xC7, 0xC0] @ le32 (ucast (- a)) @ [0x28, 0x07])" using code bs by simp
      fix m' assume m': "x86_at im (i + 6) s m'" "regs m' 0 = ucast (- a)"
      have "code_at im (i + 6) [0x28, 0x07]"
        using code code_at_append [of im i "[0xC7, 0xC0] @ le32 (ucast (- a))" "[0x28, 0x07]"] unfolding bs by simp
      from instr [OF m'(1) this, of "AluByteReg SUB (Mem 7) 0" SUB "- ucast a"]
      show "runs_to im m' (i + length ?bs) ?t" unfolding bs using m'(2) u by (simp add: decode_cell add.commute [of _ i])
    qed
  qed
qed

section \<open>System calls\<close>

lemma le32_small: "le32 1 = [1, 0, 0, 0]" "le32 (ucast b) = [b, 0, 0, 0]" for b :: u8
proof -
  have "drop_bit 8 (ucast b :: u32) = 0" "drop_bit 16 (ucast b :: u32) = 0" "drop_bit 24 (ucast b :: u32) = 0"
    by (rule bit_word_eqI, auto simp: bit_simps dest: bit_imp_le_length)+
  then show "le32 (ucast b) = [b, 0, 0, 0]" by (simp add: le32_def ucast_ucast_down)
qed (simp add: le32_def)

lemma io_bytes_eq:
  "io_bytes nr fd = (0xB8 # le32 (ucast nr)) @ (0xBB # le32 fd) @ [0x89, 0xF9] @ (0xBA # le32 1) @ [0xCD, 0x80]"
  by (simp add: io_bytes_def le32_small(2))

lemma runs_instr_then:
  assumes at: "x86_at im i s m" and code: "code_at im i (b1 @ bs)"
    and dec: "\<And>post. decode (b1 @ post) = Some (ins, length b1)"
    and ex: "\<And>m1. x86_at im (i + length b1) s m1 \<Longrightarrow> regs m1 = regs m \<Longrightarrow>
      \<exists>m'. exec_instr im ins m1 = Some (Inr m') \<and> x86_at im (i + length b1) s m' \<and> Q (regs m')"
    and rest: "\<And>m'. x86_at im (i + length b1) s m' \<Longrightarrow> code_at im (i + length b1) bs \<Longrightarrow> Q (regs m') \<Longrightarrow>
      runs_to im m' (i + length b1 + length bs) t"
  shows "runs_to im m (i + length (b1 @ bs)) t"
proof -
  have c: "code_at im i b1" "code_at im (i + length b1) bs"
    using code by (simp_all add: code_at_append)
  have "\<exists>m'. reaches im 1 m m' \<and> x86_at im (i + length b1) s m' \<and> Q (regs m')"
    using ex by (intro one_instr [OF at c(1) dec])
  then show ?thesis using rest c(2) runs_to_after by (metis add.assoc length_append)
qed

lemma runs_io:
  assumes at: "x86_at im i s m" and code: "code_at im i (io_bytes nr fd)"
    and sys: "\<And>j m. x86_at im j s m \<Longrightarrow> regs m 0 = ucast nr \<Longrightarrow> regs m 3 = fd \<Longrightarrow> regs m 1 = regs m 7 \<Longrightarrow>
      regs m 2 = 1 \<Longrightarrow> \<exists>m'. syscall im m = Some (Inr m') \<and> x86_at im j t m'"
  shows "runs_to im m (i + length (io_bytes nr fd)) t"
  unfolding io_bytes_eq
proof (rule runs_instr_then [OF at code [unfolded io_bytes_eq], of "MovRegImm 0 (ucast nr)" "\<lambda>g. g 0 = ucast nr"], goal_cases)
  case (3 m3)
  show ?case
  proof (rule runs_instr_then [OF 3(1,2), of "MovRegImm 3 fd" "\<lambda>g. g 0 = ucast nr \<and> g 3 = fd"], goal_cases)
    case (3 m4)
    show ?case
    proof (rule runs_instr_then [OF 3(1,2), of "MovReg (Reg 1) 7" "\<lambda>g. g 0 = ucast nr \<and> g 3 = fd \<and> g 1 = g 7"], goal_cases)
      case (3 m5)
      show ?case
      proof (rule runs_instr_then [OF 3(1,2), of "MovRegImm 2 1"
            "\<lambda>g. g 0 = ucast nr \<and> g 3 = fd \<and> g 1 = g 7 \<and> g 2 = 1"], goal_cases)
        case (3 m6)
        show ?case
        proof (rule one_instr_to [OF 3(1,2), of "Interrupt 0x80"], goal_cases)
          case (2 m7)
          then show ?case using sys [OF 2(1)] 3(3) by simp
        qed (simp add: decode_io)
      qed (use 3(3) in \<open>simp_all add: decode_io x86_at_reg\<close>)
    qed (use 3(3) in \<open>simp_all add: decode_io x86_at_reg\<close>)
  qed (use 3(3) in \<open>simp_all add: decode_io x86_at_reg\<close>)
qed (simp_all add: decode_io x86_at_reg)

lemma syscall_write:
  assumes "x86_at im i s m" and "regs m 0 = 4" and "regs m 3 = 1" and "regs m 1 = regs m 7"
    and "regs m 2 = 1"
  shows "\<exists>m'. syscall im m = Some (Inr m') \<and> x86_at im i (put_byte s) m'"
proof -
  have "mem_read im m (regs m 1) (unat (regs m 2)) = Some [cell s]"
    using x86_mem_get [OF assms(1)] assms(4,5) by simp
  then show ?thesis
    using assms by (simp add: syscall_def x86_at_def put_byte_def on_tape_def)
qed

lemma syscall_read:
  assumes "x86_at im i s m" and "regs m 0 = 3" and "regs m 3 = 0" and "regs m 1 = regs m 7"
    and "regs m 2 = 1"
  shows "\<exists>m'. syscall im m = Some (Inr m') \<and> x86_at im i (get_byte s) m'"
proof (cases "inp s")
  case Nil
  then have "sin m = []" "get_byte s = s"
    using assms(1) by (simp_all add: x86_at_def get_byte_def)
  then show ?thesis using assms x86_at_reg [OF assms(1) refl, of 0] by (simp add: syscall_def)
next
  case (Cons b bs)
  then have sn: "sin m = b # bs" and gb: "get_byte s = (set_cell b s)\<lparr>inp := bs\<rparr>"
    using assms(1) by (simp_all add: x86_at_def get_byte_def set_cell_def)
  obtain m' where m': "mem_put im m (regs m 1) b = Some m'" "x86_at im i (set_cell b s) m'"
    using x86_mem_put [OF assms(1)] assms(4) by auto
  have "syscall im m = Some (Inr (m'\<lparr>sin := drop 1 (sin m'), regs := (regs m')(0 := 1)\<rparr>))"
    using assms(2,3,5) m'(1) sn by (simp add: syscall_def)
  moreover have "sin m' = b # bs" using m'(2) Cons by (simp add: x86_at_def set_cell_def)
  then have "drop 1 (sin m') = bs" by simp
  then have "x86_at im i (get_byte s) (m'\<lparr>sin := drop 1 (sin m'), regs := (regs m')(0 := 1)\<rparr>)"
    using m'(2) unfolding gb by (simp add: x86_at_def on_tape_def del: drop_0)
  ultimately show ?thesis by blast
qed

lemma runs_write: "x86_at im i s m \<Longrightarrow> code_at im i (io_bytes 4 1) \<Longrightarrow>
    runs_to im m (i + length (io_bytes 4 1)) (put_byte s)"
  by (erule runs_io) (use syscall_write in simp_all)

lemma runs_read: "x86_at im i s m \<Longrightarrow> code_at im i (io_bytes 3 0) \<Longrightarrow>
    runs_to im m (i + length (io_bytes 3 0)) (get_byte s)"
  by (erule runs_io) (use syscall_read in simp_all)

lemma runs_writes:
  "x86_at im i s m \<Longrightarrow> code_at im i (concat (replicate n (io_bytes 4 1))) \<Longrightarrow>
   runs_to im m (i + length (concat (replicate n (io_bytes 4 1)))) ((put_byte ^^ n) s)"
proof (induction n arbitrary: i s m)
  case 0
  then show ?case by (simp add: runs_to_here)
next
  case (Suc n)
  let ?j = "i + length (io_bytes 4 1)"
  have c: "code_at im i (io_bytes 4 1)" "code_at im ?j (concat (replicate n (io_bytes 4 1)))"
    using Suc.prems(2) by (simp_all add: code_at_append)
  obtain k m' where m': "reaches im k m m'" "x86_at im ?j (put_byte s) m'"
    using runs_write [OF Suc.prems(1) c(1)] by (auto simp: runs_to_def)
  have "runs_to im m' (?j + length (concat (replicate n (io_bytes 4 1)))) ((put_byte ^^ n) (put_byte s))"
    by (rule Suc.IH [OF m'(2) c(2)])
  then show ?case using runs_to_after [OF m'(1)] by (simp add: funpow_swap1 add.assoc)
qed

section \<open>Loop tests\<close>

lemma runs_cmp:
  assumes at: "x86_at im i s m" and code: "code_at im i [0x80, 0x3F, 0]"
  shows "\<exists>m'. reaches im 1 m m' \<and> x86_at im (i + 3) s m' \<and> (zf m' \<longleftrightarrow> cell s = 0)"
proof (rule one_instr [OF at code, of "AluByteImm CMP (Mem 7) 0"], goal_cases)
  case (2 m1)
  then show ?case using x86_mem_get [OF 2(1)] by (simp add: alu_byte_def numeral_3_eq_3)
qed (simp add: decode_test)

lemma runs_jump:
  assumes at: "x86_at im i s m" and code: "code_at im i bs"
    and dec: "\<And>post. decode (bs @ post) = Some (JumpIf c d, length bs)"
    and d: "(of_nat (i + length bs) :: u32) + d = of_nat j"
  shows "\<exists>m'. reaches im 1 m m' \<and> x86_at im (if zf m = c then j else i + length bs) s m'"
proof (rule one_instr [OF at code dec], goal_cases)
  case (1 m1)
  have "eip m1 + d = text_base im + of_nat j"
    using 1(1) d by (simp add: x86_at_def add.assoc)
  then show ?case using 1 by (simp add: x86_at_def)
qed

text \<open>The two tests of a loop whose body with its closing test is \<open>n\<close> bytes long.\<close>

lemma runs_test:
  assumes at: "x86_at im i s m" and code: "code_at im i ([0x80, 0x3F, 0] @ bs)"
    and dec: "\<And>post. decode (bs @ post) = Some (JumpIf c d, length bs)"
    and l: "l = 3 + length bs" and d: "(of_nat (i + l) :: u32) + d = of_nat j"
  shows "\<exists>n m'. 0 < n \<and> reaches im n m m'
    \<and> x86_at im (if (cell s = 0) = c then j else i + l) s m'"
proof -
  have c: "code_at im i [0x80, 0x3F, 0]" "code_at im (i + 3) bs"
    using code code_at_append [of im i "[0x80, 0x3F, 0]" bs] by (simp_all add: numeral_3_eq_3)
  obtain m1 where m1: "reaches im 1 m m1" "x86_at im (i + 3) s m1" "zf m1 \<longleftrightarrow> cell s = 0"
    using runs_cmp [OF at c(1)] by blast
  have "(of_nat (i + 3 + length bs) :: u32) + d = of_nat j" using d l by (simp add: add.assoc)
  from runs_jump [OF m1(2) c(2) dec this]
  obtain m2 where m2: "reaches im 1 m1 m2" "x86_at im (if zf m1 = c then j else i + l) s m2"
    unfolding l add.assoc by blast
  have "reaches im (1 + 1) m m2" by (rule reaches_trans [OF m1(1) m2(1)])
  then show ?thesis using m2(2) m1(3) by (intro exI [of _ "1 + 1"] exI [of _ m2]) simp
qed

section \<open>The processor as a machine for structured programs\<close>

text \<open>
  What the emitted code does: as \<open>ir_step\<close>, except that \<open>emit_code_read\<close> ignores the operand, as
  if it were 1, and that \<open>emit_code_trap\<close> raises a signal.
\<close>

definition code_step :: "ir_op_t \<Rightarrow> bf_state \<Rightarrow> bf_state option" where
  "code_step x s =
     (case kind x of
        IR_OP_READ \<Rightarrow> ir_step (x\<lparr>arg := 1\<rparr>) s
      | IR_OP_SET \<Rightarrow> None
      | _ \<Rightarrow> ir_step x s)"

lemma code_step_read: "kind x = IR_OP_READ \<Longrightarrow> code_step x s = Some (get_byte s)"
  by (simp add: code_step_def ir_step_def)

text \<open>The operations whose code does what they mean.\<close>

definition compiles_fully :: "ir_op_t \<Rightarrow> bool" where
  "compiles_fully x \<longleftrightarrow> kind x \<noteq> IR_OP_SET \<and> (kind x = IR_OP_READ \<longrightarrow> arg x = 1)"

lemma code_step_full: "compiles_fully x \<Longrightarrow> code_step x = ir_step x"
  by (rule ext) (auto simp: compiles_fully_def code_step_def ir_step_def split: ir_op_kind.split)

definition x86_prim :: "image \<Rightarrow> nat \<Rightarrow> ir_op_t \<Rightarrow> nat \<Rightarrow> bool" where
  "x86_prim im i x j \<longleftrightarrow> code_at im i (op_bytes x) \<and> j = i + length (op_bytes x)"

definition x86_test :: "image \<Rightarrow> nat \<Rightarrow> nat \<Rightarrow> nat \<Rightarrow> bool" where
  "x86_test im i nz z \<longleftrightarrow>
     (\<exists>n. code_at im i (start_bytes n) \<and> nz = i + length (start_bytes n) \<and> z = nz + n) \<or>
     (\<exists>n. code_at im i (end_bytes n) \<and> i = nz + n \<and> z = i + length (end_bytes n))"

lemma runs_op:
  assumes "x86_at im i s m" and "code_at im i (op_bytes x)" and "code_step x s = Some t"
  shows "runs_to im m (i + length (op_bytes x)) t"
proof (cases "kind x")
  case IR_OP_TAPE
  then show ?thesis using assms runs_tape by (simp add: op_bytes_def code_step_def ir_step_def)
next
  case IR_OP_CELL
  then show ?thesis using assms runs_cell by (auto simp: op_bytes_def code_step_def ir_step_def)
next
  case IR_OP_WRITE
  then show ?thesis using assms runs_writes by (auto simp: op_bytes_def code_step_def ir_step_def)
next
  case IR_OP_READ
  then show ?thesis using assms runs_read by (auto simp: op_bytes_def code_step_read)
qed (use assms(3) in \<open>simp_all add: code_step_def ir_step_def\<close>)

lemma scast_nat: "n \<le> 127 \<Longrightarrow> (scast (of_nat n :: u8) :: u32) = of_nat n"
  by (simp add: scast_eq signed_of_nat signed_take_bit_int_eq_self)

lemma scast_neg_nat: "n \<le> 128 \<Longrightarrow> (scast (- of_nat n :: u8) :: u32) = - of_nat n"
proof -
  assume n: "n \<le> 128"
  have "sint (of_int (- int n) :: u8) = - int n"
    using n by (subst signed_of_int) (simp add: signed_take_bit_int_eq_self)
  then show ?thesis by (simp add: scast_eq)
qed

lemma runs_start:
  assumes at: "x86_at im i s m" and code: "code_at im i (start_bytes n)"
  defines "l \<equiv> length (start_bytes n)"
  shows "\<exists>k m'. 0 < k \<and> reaches im k m m' \<and> x86_at im (if cell s = 0 then i + l + n else i + l) s m'"
proof (cases "n + 2 \<le> 127")
  case True
  then have c: "code_at im i ([0x80, 0x3F, 0] @ [0x74, of_nat n])" and l: "l = 5"
    using code by (simp_all add: start_bytes_def l_def)
  have "\<exists>k m'. 0 < k \<and> reaches im k m m' \<and> x86_at im (if (cell s = 0) = True then i + l + n else i + l) s m'"
    by (rule runs_test [OF at c, of True "scast (of_nat n :: u8)"])
       (use True in \<open>simp_all add: decode_test scast_nat l\<close>)
  then show ?thesis by simp
next
  case False
  then have c: "code_at im i ([0x80, 0x3F, 0] @ [0x0F, 0x84] @ le32 (of_nat n))" and l: "l = 9"
    using code by (simp_all add: start_bytes_def l_def)
  have "\<exists>k m'. 0 < k \<and> reaches im k m m' \<and> x86_at im (if (cell s = 0) = True then i + l + n else i + l) s m'"
    by (rule runs_test [OF at c, of True "of_nat n"]) (simp_all add: decode_test l)
  then show ?thesis by simp
qed

lemma runs_end:
  assumes at: "x86_at im i s m" and code: "code_at im i (end_bytes n)" and i: "i = b + n"
  defines "l \<equiv> length (end_bytes n)"
  shows "\<exists>k m'. 0 < k \<and> reaches im k m m' \<and> x86_at im (if cell s = 0 then i + l else b) s m'"
proof (cases "n + 5 \<le> 128")
  case True
  then have c: "code_at im i ([0x80, 0x3F, 0] @ [0x75, - of_nat (n + 5)])" and l: "l = 5"
    using code by (simp_all add: end_bytes_def l_def)
  have "\<exists>k m'. 0 < k \<and> reaches im k m m' \<and> x86_at im (if (cell s = 0) = False then b else i + l) s m'"
    by (rule runs_test [OF at c, of False "- of_nat (n + 5)"])
       (use True scast_neg_nat [of "n + 5"] in \<open>simp_all add: decode_test l i\<close>)
  then show ?thesis by (simp split: if_splits)
next
  case False
  then have c: "code_at im i ([0x80, 0x3F, 0] @ [0x0F, 0x85] @ le32 (- of_nat (n + 9)))" and l: "l = 9"
    using code by (simp_all add: end_bytes_def l_def)
  have "\<exists>k m'. 0 < k \<and> reaches im k m m' \<and> x86_at im (if (cell s = 0) = False then b else i + l) s m'"
    by (rule runs_test [OF at c, of False "- of_nat (n + 9)"]) (simp_all add: decode_test l i)
  then show ?thesis by (simp split: if_splits)
qed

interpretation xm: loop_machine "x86_run im" code_step "x86_at im" "x86_prim im" "x86_test im"
  for im
proof unfold_locales
  fix i x j s t m
  assume "x86_prim im i x j" and "x86_at im i s m" and "code_step x s = Some t"
  then show "\<exists>n m'. (\<forall>k. x86_run im (n + k) m = x86_run im k m') \<and> x86_at im j t m'"
    using runs_op unfolding x86_prim_def runs_to_def reaches_def by blast
next
  fix i nz z s m
  assume "x86_test im i nz z" and at: "x86_at im i s m"
  then have "\<exists>n m'. 0 < n \<and> reaches im n m m' \<and> x86_at im (if cell s = 0 then z else nz) s m'"
    using runs_start [OF at] runs_end [OF at] unfolding x86_test_def by blast
  then show "\<exists>n m'. 0 < n \<and> (\<forall>k. x86_run im (n + k) m = x86_run im k m')
      \<and> x86_at im (if cell s = 0 then z else nz) s m'"
    unfolding reaches_def .
qed simp

text \<open>\<open>code_bytes\<close> lays the program out as the contract asks.\<close>

lemma x86_placed: "code_at im i (code_bytes q) \<Longrightarrow> xm.placed im i q (i + length (code_bytes q))"
proof (induction q arbitrary: i rule: code_bytes.induct)
  case 1
  then show ?case by (simp add: xm.placed_nil)
next
  case (2 x p)
  then have "x86_prim im i x (i + length (op_bytes x))"
    by (simp add: x86_prim_def code_at_append)
  moreover have "xm.placed im (i + length (op_bytes x)) p (i + length (op_bytes x) + length (code_bytes p))"
    using 2 by (simp add: code_at_append)
  ultimately show ?case using xm.placed_prim by (fastforce simp: add.assoc)
next
  case (3 b p)
  let ?n = "length (code_bytes b)"
  let ?e = "end_bytes ?n" and ?s = "start_bytes (?n + length (end_bytes ?n))"
  let ?b = "i + length ?s"
  let ?z = "?b + ?n + length ?e"
  have c: "code_at im i ?s" "code_at im ?b (code_bytes b)" "code_at im (?b + ?n) ?e" "code_at im ?z (code_bytes p)"
    using "3.prems" by (simp_all add: Let_def code_at_append)
  have t: "x86_test im i ?b ?z" "x86_test im (?b + ?n) ?b ?z"
    using c(1,3) unfolding x86_test_def by (auto simp: add.assoc)
  have "xm.placed im i (While b # p) (?z + length (code_bytes p))"
    using "3.IH"(1) [OF c(2)] "3.IH"(3) [OF refl c(4)] t by (intro xm.placed_while)
  then show ?case by (simp add: Let_def add.assoc)
qed

section \<open>Properties\<close>

text \<open>
  C19: What the emitter of an operation other than a loop bracket, a \<open>SET\<close> or a \<open>READ\<close> of several
  bytes appends, executed wherever it lies in the text, carries every state of the program to the
  state the operation means, in all encodings: the one-byte, 8-bit and 32-bit forms of moves and
  additions, the register form for additions beyond 127, and the unrolled system calls.
\<close>
theorem operation_code_correct:
  assumes "vec_get ir i = Some x" and "plain_op x" and "compiles_fully x" and "vec_ok v" and "roomy A lim"
    and "vlength v + length (op_bytes x) \<le> lim"
  shows "\<exists>v' bs. code_fn (kind x) A v ir i = Some (COMPILE_OK, v') \<and> vec_list v' = vec_list v @ bs
    \<and> (\<forall>im j s m t. code_at im j bs \<longrightarrow> x86_at im j s m \<longrightarrow> ir_step x s = Some t \<longrightarrow>
          (\<exists>n m'. reaches im n m m' \<and> x86_at im (j + length bs) t m'))"
proof -
  obtain k where k: "code_fn (kind x) A v ir i = emitted k" "emits_in A lim v (op_bytes x) k"
    using code_fn_bytes [OF assms(1)] assms(2) unfolding plain_op_def emits_ok_def by blast
  have inv: "vec_ok v \<and> roomy A lim" and rm: "length (vec_list v) + length (op_bytes x) \<le> lim"
    using assms(4-6) by (simp_all add: length_vec_list)
  obtain v' where v': "k = Some v'" "vec_list v' = vec_list v @ op_bytes x"
    by (rule vb.emitsE [OF k(2) inv rm]) simp
  have "code_fn (kind x) A v ir i = Some (COMPILE_OK, v')" using k(1) v'(1) by simp
  moreover have "\<exists>n m'. reaches im n m m' \<and> x86_at im (j + length (op_bytes x)) t m'"
    if "code_at im j (op_bytes x)" "x86_at im j s m" "ir_step x s = Some t" for im j s m t
    using runs_op [OF that(2,1)] that(3) by (simp add: runs_to_def code_step_full [OF assms(3)])
  ultimately show ?thesis using v'(2) by blast
qed

abbreviation tiny_image :: "u8 list \<Rightarrow> image" where
  "tiny_image bs \<equiv> \<lparr>text_base = 0x1000, text_bytes = bs, bss_base = 0x2000\<rparr>"

abbreviation tiny_cpu :: cpu where
  "tiny_cpu \<equiv> \<lparr>eip = 0x1000, regs = (\<lambda>_. 0x2000), zf = False, bss = [3, 4], stack = [], sin = [5, 6], sout = []\<rparr>"

abbreviation tiny_state :: bf_state where
  "tiny_state \<equiv> \<lparr>ptr = 0, cells = [3, 4], inp = [5, 6], out = []\<rparr>"

abbreviation one_op :: "ir_op_t \<Rightarrow> ir_ctx" where
  "one_op x \<equiv> \<lparr>borrowed = False, vlength = 1, vcapacity = 1, vdata = [x], patch = []\<rparr>"

lemma tiny_at: "x86_at (tiny_image bs) 0 tiny_state tiny_cpu"
  by (simp add: x86_at_def on_tape_def)

lemma tiny_code: "length bs < 2 ^ 31 \<Longrightarrow> code_at (tiny_image bs) 0 bs"
  by (simp add: code_at_def)

lemma one_op_get: "vec_get (one_op x) 0 = Some x"
  by (simp add: vec_get_def load_def)

lemma code_heap: "roomy (heap_of (0 :: u8) 1) 1000"
  by (rule roomy_heap) simp_all

lemma length_fresh: "vlength (vec_init :: u8 vec) = 0"
  by (simp add: vec_init_def)

theorem operation_code_correct_witness:
  "\<exists>v' bs. code_fn IR_OP_CELL (heap_of 0 1) vec_init (one_op (mk_op IR_OP_CELL 200)) 0 = Some (COMPILE_OK, v')
    \<and> vec_list v' = bs
    \<and> (length bs < 2 ^ 31 \<longrightarrow> (\<exists>n m'. reaches (tiny_image bs) n tiny_cpu m' \<and> bss m' = [203, 4]))"
proof -
  let ?x = "mk_op IR_OP_CELL 200"
  have plain: "plain_op ?x" "compiles_fully ?x" by (simp_all add: plain_op_def too_big_def compiles_fully_def)
  have room: "vlength (vec_init :: u8 vec) + length (op_bytes ?x) \<le> 1000"
    by (simp add: op_bytes_def add_sub_bytes_def vec_init_def)
  have step: "ir_step ?x tiny_state = Some (tiny_state\<lparr>cells := [203, 4]\<rparr>)"
    by (simp add: ir_step_def set_cell_def cell_def)
  from operation_code_correct [OF one_op_get plain vec_init_ok(1) code_heap room]
  obtain v' bs where v': "code_fn (kind ?x) (heap_of 0 1) vec_init (one_op ?x) 0 = Some (COMPILE_OK, v')"
      "vec_list v' = vec_list vec_init @ bs"
      and run: "\<forall>im j s m t. code_at im j bs \<longrightarrow> x86_at im j s m \<longrightarrow> ir_step ?x s = Some t \<longrightarrow>
          (\<exists>n m'. reaches im n m m' \<and> x86_at im (j + length bs) t m')" by blast
  have "\<exists>n m'. reaches (tiny_image bs) n tiny_cpu m' \<and> bss m' = [203, 4]" if "length bs < 2 ^ 31"
    using run tiny_code [OF that] tiny_at [of bs] step by (fastforce simp: x86_at_def)
  then show ?thesis using v' by auto
qed

text \<open>
  C20: The two tests emitted around a loop body of any length, short or long form: executed
  around that body, the opening and the closing test alike transfer control to the body when
  the current cell is not 0 and behind the loop when it is.
\<close>
theorem loop_tests_land:
  assumes "vec_ok body" and "vec_ok v" and "roomy A lim" and "vlength body + 9 \<le> lim" and "vlength v + 9 \<le> lim"
    and "vlength body < 2 ^ 31 - 9"
  shows "\<exists>body' v' hd. emit_code_loop_end A body = Some (COMPILE_OK, body')
    \<and> emit_code_loop_start A v (vlength body') = Some (COMPILE_OK, v') \<and> vec_list v' = vec_list v @ hd
    \<and> (\<forall>im i j s m. code_at im i (hd @ vec_list body') \<longrightarrow> x86_at im j s m \<longrightarrow>
          j = i \<or> j = i + length hd + vlength body \<longrightarrow>
          (\<exists>k m'. 0 < k \<and> reaches im k m m'
            \<and> x86_at im (if cell s = 0 then i + length hd + vlength body' else i + length hd) s m'))"
proof -
  let ?n = "vlength body"
  let ?st = "start_bytes (?n + length (end_bytes ?n))"
  have e: "length (end_bytes ?n) \<le> 9" and st: "length ?st \<le> 9"
    by (simp_all add: start_bytes_def end_bytes_def)
  obtain body' where b: "emit_code_loop_end A body = Some (COMPILE_OK, body')" "vec_ok body'"
      "vec_list body' = vec_list body @ end_bytes ?n"
    using emit_end_bytes [OF assms(1,3)] e assms(4,6) by fastforce
  have bl: "vlength body' = ?n + length (end_bytes ?n)"
    using length_vec_list [OF b(2)] b(3) length_vec_list [OF assms(1)] by simp
  have "vlength body' < 2 ^ 63" using bl e assms(6) by simp
  from emit_start_bytes [OF this, of A lim v] obtain k where
      k: "emit_code_loop_start A v (vlength body') = emitted k" "emits_in A lim v ?st k"
    unfolding emits_ok_def bl by blast
  have inv: "vec_ok v \<and> roomy A lim" and rm: "length (vec_list v) + length ?st \<le> lim"
    using assms(2,3,5) st by (simp_all add: length_vec_list)
  obtain v' where v': "k = Some v'" "vec_list v' = vec_list v @ ?st"
    by (rule vb.emitsE [OF k(2) inv rm]) simp
  have "\<exists>k m'. 0 < k \<and> reaches im k m m'
      \<and> x86_at im (if cell s = 0 then i + length ?st + vlength body' else i + length ?st) s m'"
    if c: "code_at im i (?st @ vec_list body')" and at: "x86_at im j s m"
      and j: "j = i \<or> j = i + length ?st + ?n" for im i j s m
  proof -
    have c: "code_at im i ?st" "code_at im (i + length ?st + ?n) (end_bytes ?n)"
      using c length_vec_list [OF assms(1)] by (simp_all add: code_at_append b(3))
    from j show ?thesis
    proof
      assume "j = i"
      then have "x86_at im i s m" using at by simp
      from runs_start [OF this c(1)] show ?thesis unfolding bl .
    next
      assume "j = i + length ?st + ?n"
      then have "x86_at im (i + length ?st + ?n) s m" using at by simp
      from runs_end [OF this c(2) refl] show ?thesis unfolding bl add.assoc .
    qed
  qed
  then show ?thesis using b(1) k(1) v' by auto
qed

theorem loop_tests_land_witness:
  "\<exists>body' v' hd. emit_code_loop_end (heap_of 0 1) vec_init = Some (COMPILE_OK, body')
    \<and> emit_code_loop_start (heap_of 0 1) vec_init (vlength body') = Some (COMPILE_OK, v') \<and> vec_list v' = hd
    \<and> (length (hd @ vec_list body') < 2 ^ 31 \<longrightarrow>
        (\<exists>k m'. reaches (tiny_image (hd @ vec_list body')) k tiny_cpu m' \<and> eip m' = 0x1000 + of_nat (length hd)))"
proof -
  have room: "vlength (vec_init :: u8 vec) + 9 \<le> 1000" "vlength (vec_init :: u8 vec) < 2 ^ 31 - 9"
    by (simp_all add: length_fresh)
  from loop_tests_land [OF vec_init_ok(1) vec_init_ok(1) code_heap room(1) room(1) room(2)]
  obtain body' v' hd where e: "emit_code_loop_end (heap_of 0 1) vec_init = Some (COMPILE_OK, body')"
      "emit_code_loop_start (heap_of 0 1) vec_init (vlength body') = Some (COMPILE_OK, v')"
      "vec_list v' = vec_list vec_init @ hd"
    and run: "\<forall>im i j s m. code_at im i (hd @ vec_list body') \<longrightarrow> x86_at im j s m \<longrightarrow>
          j = i \<or> j = i + length hd + vlength (vec_init :: u8 vec) \<longrightarrow>
          (\<exists>k m'. 0 < k \<and> reaches im k m m'
            \<and> x86_at im (if cell s = 0 then i + length hd + vlength body' else i + length hd) s m')"
    by blast
  have "\<exists>k m'. reaches (tiny_image (hd @ vec_list body')) k tiny_cpu m' \<and> eip m' = 0x1000 + of_nat (length hd)"
    if "length (hd @ vec_list body') < 2 ^ 31"
    using run [rule_format, OF tiny_code [OF that] tiny_at [of "hd @ vec_list body'"]]
    by (auto simp: x86_at_def cell_def)
  then show ?thesis using e by auto
qed

end
