(* ===== verification/Compiled.thy ===== *)
theory Compiled
  imports Code_Sim
begin

text \<open>
  Compiled programs as a whole: \<open>ir_ctx_compile\<close> appends exactly \<open>program_bytes\<close> to the
  code buffer, a process running them ends with the output of the program and exit status
  0, and a source text without two adjacent commas compiles to operations the emitted code
  carries out in full.
\<close>

section \<open>Whole programs on the processor\<close>

text \<open>The text of a compiled program, and a process about to execute it.\<close>

definition program_bytes :: "ir_op_t prog list \<Rightarrow> u8 list" where
  "program_bytes q = [0xFF, 0xF7] @ code_bytes q @ exit_bytes 0"

lemma x86_run_exit:
  assumes at: "x86_at im i s m" and code: "code_at im i (exit_bytes w)"
  shows "\<exists>m'. (\<forall>k. x86_run im (3 + k) m = Done m') \<and> x86_at im (i + 12) s m' \<and> regs m' 3 = w"
proof -
  have eq: "exit_bytes w = (0xB8 # le32 1) @ (0xBB # le32 w) @ [0xCD, 0x80]"
    by (simp add: exit_bytes_def le32_small)
  note c = code [unfolded eq]
  have c1: "code_at im i (0xB8 # le32 1)" "code_at im (i + 5) (0xBB # le32 w)" "code_at im (i + 10) [0xCD, 0x80]"
    using c unfolding code_at_append by (simp_all add: add.assoc)
  have "\<exists>m1. reaches im 1 m m1 \<and> (x86_at im (i + 5) s m1 \<and> regs m1 0 = 1)"
    by (rule one_instr [OF at c1(1), of "MovRegImm 0 1"]) (simp_all add: decode_io x86_at_reg)
  then obtain m1 where m1: "reaches im 1 m m1" "x86_at im (i + 5) s m1" "regs m1 0 = 1" by blast
  have "\<exists>m2. reaches im 1 m1 m2 \<and> (x86_at im (i + 10) s m2 \<and> regs m2 0 = 1 \<and> regs m2 3 = w)"
    by (rule one_instr [OF m1(2) c1(2), of "MovRegImm 3 w"]) (simp_all add: decode_io x86_at_reg m1(3) add.commute [of _ i])
  then obtain m2 where m2: "reaches im 1 m1 m2" "x86_at im (i + 10) s m2" "regs m2 0 = 1" "regs m2 3 = w" by blast
  let ?m = "m2\<lparr>eip := text_base im + of_nat (i + 12)\<rparr>"
  obtain post where "drop (i + 10) (text_bytes im) = [0xCD, 0x80] @ post"
    using c1(3) by (auto simp: code_at_def)
  then have d: "decode (drop (i + 10) (text_bytes im)) = Some (Interrupt 0x80, 2)"
    by (simp add: decode_io)
  have "unat (of_nat (i + 10) :: u32) = i + 10"
    using code_at_end [OF c1(3)] by (intro unat_of_nat_small) simp
  then have "x86_step im m2 = Some (Inl ?m)"
    using d m2(2,3) by (simp add: x86_step_def x86_at_def syscall_def add.assoc)
  then have "x86_run im (Suc k) m2 = Done ?m" for k by simp
  moreover have "x86_run im (1 + (1 + Suc k)) m = x86_run im (Suc k) m2" for k
    using m1(1) m2(1) unfolding reaches_def by metis
  ultimately have "x86_run im (3 + k) m = Done ?m" for k
    by (simp add: numeral_3_eq_3)
  moreover have "x86_at im (i + 12) s ?m" using x86_at_eip [OF m2(2)] .
  ultimately show ?thesis using m2(4) by auto
qed

lemma x86_run_program:
  assumes at: "x86_at im i s m" and code: "code_at im i (program_bytes q)"
  shows "eval code_step f q s = Done t \<Longrightarrow>
      \<exists>n m'. (\<forall>k. x86_run im (n + k) m = Done m') \<and> sout m' = out t \<and> sin m' = inp t
        \<and> bss m' = cells t \<and> regs m' 3 = 0"
    and "eval code_step f q s = Timeout \<Longrightarrow> \<exists>n \<ge> f. x86_run im n m = Timeout"
proof -
  let ?j = "i + 2 + length (code_bytes q)"
  have c: "code_at im i [0xFF, 0xF7]" "code_at im (i + 2) (code_bytes q)" "code_at im ?j (exit_bytes 0)"
    using code unfolding program_bytes_def code_at_append by (simp_all add: eval_nat_numeral)
  have "\<exists>m1. reaches im 1 m m1 \<and> x86_at im (i + 2) s m1"
    by (rule one_instr [OF at c(1), of "Push (Reg 7)"]) (simp_all add: decode_io x86_at_def)
  then obtain m1 where m1: "reaches im 1 m m1" "x86_at im (i + 2) s m1" by blast
  note pl = x86_placed [OF c(2)]
  show "\<exists>n m'. (\<forall>k. x86_run im (n + k) m = Done m') \<and> sout m' = out t \<and> sin m' = inp t
        \<and> bss m' = cells t \<and> regs m' 3 = 0" if d: "eval code_step f q s = Done t"
  proof -
    obtain n m2 where m2: "\<forall>k. x86_run im (n + k) m1 = x86_run im k m2" "x86_at im ?j t m2"
      using xm.run_done [OF pl m1(2) d] by blast
    obtain m3 where m3: "\<forall>k. x86_run im (3 + k) m2 = Done m3" "x86_at im (?j + 12) t m3" "regs m3 3 = 0"
      using x86_run_exit [OF m2(2) c(3)] by blast
    have "x86_run im ((1 + (n + 3)) + k) m = Done m3" for k
      using m1(1) m2(1) m3(1) unfolding reaches_def by (metis add.assoc)
    then show ?thesis using m3(2,3) unfolding x86_at_def by blast
  qed
  show "\<exists>n \<ge> f. x86_run im n m = Timeout" if t: "eval code_step f q s = Timeout"
  proof -
    obtain n where "f \<le> n" "x86_run im n m1 = Timeout"
      using xm.run_timeout [OF pl m1(2) t] by blast
    then have "f \<le> 1 + n" "x86_run im (1 + n) m = Timeout"
      using m1(1) unfolding reaches_def by auto
    then show ?thesis by blast
  qed
qed

lemma x86_run_mono: "x86_run im n m \<noteq> Timeout \<Longrightarrow> x86_run im (n + k) m = x86_run im n m"
  by (induction n arbitrary: m) (auto split: option.splits sum.splits)

section \<open>Operations that the emitted code carries out in full\<close>

lemma eval_cong_prims:
  "all_prims P q \<Longrightarrow> (\<And>x. P x \<Longrightarrow> A x = B x) \<Longrightarrow> eval A f q s = eval B f q s"
  and eval_while_cong_prims:
  "all_prims P q \<Longrightarrow> (\<And>x. P x \<Longrightarrow> A x = B x) \<Longrightarrow> eval_while A f q s = eval_while B f q s"
proof (induction A f q s and A f q s rule: eval_eval_while.induct)
  case (2 st f c p s)
  then show ?case by (cases "B c s") auto
next
  case (3 st f b p s)
  then show ?case by (auto intro: then_do_cong)
next
  case (4 st f b s)
  then show ?case by (auto simp: eval_while.simps intro!: then_do_cong split: nat.split)
qed simp

section \<open>The compiler emits the program\<close>

lemma ir_ctx_compile_flat:
  assumes ir: "vec_ok ir" "vec_list ir = flat q" and Ai: "roomy Ai ilim" "vlength ir < ilim"
    and A: "roomy A lim" "vlength ir < lim" and v: "vec_ok v" "vlength v + length (program_bytes q) \<le> lim"
    and q: "all_prims plain_op q" "length (code_bytes q) < 2 ^ 31 - 9"
  shows "\<exists>c ir'. ir_ctx_compile Ai A v ir = Some (True, c, ir') \<and> vec_ok c
    \<and> vec_list c = vec_list v @ program_bytes q"
proof -
  obtain ir' where ir': "vec_push Ai ir (mk_op IR_OP_MAX 0) = Some (RC_OK, ir')" "vec_ok ir'"
      "vec_list ir' = flat q @ [mk_op IR_OP_MAX 0]"
    using vec_push_roomy [of ir Ai ilim "mk_op IR_OP_MAX 0"] ir Ai by auto
  have len: "vlength ir' = length (flat q) + 1" "vlength ir = length (flat q)"
    using length_vec_list [OF ir'(2)] ir'(3) length_vec_list [OF ir(1)] ir(2) by simp_all
  have vl: "length (vec_list v) = vlength v" using v(1) by (rule length_vec_list)
  have size: "vlength v + 2 + length (code_bytes q) + 12 \<le> lim"
    using v(2) by (simp add: program_bytes_def exit_bytes_def)
  have "vlength v + length [0xFF, 0xF7 :: u8] \<le> lim" using size by simp
  then obtain c1 where c1: "ctx_push_code A v [0xFF, mod_rm MODE_REG_DIRECT 6 SP_REG] = Some c1"
      "vec_ok c1" "vec_list c1 = vec_list v @ [0xFF, 0xF7]"
    using vec_pusharr_roomy [OF v(1) A(1), of "[0xFF, 0xF7]"] by (auto simp: ctx_push_code_def reg_simps)
  have c1l: "vlength c1 = vlength v + 2" using length_vec_list [OF c1(2)] c1(3) vl by simp
  have irl: "vlength ir' \<le> lim" using len A(2) by simp
  have room: "vlength c1 + length (code_bytes q) \<le> lim" using c1l size by simp
  obtain c2 where c2: "compile_from A c1 ir' 0 = compile_from A c2 ir' (length (flat q))" "vec_ok c2"
      "vec_list c2 = vec_list c1 @ code_bytes q"
    using compile_from_flat [OF ir'(2) irl A(1) q c1(2) room, of "[]" "[mk_op IR_OP_MAX 0]"] ir'(3) by auto
  have c2l: "vlength c2 = vlength v + 2 + length (code_bytes q)"
    using length_vec_list [OF c2(2)] c2(3) c1(3) vl by simp
  have get: "vec_get ir' (length (flat q)) = Some (mk_op IR_OP_MAX 0)"
    using len by (simp add: vec_get_ok [OF ir'(2)] ir'(3))
  have small: "\<not> too_big (arg (mk_op IR_OP_MAX 0))" by (simp add: too_big_def)
  obtain k where k: "emit_code_exit A c2 ir' (length (flat q)) = emitted k" "emits_in A lim c2 (exit_bytes 0) k"
    using emit_exit_bytes [OF get small, of A lim c2] unfolding emits_ok_def by auto
  have inv: "vec_ok c2 \<and> roomy A lim" using c2(2) A by simp
  have rm: "length (vec_list c2) + length (exit_bytes 0) \<le> lim"
    using c2l size length_vec_list [OF c2(2)] by (simp add: exit_bytes_def)
  obtain c3 where c3: "k = Some c3" "vec_ok c3" "vec_list c3 = vec_list c2 @ exit_bytes 0"
    by (rule vb.emitsE [OF k(2) inv rm]) simp
  have "compile_from A c2 ir' (length (flat q)) = compile_from A c3 ir' (length (flat q) + 1)"
    using compile_from_op [OF get, of A c2 c3] k(1) c3(1) len by simp
  also have "\<dots> = Some (COMPILE_OK, c3)" using len by (subst compile_from.simps) simp
  finally have "ir_ctx_compile Ai A v ir = Some (True, c3, ir')"
    using ir'(1) c1(1) c2(1) by (simp add: ir_ctx_compile_def)
  then show ?thesis using c3(2,3) c2(3) c1(3) by (simp add: program_bytes_def)
qed

section \<open>Sources without adjacent commas\<close>

definition single_reads :: "string \<Rightarrow> bool" where
  "single_reads src \<longleftrightarrow> successively (\<lambda>a b. a \<noteq> CHR '','' \<or> b \<noteq> CHR '','') src"

lemma single_reads_drop: "single_reads src \<Longrightarrow> single_reads (drop n src)"
proof (induction n arbitrary: src)
  case (Suc n)
  then show ?case by (cases src) (auto simp: single_reads_def successively_Cons)
qed simp

lemma single_reads_count: "single_reads src \<Longrightarrow> hd src = CHR '','' \<Longrightarrow> count_char src (CHR '','') = 1"
  by (cases src rule: remdups_adj.cases) (auto simp: single_reads_def count_char_def)

lemma switch_l_full:
  assumes "switch_l ops ps c n = Some (ops', ps', adv)" and "c = CHR '','' \<Longrightarrow> n = 1"
    and "\<forall>x \<in> set ops. compiles_fully x"
  shows "\<forall>x \<in> set ops'. compiles_fully x"
proof -
  have merge: "\<forall>x \<in> set (merge_l ops k v). compiles_fully x" if "k = IR_OP_CELL \<or> k = IR_OP_TAPE" for k v
    using that assms(3) by (auto simp: merge_l_def compiles_fully_def dest: in_set_butlastD)
  then show ?thesis
    using assms
    by (auto simp: switch_l_def compiles_fully_def Let_def split: if_splits list.splits
        dest!: set_update_subset_insert [THEN subsetD])
qed

lemma parse_l_full:
  "parse_l ops ps src = Some (ops', ps') \<Longrightarrow> single_reads src \<Longrightarrow> \<forall>x \<in> set ops. compiles_fully x
   \<Longrightarrow> \<forall>x \<in> set ops'. compiles_fully x"
proof (induction ops ps src rule: parse_l.induct)
  case (1 ops ps src)
  show ?case
  proof (cases "src = []")
    case True
    then show ?thesis using "1.prems" by (simp add: parse_l.simps)
  next
    case False
    then obtain o1 p1 adv where s: "switch_l ops ps (hd src) (count_char src (hd src)) = Some (o1, p1, adv)"
        and r: "parse_l o1 p1 (drop adv src) = Some (ops', ps')"
      using "1.prems" by (auto simp: parse_l.simps [of _ _ src] bind_eq_Some_conv)
    have "\<forall>x \<in> set o1. compiles_fully x"
      using switch_l_full [OF s] single_reads_count "1.prems"(2,3) by metis
    then show ?thesis
      using "1.IH" [OF False s refl refl r] single_reads_drop "1.prems"(2) by blast
  qed
qed

lemma all_prims_flat: "\<forall>x \<in> set (flat q). P x \<Longrightarrow> all_prims P q"
  by (induction q rule: flat.induct) (auto simp: Let_def)

section \<open>How long the code of a source can be\<close>

text \<open>No character of the source costs more than the 19 bytes of a system call.\<close>

definition op_cost :: "ir_op_t \<Rightarrow> nat" where
  "op_cost x = (if kind x = IR_OP_WRITE then 19 * max 1 (nat (sint (arg x))) else 19)"

abbreviation cost :: "ir_op_t list \<Rightarrow> nat" where
  "cost ops \<equiv> sum_list (map op_cost ops)"

lemma op_cost_ge: "19 \<le> op_cost x"
  by (simp add: op_cost_def)

lemma op_cost_eq: "kind x \<noteq> IR_OP_WRITE \<Longrightarrow> op_cost x = 19"
  by (simp add: op_cost_def)

lemma cost_update: "op_cost x = 19 \<Longrightarrow> cost (ops[i := x]) \<le> cost ops"
  by (induction ops arbitrary: i) (auto simp: op_cost_ge split: nat.split)

lemma cost_merge: "k \<noteq> IR_OP_WRITE \<Longrightarrow> cost (merge_l ops k v) \<le> cost ops + 19"
  by (cases ops rule: rev_cases) (auto simp: merge_l_def op_cost_def)

lemma switch_l_cost:
  assumes "switch_l ops ps c n = Some (ops', ps', adv)" and "1 \<le> n" and "n < 2 ^ 63"
  shows "cost ops' \<le> cost ops + 19 * adv"
proof -
  have m: "cost (merge_l ops k v) \<le> cost ops + 19 * n" if "k \<noteq> IR_OP_WRITE" for k v
    using cost_merge [OF that, of ops v] assms(2) by linarith
  have w: "op_cost (mk_op IR_OP_WRITE (of_nat n)) = 19 * n"
    using assms(2,3) by (simp add: op_cost_def sint_of_nat)
  show ?thesis
    using assms(1,2) m w
    by (auto simp: switch_l_def Let_def op_cost_eq split: if_splits list.splits
        intro!: cost_update)
qed

lemma count_char_le: "src \<noteq> [] \<Longrightarrow> count_char src c \<le> length src"
  by (cases src) (auto simp: count_char_def intro: length_takeWhile_le)

lemma switch_l_adv: "switch_l ops ps c n = Some (ops', ps', adv) \<Longrightarrow> 1 \<le> n \<Longrightarrow> adv \<le> n"
  by (auto simp: switch_l_def Let_def split: if_splits list.splits)

lemma parse_l_cost:
  "parse_l ops ps src = Some (ops', ps') \<Longrightarrow> length src < 2 ^ 63 \<Longrightarrow> cost ops' \<le> cost ops + 19 * length src"
proof (induction ops ps src rule: parse_l.induct)
  case (1 ops ps src)
  show ?case
  proof (cases "src = []")
    case True
    then show ?thesis using "1.prems" by (simp add: parse_l.simps)
  next
    case False
    then obtain o1 p1 adv where s: "switch_l ops ps (hd src) (count_char src (hd src)) = Some (o1, p1, adv)"
        and r: "parse_l o1 p1 (drop adv src) = Some (ops', ps')"
      using "1.prems" by (auto simp: parse_l.simps [of _ _ src] bind_eq_Some_conv)
    have n: "count_char src (hd src) \<le> length src" "1 \<le> count_char src (hd src)"
      using count_char_le [OF False] by (simp_all add: count_char_def)
    then have "adv \<le> length src" and "cost o1 \<le> cost ops + 19 * adv"
      using switch_l_adv [OF s n(2)] switch_l_cost [OF s n(2)] "1.prems"(2) by simp_all
    moreover have "cost ops' \<le> cost o1 + 19 * length (drop adv src)"
      using "1.IH" [OF False s refl refl r] "1.prems"(2) by simp
    ultimately show ?thesis by simp
  qed
qed

lemma length_add_sub: "length (add_sub_bytes mode w) \<le> 8"
  by (simp add: add_sub_bytes_def Let_def)

lemma length_io: "length (io_bytes nr fd) = 19"
  by (simp add: io_bytes_def)

lemma length_op_bytes: "length (op_bytes x) \<le> op_cost x"
  using length_add_sub [of MODE_REG_DIRECT "arg x"] length_add_sub [of MODE_REG_INDIRECT "arg x"]
  by (auto simp: op_bytes_def op_cost_def length_io length_concat sum_list_replicate exit_bytes_def
      split: ir_op_kind.split)

lemma length_tests: "length (start_bytes n) \<le> 9" "length (end_bytes n) \<le> 9"
  by (simp_all add: start_bytes_def end_bytes_def)

lemma length_code_bytes: "length (code_bytes q) \<le> cost (flat q)"
proof (induction q rule: flat.induct)
  case (2 x p)
  then show ?case using length_op_bytes [of x] by simp
next
  case (3 b p)
  then show ?case
    using length_tests(1) [of "length (code_bytes b) + length (end_bytes (length (code_bytes b)))"]
      length_tests(2) [of "length (code_bytes b)"]
    by (simp add: Let_def op_cost_eq)
qed simp

section \<open>From source text to process\<close>

lemma fits_plain: "fits K x \<Longrightarrow> K < 2 ^ 31 \<Longrightarrow> plain_op x"
  by (auto simp: fits_def plain_op_def too_big_def)

lemma fresh_list: "vec_list ir_ctx_init = []" "patch ir_ctx_init = []"
  by simp_all

text \<open>
  The parser's result compiles to the bytes of a program that agrees with the source, as
  long as the two vectors can grow to the size of the operations and of the code.
\<close>

lemma compile_source:
  assumes src: "bf_syntax src p" "single_reads src" and Ai: "roomy Ai ilim" "length src < ilim"
    and A: "roomy A lim" "vlength v + 19 * length src + 14 \<le> lim" "19 * length src < 2 ^ 31 - 9"
    and v: "vec_ok v"
  shows "\<exists>ir c ir' q. ir_ctx_parse Ai ir_ctx_init src = Some (0, ir)
    \<and> ir_ctx_compile Ai A v ir = Some (True, c, ir') \<and> vec_ok c
    \<and> vec_list c = vec_list v @ program_bytes q \<and> length (program_bytes q) \<le> 19 * length src + 14
    \<and> agrees bf_step p code_step q"
proof -
  obtain ir q where ir: "ir_ctx_parse Ai ir_ctx_init src = Some (0, ir)" "ctx_ok ir"
      "vlength ir \<le> length src" "vec_list ir = flat q" "agrees bf_step p ir_step q"
      "all_prims (fits (length src)) q"
    using parse_syntax [OF src(1) Ai(1)] Ai(2) by auto
  have l: "parse_l [] [] src = Some (flat q, patch ir)"
    using ir_ctx_parse_list [of ir_ctx_init Ai ilim src] ir(1,4) Ai by (auto split: option.splits)
  have len: "length (code_bytes q) \<le> 19 * length src"
    using length_code_bytes [of q] parse_l_cost [OF l] A(3) by simp
  have full: "all_prims compiles_fully q"
    using parse_l_full [OF l src(2)] by (intro all_prims_flat) simp
  have plain: "all_prims plain_op q"
    using A(3) by (intro all_prims_mono [OF ir(6)] fits_plain [of "length src"]) simp_all
  have size: "length (program_bytes q) = length (code_bytes q) + 14"
    by (simp add: program_bytes_def exit_bytes_def)
  have "vec_ok ir" using ir(2) by (simp add: ctx_ok_def)
  moreover have "vlength ir < ilim" "vlength ir < lim" using ir(3) Ai A by simp_all
  moreover have "vlength v + length (program_bytes q) \<le> lim" "length (code_bytes q) < 2 ^ 31 - 9"
    using len size A(2,3) by simp_all
  ultimately obtain c ir' where c: "ir_ctx_compile Ai A v ir = Some (True, c, ir')" "vec_ok c"
      "vec_list c = vec_list v @ program_bytes q"
    using ir_ctx_compile_flat [OF _ ir(4) Ai(1) _ A(1) _ v _ plain] by blast
  have "eval code_step f q s = eval ir_step f q s" for f s
    by (rule eval_cong_prims [OF full]) (rule code_step_full)
  then have "agrees bf_step p code_step q" using ir(5) by (simp add: agrees_def)
  then show ?thesis using ir(1) c size len by auto
qed

section \<open>Properties\<close>

text \<open>
  C21: \<open>ir_ctx_compile\<close> succeeds on the operations of any structured program whose operands
  fit 32 bits and whose code fits 31 bits, and appends to the buffer exactly the push of the
  data address, the code of the program with both tests of every loop, and the exit call.
\<close>
theorem compiler_emits_program:
  assumes "vec_ok ir" and "vec_list ir = flat q" and "roomy Ai ilim" and "vlength ir < ilim"
    and "roomy A lim" and "vlength ir < lim" and "vec_ok v" and "vlength v + length (program_bytes q) \<le> lim"
    and "all_prims plain_op q" and "length (code_bytes q) < 2 ^ 31 - 9"
  shows "\<exists>c ir'. ir_ctx_compile Ai A v ir = Some (True, c, ir') \<and> vec_ok c
    \<and> vec_list c = vec_list v @ program_bytes q"
  using assms by (rule ir_ctx_compile_flat)

theorem compiler_emits_program_witness:
  "\<exists>c ir'. ir_ctx_compile ops_heap (heap_of 0 1) vec_init
      \<lparr>borrowed = False, vlength = 1, vcapacity = 1, vdata = [mk_op IR_OP_CELL 1], patch = []\<rparr>
      = Some (True, c, ir')
    \<and> vec_list c = [0xFF, 0xF7, 0xFE, 0x07, 0xB8, 0x01, 0, 0, 0, 0xBB, 0, 0, 0, 0, 0xCD, 0x80]"
proof -
  let ?q = "[Prim (mk_op IR_OP_CELL 1)]"
  let ?ir = "\<lparr>borrowed = False, vlength = 1, vcapacity = 1, vdata = [mk_op IR_OP_CELL 1], patch = []\<rparr> :: ir_ctx"
  have b: "program_bytes ?q = [0xFF, 0xF7, 0xFE, 0x07, 0xB8, 0x01, 0, 0, 0, 0xBB, 0, 0, 0, 0, 0xCD, 0x80]"
    by (simp add: program_bytes_def op_bytes_def add_sub_bytes_def exit_bytes_def le32_def)
  have A: "roomy (heap_of (0 :: u8) 1) 1000" by (rule roomy_heap) simp_all
  have ir: "vec_ok ?ir" "vec_list ?ir = flat ?q" "vlength ?ir < 1000"
    by (simp_all add: vec_ok_def vec_list_def)
  have v: "vec_ok (vec_init :: u8 vec)" "vlength (vec_init :: u8 vec) + length (program_bytes ?q) \<le> 1000"
    unfolding b by (simp_all add: vec_ok_def vec_init_def)
  have q: "all_prims plain_op ?q" "length (code_bytes ?q) < 2 ^ 31 - 9"
    by (simp_all add: plain_op_def too_big_def op_bytes_def add_sub_bytes_def)
  from compiler_emits_program [OF ir(1,2) roomy_ops ir(3) A ir(3) v q] show ?thesis
    unfolding b by auto
qed

end
