(* ===== verification/Vec_Ops.thy ===== *)
theory Vec_Ops
  imports Vec
begin

text \<open>
  The operations of \<open>csrc/include/rxi/vec.h\<close> the compiler itself does not call: insertion
  and removal in the middle, search, reversal, compaction.  Each is related to the list
  function a caller expects, with the conditions under which the C code really computes it.
\<close>

section \<open>Inserting and removing\<close>

lemma vec_set_each_ok:
  assumes "vec_ok v" and "i + length xs \<le> vlength v"
  shows "\<exists>v'. vec_set_each v i xs = Some v' \<and> vec_ok v' \<and> vec.more v' = vec.more v
    \<and> vlength v' = vlength v
    \<and> vec_list v' = take i (vec_list v) @ xs @ drop (i + length xs) (vec_list v)"
  using assms
proof (induction xs arbitrary: v i)
  case Nil
  then show ?case by simp
next
  case (Cons x xs)
  then have "i < vlength v" by simp
  from vec_set_ok [OF Cons.prems(1) this, of x] obtain w where w: "vec_set v i x = Some w"
      "vec_ok w" "vec_list w = (vec_list v)[i := x]" "vlength w = vlength v" "vec.more w = vec.more v"
    by blast
  moreover obtain v' where "vec_set_each w (i + 1) xs = Some v'" "vec_ok v'"
      "vec.more v' = vec.more w" "vlength v' = vlength w"
      "vec_list v' = take (i + 1) (vec_list w) @ xs @ drop (i + 1 + length xs) (vec_list w)"
    using Cons.IH [OF w(2), of "i + 1"] Cons.prems(2) w(4) by auto
  moreover have "i < length (vec_list v)"
    using Cons.prems by (simp add: length_vec_list)
  ultimately show ?case by (simp add: take_update_append)
qed

lemma vec_insertarr_in_capacity:
  assumes v: "vec_ok v" and cap: "vlength v + length arr \<le> vcapacity v" "vlength v < vcapacity v"
    and idx: "idx \<le> vlength v"
  shows "\<exists>v'. vec_insertarr A v idx arr = Some v' \<and> vec_ok v'
    \<and> vec_list v' = take idx (vec_list v) @ arr @ drop idx (vec_list v)"
proof -
  let ?d = "take (idx + length arr) (vdata v) @ take (vlength v - idx) (drop idx (vdata v))
      @ drop (vlength v + length arr) (vdata v)"
  let ?w = "v\<lparr>vdata := ?d, vlength := vlength v + length arr\<rparr>"
  have "vec_insert_gap A v idx (length arr) = Some (RC_OK, v\<lparr>vdata := ?d\<rparr>)"
    using v cap idx
    by (simp add: vec_insert_gap_def vec_expand_def vec_ok_def memmove_def add.commute)
  then have "vec_insertarr A v idx arr = vec_set_each ?w idx arr"
    by (simp add: vec_insertarr_def)
  moreover have w: "vec_ok ?w" using v cap idx by (simp add: vec_ok_def)
  moreover have "take idx (vec_list ?w) = take idx (vec_list v)"
    using v cap idx by (simp add: vec_list_def vec_ok_def min_def)
  moreover have "drop (idx + length arr) (vec_list ?w) = drop idx (vec_list v)"
    using v cap idx by (simp add: vec_list_def vec_ok_def drop_take)
  ultimately show ?thesis
    using vec_set_each_ok [OF w, of idx arr] idx by auto
qed

lemma vec_insertarr_few_slots:
  assumes "vec_ok v" and "vlength v < vcapacity v" and "idx \<le> vlength v" and "vcapacity v < vlength v + length arr"
  shows "vec_insertarr A v idx arr = None"
  using assms
  by (simp add: vec_insertarr_def vec_insert_gap_def vec_expand_def vec_ok_def memmove_def)

lemma vec_set_each_in_block: "i + length xs \<le> length (vdata v) \<Longrightarrow> vec_set_each v i xs \<noteq> None"
proof (induction xs arbitrary: v i)
  case (Cons x xs)
  then have s: "vec_set v i x = Some (v\<lparr>vdata := (vdata v)[i := x]\<rparr>)" by (simp add: vec_set_def store_def)
  have "vec_set_each (v\<lparr>vdata := (vdata v)[i := x]\<rparr>) (i + 1) xs \<noteq> None" using Cons.prems by (intro Cons.IH) simp
  then show ?case by (simp add: s)
qed simp

text \<open>A full vector: the block is doubled with the size of the whole array as the element size.\<close>

lemma vec_insertarr_full:
  assumes v: "vec_ok v" "vlength v = vcapacity v" and idx: "idx \<le> vlength v" and arr: "arr \<noteq> []"
    and A: "0 < memsz A" "2 * (vcapacity v + 1) * (memsz A * length arr) < size_max"
  shows "vec_insertarr A v idx arr \<noteq> None"
proof -
  define n where "n = (if vcapacity v = 0 then 1 else 2 * vcapacity v)"
  let ?c = "length arr" and ?m = "n * length arr"
  have n: "n \<le> 2 * (vcapacity v + 1)" by (simp add: n_def)
  have c: "0 < ?c" using arr by simp
  have b: "n * (memsz A * ?c) \<le> 2 * (vcapacity v + 1) * (memsz A * ?c)" using n by (rule mult_le_mono1)
  then have bytes: "(n * (memsz A * ?c)) mod size_max = n * (memsz A * ?c)" using A(2) by simp
  have "1 \<le> memsz A * ?c" using A(1) c by (simp add: Suc_le_eq)
  then have "2 * (vcapacity v + 1) * 1 \<le> 2 * (vcapacity v + 1) * (memsz A * ?c)" by (rule mult_le_mono2)
  then have "2 * vcapacity v \<le> 2 * (vcapacity v + 1) * (memsz A * ?c)" by (rule le_trans [rotated]) simp
  then have wrap: "(2 * vcapacity v) mod size_max = 2 * vcapacity v" using A(2) by simp
  have div: "n * (memsz A * ?c) div memsz A = ?m" using A(1) by (simp add: mult.left_commute)
  have big: "vcapacity v + ?c \<le> ?m"
  proof (cases "vcapacity v")
    case (Suc k)
    then have "?m = 2 * ?c + 2 * k * ?c" by (simp add: n_def algebra_simps)
    moreover have "k \<le> k * ?c" using c by (simp add: Suc_le_eq)
    ultimately show ?thesis using Suc c by linarith
  qed (simp add: n_def)
  show ?thesis
  proof (cases "avail A (n * (memsz A * ?c))")
    case True
    let ?d = "vdata v @ map (junk A) [vcapacity v..<?m]"
    let ?w = "v\<lparr>vdata := ?d, vcapacity := n\<rparr>"
    have ld: "length (vdata v) = vcapacity v" "\<not> borrowed v" "vlength v = vcapacity v" using v by (simp_all add: vec_ok_def)
    have l: "length ?d = ?m" using big ld by simp
    have e: "vec_expand A ?c v = (RC_OK, ?w)"
      using True big ld unfolding vec_expand_def vec_grow_def wrap n_def [symmetric] bytes div Let_def
      by simp
    obtain d' where d': "memmove ?d (idx + ?c) idx (vlength v - idx) = Some d'" "length d' = ?m"
      using idx big ld l by (auto simp: memmove_def)
    have "vec_insert_gap A v idx ?c = Some (RC_OK, ?w\<lparr>vdata := d'\<rparr>)"
      unfolding vec_insert_gap_def e using d'(1) idx by simp
    moreover have "vec_set_each (?w\<lparr>vdata := d', vlength := vlength v + ?c\<rparr>) idx arr \<noteq> None"
      using idx big ld d'(2) by (intro vec_set_each_in_block) simp
    ultimately show ?thesis by (simp add: vec_insertarr_def)
  next
    case False
    then have "vec_expand A ?c v = (RC_ERR, v)"
      using v unfolding vec_expand_def vec_grow_def wrap n_def [symmetric] bytes Let_def by simp
    then show ?thesis by (simp add: vec_insertarr_def vec_insert_gap_def)
  qed
qed

lemma vec_splice_ok:
  assumes "vec_ok v" and "start + count \<le> vlength v"
  shows "\<exists>v'. vec_splice v start count = Some v' \<and> vec_ok v'
    \<and> vec_list v' = take start (vec_list v) @ drop (start + count) (vec_list v)"
proof -
  obtain k where k: "vlength v = start + count + k"
    using assms(2) le_Suc_ex by blast
  with assms show ?thesis
    by (auto simp: vec_splice_def vec_ok_def vec_list_def memmove_def drop_take)
qed

lemma vec_swapsplice_ok:
  assumes v: "vec_ok v" and fit: "start + 2 * count \<le> vlength v"
  shows "\<exists>v'. vec_swapsplice v start count = Some v' \<and> vec_ok v'
    \<and> vec_list v' = take start (vec_list v) @ drop (vlength v - count) (vec_list v)
        @ take (vlength v - start - 2 * count) (drop (start + count) (vec_list v))"
proof -
  obtain k where k: "vlength v = start + 2 * count + k"
    using fit le_Suc_ex by blast
  let ?d = "take start (vdata v) @ take count (drop (vlength v - count) (vdata v))
      @ drop (start + count) (vdata v)"
  have len: "vlength v \<le> length (vdata v)" using v by (simp add: vec_ok_def)
  have e: "vec_swapsplice v start count = Some (v\<lparr>vdata := ?d, vlength := vlength v - count\<rparr>)"
    using len k by (simp add: vec_swapsplice_def memmove_def)
  have "take (vlength v - count) ?d = take start (vdata v) @ take count (drop (vlength v - count) (vdata v))
      @ take k (drop (start + count) (vdata v))"
    using len k by simp
  moreover have "take start (vec_list v) = take start (vdata v)"
    "drop (vlength v - count) (vec_list v) = take count (drop (vlength v - count) (vdata v))"
    "take k (drop (start + count) (vec_list v)) = take k (drop (start + count) (vdata v))"
    using k by (simp_all add: vec_list_def drop_take)
  moreover have "vlength v - start - 2 * count = k" using k by simp
  moreover have "vec_ok (v\<lparr>vdata := ?d, vlength := vlength v - count\<rparr>)"
    using v k by (auto simp: vec_ok_def min_def)
  ultimately show ?thesis unfolding e by (simp add: vec_list_def)
qed

section \<open>Swapping and reversing\<close>

lemma vec_swap_ok:
  assumes "vec_ok v" and "i < vlength v" and "j < vlength v"
  shows "\<exists>v'. vec_swap v i j = Some v' \<and> vec_ok v' \<and> vlength v' = vlength v
    \<and> vec_list v' = (vec_list v)[i := vec_list v ! j, j := vec_list v ! i]"
proof (cases "i = j")
  case True
  then show ?thesis using assms by (auto simp: vec_swap_def length_vec_list)
next
  case False
  obtain w where w: "vec_set v i (vec_list v ! j) = Some w" "vec_ok w"
      "vec_list w = (vec_list v)[i := vec_list v ! j]" "vlength w = vlength v"
    using vec_set_ok [OF assms(1,2)] by blast
  then obtain u where "vec_set w j (vec_list v ! i) = Some u" "vec_ok u"
      "vec_list u = (vec_list w)[j := vec_list v ! i]" "vlength u = vlength w"
    using vec_set_ok [of w j] assms(3) by metis
  then show ?thesis
    using False w assms by (auto simp: vec_swap_def vec_get_ok)
qed

text \<open>Swapping the ends \<open>i < n\<close> of the middle part, outermost last.\<close>

lemma rev_swap_step:
  assumes "i < length xs div 2"
  defines "m \<equiv> length xs - (i + 1)"
  shows "take i (xs[i := xs ! m, m := xs ! i]) = take i xs"
    and "drop (m + 1) (xs[i := xs ! m, m := xs ! i]) = drop (m + 1) xs"
  using assms(1) by (auto simp: m_def)

lemma vec_reverse_loop_ok:
  assumes "vec_ok v" and "n \<le> vlength v div 2"
  shows "\<exists>v'. vec_reverse_loop v n = Some v' \<and> vec_ok v' \<and> vlength v' = vlength v
    \<and> (\<forall>k < vlength v. vec_list v' ! k
        = (if k < n \<or> vlength v - n \<le> k then vec_list v ! (vlength v - 1 - k) else vec_list v ! k))"
  using assms
proof (induction n arbitrary: v)
  case 0
  then show ?case by simp
next
  case (Suc n)
  let ?m = "vlength v - (n + 1)"
  have b: "n < vlength v" "?m < vlength v" "n < ?m \<or> n = ?m" "n < vlength v div 2"
    using Suc.prems(2) by auto
  have L: "length (vec_list v) = vlength v" using Suc.prems(1) by (rule length_vec_list)
  obtain w where w: "vec_swap v n ?m = Some w" "vec_ok w" "vlength w = vlength v"
      "vec_list w = (vec_list v)[n := vec_list v ! ?m, ?m := vec_list v ! n]"
    using vec_swap_ok [OF Suc.prems(1) b(1,2)] by blast
  have "n \<le> vlength w div 2" using w(3) b(4) by simp
  then obtain v' where v': "vec_reverse_loop w n = Some v'" "vec_ok v'" "vlength v' = vlength w"
      "\<forall>k < vlength w. vec_list v' ! k
        = (if k < n \<or> vlength w - n \<le> k then vec_list w ! (vlength w - 1 - k) else vec_list w ! k)"
    using Suc.IH [OF w(2)] by blast
  have "vec_list v' ! k = (if k < Suc n \<or> vlength v - Suc n \<le> k
      then vec_list v ! (vlength v - 1 - k) else vec_list v ! k)" if k: "k < vlength v" for k
  proof -
    have wl: "vec_list w ! j = (if j = ?m then vec_list v ! n
        else if j = n then vec_list v ! ?m else vec_list v ! j)" if "j < vlength v" for j
      using that b(1,2) L unfolding w(4) by (simp add: nth_list_update)
    have e: "vec_list v' ! k
        = (if k < n \<or> vlength v - n \<le> k then vec_list w ! (vlength v - 1 - k) else vec_list w ! k)"
      using v'(4) w(3) k by simp
    consider "k < n \<or> vlength v - n \<le> k" | "k = n" | "k = ?m" "k \<noteq> n" | "n < k" "k < ?m"
      using k by linarith
    then show ?thesis
    proof cases
      case 1
      then have "vlength v - 1 - k < vlength v" "vlength v - 1 - k \<noteq> n" "vlength v - 1 - k \<noteq> ?m"
        using b k by auto
      then show ?thesis using 1 e wl by auto
    next
      case 2
      then have "\<not> vlength v - n \<le> k" "vlength v - 1 - k = ?m" using b by auto
      then show ?thesis using 2 e wl [OF k] b(3) by auto
    next
      case 3
      then have "\<not> vlength v - n \<le> k" "vlength v - 1 - k = n" "\<not> k < n" "vlength v - Suc n \<le> k"
        using b by auto
      then show ?thesis using 3 e wl [OF k] by simp
    next
      case 4
      then have "\<not> (k < n \<or> vlength v - n \<le> k)" "\<not> (k < Suc n \<or> vlength v - Suc n \<le> k)" by auto
      then show ?thesis using 4 e wl [OF k] by simp
    qed
  qed
  then show ?case using w(1,3) v' by simp
qed

lemma vec_reverse_counter: "vlength v < 2 ^ 32 \<Longrightarrow> vec_reverse v = vec_reverse_loop v (vlength v div 2)"
  by (simp add: vec_reverse_def signed_of_nat signed_take_bit_int_eq_self)

lemma vec_reverse_rev:
  assumes "vec_ok v" and "vlength v < 2 ^ 32"
  shows "\<exists>v'. vec_reverse v = Some v' \<and> vec_ok v' \<and> vec_list v' = rev (vec_list v)"
proof -
  obtain v' where v': "vec_reverse v = Some v'" "vec_ok v'" "vlength v' = vlength v"
      "\<forall>k < vlength v. vec_list v' ! k = (if k < vlength v div 2 \<or> vlength v - vlength v div 2 \<le> k
          then vec_list v ! (vlength v - 1 - k) else vec_list v ! k)"
    using vec_reverse_loop_ok [OF assms(1) le_refl] unfolding vec_reverse_counter [OF assms(2)] by blast
  have "vec_list v' = rev (vec_list v)"
  proof (rule nth_equalityI)
    show "length (vec_list v') = length (rev (vec_list v))"
      using v'(2,3) assms(1) by (simp add: length_vec_list)
    fix k assume "k < length (vec_list v')"
    then have k: "k < vlength v" using v'(2,3) by (simp add: length_vec_list)
    moreover have "k = vlength v - 1 - k" if "\<not> k < vlength v div 2" "\<not> vlength v - vlength v div 2 \<le> k"
      using that k by linarith
    ultimately show "vec_list v' ! k = rev (vec_list v) ! k"
      using v'(4) assms(1) by (auto simp: rev_nth length_vec_list)
  qed
  then show ?thesis using v' by blast
qed

section \<open>Searching\<close>

lemma vec_find_from_ok:
  assumes "vec_ok v" and "i \<le> vlength v"
  shows "vec_find_from v x i = Some (if x \<in> set (drop i (vec_list v))
    then Some (i + length (takeWhile (\<lambda>y. y \<noteq> x) (drop i (vec_list v)))) else None)"
  using assms(2)
proof (induction "vlength v - i" arbitrary: i)
  case 0
  then show ?case using assms(1) by (simp add: vec_find_from.simps [of v x i] length_vec_list)
next
  case (Suc k)
  then have i: "i < vlength v" by simp
  then have d: "drop i (vec_list v) = vec_list v ! i # drop (Suc i) (vec_list v)"
    using assms(1) by (simp add: Cons_nth_drop_Suc length_vec_list)
  have "vec_find_from v x (Suc i) = Some (if x \<in> set (drop (Suc i) (vec_list v))
    then Some (Suc i + length (takeWhile (\<lambda>y. y \<noteq> x) (drop (Suc i) (vec_list v)))) else None)"
    using Suc i by (intro Suc.hyps) simp_all
  then show ?case
    using i assms(1) unfolding d by (simp add: vec_find_from.simps [of v x i] vec_get_ok)
qed

lemma vec_find_ok:
  "vec_ok v \<Longrightarrow> vec_find v x = Some (if x \<in> set (vec_list v)
     then Some (length (takeWhile (\<lambda>y. y \<noteq> x) (vec_list v))) else None)"
  using vec_find_from_ok [of v 0 x] by (simp add: vec_find_def)

lemma remove1_split:
  "x \<in> set xs \<Longrightarrow> k = length (takeWhile (\<lambda>y. y \<noteq> x) xs) \<Longrightarrow>
   k < length xs \<and> take k xs @ drop (k + 1) xs = remove1 x xs"
  by (induction xs arbitrary: k) auto

lemma vec_remove_ok:
  assumes "vec_ok v"
  shows "\<exists>v'. vec_remove v x = Some v' \<and> vec_ok v' \<and> vec_list v' = remove1 x (vec_list v)"
proof (cases "x \<in> set (vec_list v)")
  case True
  let ?k = "length (takeWhile (\<lambda>y. y \<noteq> x) (vec_list v))"
  have k: "?k < length (vec_list v)" "take ?k (vec_list v) @ drop (?k + 1) (vec_list v) = remove1 x (vec_list v)"
    using remove1_split [OF True refl] by auto
  have "?k + 1 \<le> vlength v" using k(1) assms by (simp add: length_vec_list)
  then show ?thesis
    using vec_splice_ok [OF assms, of ?k 1] k(2) True assms by (simp add: vec_remove_def vec_find_ok)
next
  case False
  then show ?thesis using assms by (simp add: vec_remove_def vec_find_ok remove1_idem)
qed

section \<open>Compaction\<close>

lemma vec_compact_ok:
  assumes "vec_ok v" and "0 < memsz A" and "vlength v * memsz A < size_max"
  shows "\<exists>r v'. vec_compact A v = Some (r, v') \<and> vec_ok v' \<and> vec_list v' = vec_list v
    \<and> (r = RC_OK \<longrightarrow> vcapacity v' = vlength v) \<and> (r = RC_ERR \<longrightarrow> v' = v)"
  using assms
  by (auto simp: vec_compact_def vec_grow_def vec_ok_def vec_list_def Let_def min_def)

lemma vec_swapsplice_overlap:
  assumes v: "vec_ok v" and fit: "start + count \<le> vlength v" "vlength v < start + 2 * count"
  shows "\<exists>v'. vec_swapsplice v start count = Some v'
    \<and> vec_list v' = take start (vec_list v) @ take (vlength v - count - start) (drop (vlength v - count) (vec_list v))"
proof -
  obtain k where k: "vlength v = start + count + k" "k < count"
    using fit le_Suc_ex by force
  let ?d = "take start (vdata v) @ take count (drop (vlength v - count) (vdata v))
      @ drop (start + count) (vdata v)"
  have len: "vlength v \<le> length (vdata v)" using v by (simp add: vec_ok_def)
  have e: "vec_swapsplice v start count = Some (v\<lparr>vdata := ?d, vlength := vlength v - count\<rparr>)"
    using len k by (simp add: vec_swapsplice_def memmove_def)
  have "take (vlength v - count) ?d = take start (vdata v) @ take k (drop (vlength v - count) (vdata v))"
    using len k by simp
  moreover have "take start (vec_list v) = take start (vdata v)"
    "take k (drop (vlength v - count) (vec_list v)) = take k (drop (vlength v - count) (vdata v))"
    using k by (simp_all add: vec_list_def drop_take)
  moreover have "vlength v - count - start = k" using k by simp
  ultimately show ?thesis unfolding e by (simp add: vec_list_def)
qed

section \<open>Copies\<close>

lemma vec_copy_list:
  assumes v: "vec_ok v" and A: "0 < memsz A" "vcapacity v * memsz A < size_max" "avail A (vcapacity v * memsz A)"
  shows "\<exists>w. vec_copy A v = Some w \<and> vec_ok w \<and> vec_list w = vec_list v \<and> vcapacity w = vcapacity v"
  using assms by (auto simp: vec_copy_def vec_owned_def vec_ok_def vec_list_def Let_def)

section \<open>Properties\<close>

abbreviation sample :: "nat vec" where
  "sample \<equiv> \<lparr>borrowed = False, vlength = 5, vcapacity = 8, vdata = [10, 11, 12, 13, 14, 0, 0, 0]\<rparr>"

lemma sample_ok: "vec_ok sample" "vec_list sample = [10, 11, 12, 13, 14]"
  by (simp_all add: vec_ok_def vec_list_def)

text \<open>
  Inserting an array that fits the capacity and splicing the same range out again gives
  back the sequence.
\<close>
theorem insertarr_splice_roundtrip:
  assumes "vec_ok v" and "vlength v + length arr \<le> vcapacity v" and "vlength v < vcapacity v"
    and "idx \<le> vlength v"
  shows "\<exists>w v'. vec_insertarr A v idx arr = Some w
    \<and> vec_list w = take idx (vec_list v) @ arr @ drop idx (vec_list v)
    \<and> vec_splice w idx (length arr) = Some v' \<and> vec_ok v' \<and> vec_list v' = vec_list v"
proof -
  obtain w where w: "vec_insertarr A v idx arr = Some w" "vec_ok w"
      "vec_list w = take idx (vec_list v) @ arr @ drop idx (vec_list v)"
    using vec_insertarr_in_capacity [OF assms] by blast
  have "idx + length arr \<le> vlength w"
    using length_vec_list [OF w(2)] w(3) assms(4) length_vec_list [OF assms(1)] by simp
  then obtain v' where "vec_splice w idx (length arr) = Some v'" "vec_ok v'"
      "vec_list v' = take idx (vec_list w) @ drop (idx + length arr) (vec_list w)"
    using vec_splice_ok [OF w(2)] by blast
  then show ?thesis using w assms(1,4) by (auto simp: length_vec_list)
qed

theorem insertarr_splice_roundtrip_witness:
  "\<exists>w v'. vec_insertarr (heap_of 0 8) sample 2 [1, 2, 3] = Some w
    \<and> vec_list w = [10, 11, 1, 2, 3, 12, 13, 14] \<and> vec_splice w 2 3 = Some v' \<and> vec_list v' = [10, 11, 12, 13, 14]"
  using insertarr_splice_roundtrip [OF sample_ok(1), of "[1, 2, 3]" 2 "heap_of 0 8"] sample_ok(2)
  by (auto simp: numeral_3_eq_3 numeral_2_eq_2)

text \<open>
  C29: \<open>vec_insert_\<close> makes room for one element only.  Inserting an array accesses memory outside
  the block exactly when the vector has free slots but too few of them; a full vector is safe, as
  its block is doubled in units of the whole array.
\<close>
theorem insertarr_overruns:
  assumes "vec_ok v" and "idx \<le> vlength v" and "arr \<noteq> []" and "0 < memsz A"
    and "2 * (vcapacity v + 1) * (memsz A * length arr) < size_max"
  shows "vec_insertarr A v idx arr = None \<longleftrightarrow> vlength v < vcapacity v \<and> vcapacity v < vlength v + length arr"
proof (cases "vlength v < vcapacity v")
  case True
  then show ?thesis using vec_insertarr_in_capacity [OF assms(1) _ True assms(2), of arr A] vec_insertarr_few_slots [OF assms(1) True assms(2)]
    by (cases "vcapacity v < vlength v + length arr") auto
next
  case False
  then show ?thesis using vec_insertarr_full [OF assms(1) _ assms(2-5)] assms(1) by (simp add: vec_ok_def)
qed

theorem insertarr_overruns_witness:
  "vec_insertarr (heap_of 0 8) sample 2 [1, 2, 3, 4] = None
   \<and> vec_insertarr (heap_of 0 8) (sample\<lparr>vlength := 8\<rparr>) 2 [1, 2, 3, 4] \<noteq> None"
proof -
  have h: "[1, 2, 3, 4] \<noteq> ([] :: nat list)" "0 < memsz (heap_of (0 :: nat) 8)"
      "2 * (vcapacity sample + 1) * (memsz (heap_of (0 :: nat) 8) * length [1, 2, 3, 4 :: nat]) < size_max"
    by (simp_all add: heap_of_def)
  have f: "vec_ok (sample\<lparr>vlength := 8\<rparr>)" by (simp add: vec_ok_def)
  show ?thesis using insertarr_overruns [OF sample_ok(1) _ h, of 2] insertarr_overruns [OF f _ h(1,2), of 2] h(3) by simp
qed

text \<open>
  \<open>vec_swapsplice\<close> replaces the removed range by the last elements, provided the range
  and the tail it is filled from do not overlap.
\<close>
theorem swapsplice_fills_from_tail:
  assumes "vec_ok v" and "start + 2 * count \<le> vlength v"
  shows "\<exists>v'. vec_swapsplice v start count = Some v' \<and> vec_ok v'
    \<and> vec_list v' = take start (vec_list v) @ drop (vlength v - count) (vec_list v)
        @ take (vlength v - start - 2 * count) (drop (start + count) (vec_list v))"
  using assms by (rule vec_swapsplice_ok)

theorem swapsplice_fills_from_tail_witness:
  "\<exists>v'. vec_swapsplice sample 0 2 = Some v' \<and> vec_list v' = [13, 14, 12]"
  using swapsplice_fills_from_tail [OF sample_ok(1), of 0 2] sample_ok(2) by (auto simp: eval_nat_numeral)

text \<open>
  C30: When the range does not reach the end of the vector and overlaps the last elements it is
  filled from, this is not a removal: the first of these, an element of the range, stays, and the
  last element of the vector, which is outside the range, is lost.
\<close>
theorem swapsplice_overlap_loses_tail:
  assumes "vec_ok v" and "start + count < vlength v" and "vlength v < start + 2 * count"
  shows "\<exists>v'. vec_swapsplice v start count = Some v' \<and> vlength v' = vlength v - count
    \<and> vec_list v' = take start (vec_list v) @ take (vlength v - count - start) (drop (vlength v - count) (vec_list v))
    \<and> vec_list v' ! start = vec_list v ! (vlength v - count)
    \<and> start \<le> vlength v - count \<and> vlength v - count < start + count
    \<and> (distinct (vec_list v) \<longrightarrow> last (vec_list v) \<notin> set (vec_list v'))"
proof -
  let ?l = "vec_list v" and ?a = "vlength v - count" and ?k = "vlength v - count - start"
  obtain v' where v': "vec_swapsplice v start count = Some v'" "vec_list v' = take start ?l @ take ?k (drop ?a ?l)"
    using vec_swapsplice_overlap [OF assms(1) _ assms(3)] assms(2) by auto
  have len: "vlength v' = ?a" using v'(1) by (auto simp: vec_swapsplice_def split: if_splits)
  have l: "length ?l = vlength v" by (rule length_vec_list [OF assms(1)])
  have "?l ! ?a = vec_list v' ! start" unfolding v'(2) using assms(2,3) l by (simp add: nth_append)
  moreover have "last ?l \<notin> set (vec_list v')" if d: "distinct ?l"
  proof
    assume "last ?l \<in> set (vec_list v')"
    moreover have ne: "last ?l = ?l ! (vlength v - 1)" using assms(2) l by (subst last_conv_nth) auto
    moreover have "set (vec_list v') \<subseteq> (!) ?l ` {..<vlength v - 1}"
    proof
      fix x assume "x \<in> set (vec_list v')"
      then consider i where "i < start" "x = ?l ! i" | i where "i < ?k" "x = ?l ! (?a + i)"
        unfolding v'(2) using assms(2) l by (auto simp: in_set_conv_nth)
      then show "x \<in> (!) ?l ` {..<vlength v - 1}"
        using assms(2,3) by cases (force intro!: imageI)+
    qed
    ultimately obtain i where "i < vlength v - 1" "?l ! i = ?l ! (vlength v - 1)" by auto
    then show False using d l by (simp add: nth_eq_iff_index_eq)
  qed
  ultimately show ?thesis using v' len assms(2,3) by (intro exI [of _ v']) auto
qed

theorem swapsplice_overlap_loses_tail_witness:
  "\<exists>v'. vec_swapsplice sample 2 2 = Some v' \<and> vec_list v' = [10, 11, 13]"
  using swapsplice_overlap_loses_tail [OF sample_ok(1), of 2 2] sample_ok(2) by (auto simp: eval_nat_numeral)

text \<open>\<open>vec_reverse\<close> reverses, as long as half the length is an \<open>int\<close>.\<close>
theorem reverse_correct:
  assumes "vec_ok v" and "vlength v < 2 ^ 32"
  shows "\<exists>v'. vec_reverse v = Some v' \<and> vec_ok v' \<and> vec_list v' = rev (vec_list v)"
  using assms by (rule vec_reverse_rev)

theorem reverse_correct_witness: "\<exists>v'. vec_reverse sample = Some v' \<and> vec_list v' = [14, 13, 12, 11, 10]"
  using reverse_correct [OF sample_ok(1)] sample_ok(2) by auto

text \<open>
  \<open>vec_find\<close> gives the first index of a value, or none when it does not occur, and
  \<open>vec_remove\<close> removes exactly the first occurrence.
\<close>
theorem find_remove_correct:
  assumes "vec_ok v"
  shows "\<exists>i v'. vec_find v x = Some i \<and> (case i of
        None \<Rightarrow> x \<notin> set (vec_list v)
      | Some k \<Rightarrow> k < length (vec_list v) \<and> vec_list v ! k = x \<and> x \<notin> set (take k (vec_list v)))
    \<and> vec_remove v x = Some v' \<and> vec_ok v' \<and> vec_list v' = remove1 x (vec_list v)"
proof -
  obtain v' where v': "vec_remove v x = Some v'" "vec_ok v'" "vec_list v' = remove1 x (vec_list v)"
    using vec_remove_ok [OF assms] by blast
  let ?k = "length (takeWhile (\<lambda>y. y \<noteq> x) (vec_list v))"
  have "?k < length (vec_list v) \<and> vec_list v ! ?k = x \<and> x \<notin> set (take ?k (vec_list v))"
    if "x \<in> set (vec_list v)"
  proof -
    have "?k < length (vec_list v)" using remove1_split [OF that refl] by blast
    moreover from this have "vec_list v ! ?k = x" using nth_length_takeWhile by fastforce
    moreover have "take ?k (vec_list v) = takeWhile (\<lambda>y. y \<noteq> x) (vec_list v)"
      by (simp add: takeWhile_eq_take [symmetric])
    ultimately show ?thesis by (auto dest: set_takeWhileD)
  qed
  then show ?thesis using v' vec_find_ok [OF assms, of x] by auto
qed

theorem find_remove_correct_witness:
  "\<exists>v'. vec_remove sample 12 = Some v' \<and> vec_list v' = [10, 11, 13, 14]"
  using find_remove_correct [OF sample_ok(1), of 12] sample_ok(2) by auto

text \<open>
  \<open>vec_compact\<close> keeps the elements and, when it succeeds, leaves no unused slot.
\<close>
theorem compact_correct:
  assumes "vec_ok v" and "0 < memsz A" and "vlength v * memsz A < size_max"
  shows "\<exists>r v'. vec_compact A v = Some (r, v') \<and> vec_ok v' \<and> vec_list v' = vec_list v
    \<and> (r = RC_OK \<longrightarrow> vcapacity v' = vlength v) \<and> (r = RC_ERR \<longrightarrow> v' = v)"
  using assms by (rule vec_compact_ok)

theorem compact_correct_witness:
  "\<exists>r v'. vec_compact (heap_of 0 8) sample = Some (r, v') \<and> vec_list v' = [10, 11, 12, 13, 14]"
proof -
  have "0 < memsz (heap_of (0 :: nat) 8)" "vlength sample * memsz (heap_of (0 :: nat) 8) < size_max"
    by (simp_all add: heap_of_def)
  from compact_correct [OF sample_ok(1) this] sample_ok(2) show ?thesis by auto
qed

end
