(* ===== verification/Rxi_Map.thy ===== *)
theory Rxi_Map
  imports Prelude "HOL-Library.Multiset"
begin

text \<open>
  The string-keyed hash map of \<open>csrc/include/rxi/map.h\<close>: chained buckets, doubled when there
  are as many nodes as buckets.  A bucket is the list of the nodes linked from it, \<open>nbuckets\<close>
  the length of the bucket array; a key is the list of its characters before the terminating
  NUL.  \<open>MAP_ALLOC\<close> is the parameter \<open>map_alloc\<close>: which sizes it serves, and the size of the
  values.  The map refines a partial function from keys to values; the interface
  \<open>lookup_table\<close> states what its users rely on.
\<close>

section \<open>State\<close>

record 'v map_node =
  nhash :: u64
  nkey :: string
  nvalue :: 'v

record 'v map_base =
  buckets :: "'v map_node list list"
  nnodes :: nat

record 'v map_t =
  base :: "'v map_base"
  count :: u64

record map_alloc =
  map_avail :: "nat \<Rightarrow> bool"
  vsize :: nat

definition map_init :: "'v map_t" where
  "map_init = \<lparr>base = \<lparr>buckets = [], nnodes = 0\<rparr>, count = 0\<rparr>"

abbreviation nbuckets :: "'v map_base \<Rightarrow> nat" where
  "nbuckets m \<equiv> length (buckets m)"

section \<open>Hashing and chaining\<close>

text \<open>The key's bytes with its terminator: the macros pass \<open>strlen(key) + 1\<close>.\<close>

definition key_bytes :: "string \<Rightarrow> u8 list" where
  "key_bytes key = map of_char key @ [0]"

fun map_hash_from :: "u64 \<Rightarrow> u8 list \<Rightarrow> u64" where
  "map_hash_from h [] = h"
| "map_hash_from h (b # bs) = map_hash_from ((push_bit 5 h + h) XOR ucast b) bs"

definition map_hash :: "string \<Rightarrow> u64" where
  "map_hash key = map_hash_from 5381 (key_bytes key)"

definition map_newnode :: "map_alloc \<Rightarrow> string \<Rightarrow> 'v \<Rightarrow> 'v map_node option" where
  "map_newnode A key v =
     (let ksize = length key + 1; voffset = ksize + (size_max + 8 - ksize) mod size_max mod 8
      in if map_avail A ((24 + voffset + vsize A) mod size_max)
         then Some \<lparr>nhash = map_hash key, nkey = key, nvalue = v\<rparr> else None)"

definition map_bucketidx :: "'v map_base \<Rightarrow> u64 \<Rightarrow> nat" where
  "map_bucketidx m h = unat (h AND (of_nat (nbuckets m) - 1))"

definition map_addnode :: "'v map_base \<Rightarrow> 'v map_node \<Rightarrow> 'v map_base" where
  "map_addnode m x =
     (let n = map_bucketidx m (nhash x) in m\<lparr>buckets := (buckets m)[n := x # buckets m ! n]\<rparr>)"

text \<open>\<open>map_resize\<close>: chain the nodes of all buckets, last bucket first, and add them again.\<close>

fun chain_bucket :: "'v map_node list \<Rightarrow> 'v map_node list \<Rightarrow> 'v map_node list" where
  "chain_bucket nodes [] = nodes"
| "chain_bucket nodes (x # xs) = chain_bucket (x # nodes) xs"

fun chain_from :: "'v map_base \<Rightarrow> nat \<Rightarrow> 'v map_node list \<Rightarrow> 'v map_node list" where
  "chain_from m 0 nodes = nodes"
| "chain_from m (Suc i) nodes = chain_from m i (chain_bucket nodes (buckets m ! i))"

fun add_nodes :: "'v map_base \<Rightarrow> 'v map_node list \<Rightarrow> 'v map_base" where
  "add_nodes m [] = m"
| "add_nodes m (x # xs) = add_nodes (map_addnode m x) xs"

definition map_resize :: "map_alloc \<Rightarrow> 'v map_base \<Rightarrow> nat \<Rightarrow> bool \<times> 'v map_base" where
  "map_resize A m n =
     (let nodes = chain_from m (nbuckets m) [];
          ok = map_avail A ((8 * n) mod size_max);
          m' = m\<lparr>buckets := replicate (if ok then n else nbuckets m) []\<rparr>
      in (ok, add_nodes m' nodes))"

section \<open>Lookup, insertion, removal\<close>

fun find_node :: "u64 \<Rightarrow> string \<Rightarrow> 'v map_node list \<Rightarrow> nat option" where
  "find_node h key [] = None"
| "find_node h key (x # xs) =
     (if nhash x = h \<and> nkey x = key then Some 0 else map_option Suc (find_node h key xs))"

definition map_getref :: "'v map_base \<Rightarrow> string \<Rightarrow> (nat \<times> nat) option" where
  "map_getref m key =
     (let h = map_hash key in
      if nbuckets m > 0
      then let n = map_bucketidx m h in map_option (Pair n) (find_node h key (buckets m ! n))
      else None)"

definition map_base_get :: "'v map_base \<Rightarrow> string \<Rightarrow> 'v option" where
  "map_base_get m key = map_option (\<lambda>(n, i). nvalue (buckets m ! n ! i)) (map_getref m key)"

definition map_base_set :: "map_alloc \<Rightarrow> 'v map_base \<Rightarrow> string \<Rightarrow> 'v \<Rightarrow> bool \<times> 'v map_base" where
  "map_base_set A m key v =
     (case map_getref m key of
        Some (n, i) \<Rightarrow>
          (True, m\<lparr>buckets := (buckets m)[n := (buckets m ! n)[i := (buckets m ! n ! i)\<lparr>nvalue := v\<rparr>]]\<rparr>)
      | None \<Rightarrow>
          (case map_newnode A key v of
             None \<Rightarrow> (False, m)
           | Some x \<Rightarrow>
               let (ok, m1) =
                 (if nnodes m \<ge> nbuckets m
                  then map_resize A m (if nbuckets m > 0 then (2 * nbuckets m) mod size_max else 1)
                  else (True, m))
               in if ok then (True, (map_addnode m1 x)\<lparr>nnodes := nnodes m1 + 1\<rparr>) else (False, m1)))"

definition map_base_remove :: "'v map_base \<Rightarrow> string \<Rightarrow> 'v map_base" where
  "map_base_remove m key =
     (case map_getref m key of
        Some (n, i) \<Rightarrow>
          let b = buckets m ! n
          in m\<lparr>buckets := (buckets m)[n := take i b @ drop (i + 1) b], nnodes := nnodes m - 1\<rparr>
      | None \<Rightarrow> m)"

text \<open>The macros around them keep a counter of their own.\<close>

definition map_get :: "'v map_t \<Rightarrow> string \<Rightarrow> 'v option" where
  "map_get m key = map_base_get (base m) key"

definition map_set :: "map_alloc \<Rightarrow> 'v map_t \<Rightarrow> string \<Rightarrow> 'v \<Rightarrow> bool \<times> 'v map_t" where
  "map_set A m key v =
     (let (ok, b) = map_base_set A (base m) key v in (ok, m\<lparr>count := count m + 1, base := b\<rparr>))"

definition map_remove :: "'v map_t \<Rightarrow> string \<Rightarrow> 'v map_t" where
  "map_remove m key = m\<lparr>count := count m - 1, base := map_base_remove (base m) key\<rparr>"

section \<open>Iteration\<close>

lemma unat_less_size: "unat w < 2 ^ 64" for w :: u64
proof -
  have "unat w < 2 ^ LENGTH(64)" by (rule unsigned_less)
  then show ?thesis by simp
qed

lemma word_next: "i < (k :: u64) \<Longrightarrow> unat (i + 1) = unat i + 1"
proof -
  assume "i < k"
  then have "unat i + 1 < 2 ^ 64"
    using unat_less_size [of k] by (simp add: word_less_nat_alt)
  then have "unat (of_nat (unat i + 1) :: u64) = unat i + 1"
    by (intro unat_of_nat_small) simp
  moreover have "(of_nat (unat i + 1) :: u64) = i + 1" by simp
  ultimately show ?thesis by (simp only:)
qed

text \<open>The node of an iterator with the nodes linked behind it; \<open>[]\<close> is \<open>NULL\<close>.\<close>

record 'v map_iter_t =
  bucketidx :: u64
  inode :: "'v map_node list"

definition map_iter :: "'v map_iter_t" where
  "map_iter = \<lparr>bucketidx = - 1, inode = []\<rparr>"

function next_bucket :: "'v map_base \<Rightarrow> u64 \<Rightarrow> string option \<times> 'v map_iter_t" where
  "next_bucket m idx =
     (let i = idx + 1 in
      if i < of_nat (nbuckets m)
      then (case buckets m ! unat i of
              [] \<Rightarrow> next_bucket m i
            | x # xs \<Rightarrow> (Some (nkey x), \<lparr>bucketidx = i, inode = x # xs\<rparr>))
      else (None, \<lparr>bucketidx = i, inode = []\<rparr>))"
  by pat_completeness auto
termination
proof (relation "measure (\<lambda>(m, idx). 2 ^ 64 - unat (idx + 1))", simp)
  fix m :: "'v map_base" and idx i :: u64
  assume "i = idx + 1" and "i < of_nat (nbuckets m)"
  then have "unat (i + 1) = unat i + 1" using word_next by blast
  moreover have "unat (i + 1) < 2 ^ 64" using unat_less_size [of "i + 1"] by simp
  ultimately show "((m, i), (m, idx)) \<in> measure (\<lambda>(m, idx). 2 ^ 64 - unat (idx + 1))"
    using \<open>i = idx + 1\<close> by simp
qed

declare next_bucket.simps [simp del]

definition map_next :: "'v map_base \<Rightarrow> 'v map_iter_t \<Rightarrow> string option \<times> 'v map_iter_t" where
  "map_next m it =
     (case inode it of
        [] \<Rightarrow> next_bucket m (bucketidx it)
      | x # xs \<Rightarrow>
          (case xs of
             [] \<Rightarrow> next_bucket m (bucketidx it)
           | y # ys \<Rightarrow> (Some (nkey y), it\<lparr>inode := y # ys\<rparr>)))"

text \<open>The keys a loop \<open>while ((name = map_next(m, &iter)))\<close> sees in its first \<open>n\<close> turns.\<close>

fun map_walk :: "nat \<Rightarrow> 'v map_base \<Rightarrow> 'v map_iter_t \<Rightarrow> string list" where
  "map_walk 0 m it = []"
| "map_walk (Suc n) m it =
     (case map_next m it of (None, _) \<Rightarrow> [] | (Some key, it') \<Rightarrow> key # map_walk n m it')"

section \<open>The table a map represents\<close>

abbreviation map_nodes :: "'v map_base \<Rightarrow> 'v map_node list" where
  "map_nodes m \<equiv> concat (buckets m)"

definition entry :: "'v map_node \<Rightarrow> string \<times> 'v" where
  "entry x = (nkey x, nvalue x)"

definition map_table :: "'v map_base \<Rightarrow> string \<Rightarrow> 'v option" where
  "map_table m = map_of (map entry (map_nodes m))"

definition hashed :: "'v map_node \<Rightarrow> bool" where
  "hashed x \<longleftrightarrow> nhash x = map_hash (nkey x)"

text \<open>Every node lies in the bucket of its hash.\<close>

definition map_placed :: "'v map_base \<Rightarrow> bool" where
  "map_placed m \<longleftrightarrow> nbuckets m \<le> 2 ^ 62
     \<and> (\<forall>n < nbuckets m. \<forall>x \<in> set (buckets m ! n). hashed x \<and> map_bucketidx m (nhash x) = n)"

definition map_ok :: "'v map_base \<Rightarrow> bool" where
  "map_ok m \<longleftrightarrow> map_placed m \<and> distinct (map nkey (map_nodes m)) \<and> nnodes m = length (map_nodes m)"

lemma bucketidx_less: "0 < nbuckets m \<Longrightarrow> nbuckets m < 2 ^ 64 \<Longrightarrow> map_bucketidx m h < nbuckets m"
proof -
  assume n: "0 < nbuckets m" "nbuckets m < 2 ^ 64"
  have "of_nat (nbuckets m) - 1 = (of_nat (nbuckets m - 1) :: u64)"
    using n(1) by (cases "nbuckets m") simp_all
  then have "unat (of_nat (nbuckets m) - 1 :: u64) = nbuckets m - 1"
    using unat_of_nat_small [of "nbuckets m - 1", where 'a = 64] n by simp
  moreover have "h AND (of_nat (nbuckets m) - 1) \<le> (of_nat (nbuckets m) - 1 :: u64)"
    by (rule word_and_le1)
  ultimately have "map_bucketidx m h \<le> nbuckets m - 1"
    by (simp add: map_bucketidx_def word_le_nat_alt)
  then show ?thesis using n(1) by linarith
qed

lemma placed_bucket: "map_placed m \<Longrightarrow> 0 < nbuckets m \<Longrightarrow> map_bucketidx m h < nbuckets m"
  by (rule bucketidx_less) (simp_all add: map_placed_def)

lemma bucketidx_cong: "nbuckets m = nbuckets m' \<Longrightarrow> map_bucketidx m h = map_bucketidx m' h"
  by (simp add: map_bucketidx_def)

lemma find_node_Some:
  "find_node h key b = Some i \<Longrightarrow> i < length b \<and> nkey (b ! i) = key \<and> nhash (b ! i) = h"
  by (induction b arbitrary: i) (auto split: if_splits)

lemma find_node_None: "find_node h key b = None \<Longrightarrow> x \<in> set b \<Longrightarrow> nkey x = key \<Longrightarrow> nhash x \<noteq> h"
  by (induction b) (auto split: if_splits)

lemma mem_nodes: "x \<in> set (map_nodes m) \<longleftrightarrow> (\<exists>n < nbuckets m. x \<in> set (buckets m ! n))"
proof -
  have "x \<in> set (map_nodes m) \<longleftrightarrow> (\<exists>b \<in> set (buckets m). x \<in> set b)" by simp
  then show ?thesis using in_set_conv_nth [of _ "buckets m"] by metis
qed

text \<open>\<open>map_getref\<close> finds the node of a key, if there is one.\<close>

lemma getref_Some:
  assumes "map_placed m" and "map_getref m key = Some (n, i)"
  shows "n < nbuckets m" and "i < length (buckets m ! n)" and "nkey (buckets m ! n ! i) = key"
proof -
  have nb: "0 < nbuckets m" and n: "n = map_bucketidx m (map_hash key)"
      and f: "find_node (map_hash key) key (buckets m ! n) = Some i"
    using assms(2) by (auto simp: map_getref_def Let_def split: if_splits)
  show "n < nbuckets m" unfolding n by (rule placed_bucket [OF assms(1) nb])
  show "i < length (buckets m ! n)" "nkey (buckets m ! n ! i) = key"
    using find_node_Some [OF f] by simp_all
qed

lemma getref_None:
  assumes "map_placed m" and "map_getref m key = None"
  shows "key \<notin> nkey ` set (map_nodes m)"
proof
  assume "key \<in> nkey ` set (map_nodes m)"
  then obtain x where x: "x \<in> set (map_nodes m)" "nkey x = key" by auto
  then obtain n where n: "n < nbuckets m" "x \<in> set (buckets m ! n)" unfolding mem_nodes by blast
  then have "hashed x" "map_bucketidx m (nhash x) = n" using assms(1) by (auto simp: map_placed_def)
  then have "map_bucketidx m (map_hash key) = n" "nhash x = map_hash key"
    using x(2) by (simp_all add: hashed_def)
  moreover from this have "find_node (map_hash key) key (buckets m ! n) = None"
    using assms(2) n(1) by (auto simp: map_getref_def Let_def split: if_splits)
  ultimately show False using find_node_None [OF _ n(2) x(2)] by simp
qed

lemma map_get_table:
  assumes "map_ok m"
  shows "map_base_get m key = map_table m key"
proof (cases "map_getref m key")
  case None
  then have "key \<notin> nkey ` set (map_nodes m)"
    using assms getref_None by (auto simp: map_ok_def)
  then have "map_of (map entry (map_nodes m)) key = None"
    by (auto simp: map_of_eq_None_iff entry_def)
  then show ?thesis using None by (simp add: map_base_get_def map_table_def)
next
  case (Some r)
  obtain n i where r: "r = (n, i)" by fastforce
  have p: "map_placed m" using assms by (simp add: map_ok_def)
  note g = getref_Some [OF p Some [unfolded r]]
  have "buckets m ! n ! i \<in> set (map_nodes m)"
    using g(1,2) unfolding mem_nodes by auto
  then have "(key, nvalue (buckets m ! n ! i)) \<in> set (map entry (map_nodes m))"
    using g(3) by (force simp: entry_def)
  moreover have "distinct (map fst (map entry (map_nodes m)))"
    using assms by (simp add: map_ok_def entry_def comp_def)
  ultimately have "map_table m key = Some (nvalue (buckets m ! n ! i))"
    unfolding map_table_def by (simp only: map_of_eq_Some_iff)
  then show ?thesis using Some r by (simp add: map_base_get_def)
qed

section \<open>Moving nodes between buckets\<close>

lemma concat_update:
  "n < length bs \<Longrightarrow> mset (concat (bs[n := b])) + mset (bs ! n) = mset (concat bs) + mset b"
proof (induction bs arbitrary: n)
  case (Cons a bs)
  then show ?case by (cases n) (auto simp: add.assoc add.left_commute)
qed simp

lemma addnode_ok:
  assumes "map_placed m" and "0 < nbuckets m" and "hashed x"
  shows "map_placed (map_addnode m x)" and "mset (map_nodes (map_addnode m x)) = add_mset x (mset (map_nodes m))"
    and "nbuckets (map_addnode m x) = nbuckets m" and "nnodes (map_addnode m x) = nnodes m"
proof -
  let ?n = "map_bucketidx m (nhash x)"
  have n: "?n < nbuckets m" by (rule placed_bucket [OF assms(1,2)])
  show l: "nbuckets (map_addnode m x) = nbuckets m" "nnodes (map_addnode m x) = nnodes m"
    by (simp_all add: map_addnode_def Let_def)
  have "buckets (map_addnode m x) ! k = (if k = ?n then x # buckets m ! k else buckets m ! k)"
    if "k < nbuckets m" for k
    using that n by (simp add: map_addnode_def Let_def)
  then show "map_placed (map_addnode m x)"
    using assms(1,3) l(1) bucketidx_cong [OF l(1)] by (auto simp: map_placed_def)
  show "mset (map_nodes (map_addnode m x)) = add_mset x (mset (map_nodes m))"
    using concat_update [OF n, of "x # buckets m ! ?n"] by (simp add: map_addnode_def Let_def)
qed

lemma add_nodes_ok:
  "map_placed m \<Longrightarrow> 0 < nbuckets m \<Longrightarrow> \<forall>x \<in> set xs. hashed x \<Longrightarrow>
   map_placed (add_nodes m xs) \<and> mset (map_nodes (add_nodes m xs)) = mset (map_nodes m) + mset xs
   \<and> nbuckets (add_nodes m xs) = nbuckets m \<and> nnodes (add_nodes m xs) = nnodes m"
proof (induction xs arbitrary: m)
  case (Cons x xs)
  have x: "hashed x" "\<forall>x \<in> set xs. hashed x" using Cons.prems(3) by simp_all
  note a = addnode_ok [OF Cons.prems(1,2) x(1)]
  have "0 < nbuckets (map_addnode m x)" using Cons.prems(2) a(3) by simp
  from Cons.IH [OF a(1) this x(2)] show ?case using a(2-4) by simp
qed simp

lemma chain_bucket_mset: "mset (chain_bucket nodes b) = mset nodes + mset b"
  by (induction nodes b rule: chain_bucket.induct) simp_all

lemma chain_from_mset:
  "n \<le> nbuckets m \<Longrightarrow> mset (chain_from m n nodes) = mset nodes + mset (concat (take n (buckets m)))"
  by (induction m n nodes rule: chain_from.induct)
     (simp_all add: chain_bucket_mset take_Suc_conv_app_nth)

lemma resize_ok:
  assumes m: "map_placed m" and n: "0 < n" "n \<le> 2 ^ 62" and r: "map_resize A m n = (ok, m')"
  shows "map_placed m'" and "mset (map_nodes m') = mset (map_nodes m)" and "nnodes m' = nnodes m"
    and "nbuckets m' = (if ok then n else nbuckets m)"
proof -
  let ?xs = "chain_from m (nbuckets m) []" and ?k = "if ok then n else nbuckets m"
  let ?m = "m\<lparr>buckets := replicate ?k []\<rparr>"
  have e: "m' = add_nodes ?m ?xs"
    using r by (auto simp: map_resize_def Let_def)
  have xs: "mset ?xs = mset (map_nodes m)" by (simp add: chain_from_mset)
  have "hashed x" if "x \<in> set (map_nodes m)" for x
    using that m unfolding mem_nodes by (auto simp: map_placed_def)
  then have h: "\<forall>x \<in> set ?xs. hashed x" using mset_eq_setD [OF xs] by blast
  have pl: "map_placed ?m" using m n(2) by (auto simp: map_placed_def)
  have nil: "concat (replicate k []) = []" for k by (induction k) simp_all
  have "map_placed m' \<and> mset (map_nodes m') = mset (map_nodes m) \<and> nnodes m' = nnodes m \<and> nbuckets m' = ?k"
  proof (cases "0 < ?k")
    case True
    then show ?thesis using add_nodes_ok [OF pl _ h] e xs nil by simp
  next
    case False
    then have "?xs = []" using n(1) by (auto split: if_splits)
    then show ?thesis using False e pl xs nil by simp
  qed
  then show "map_placed m'" "mset (map_nodes m') = mset (map_nodes m)" "nnodes m' = nnodes m"
    "nbuckets m' = ?k" by blast+
qed

section \<open>Tables depend on the nodes only\<close>

definition table_of :: "'v map_node list \<Rightarrow> string \<Rightarrow> 'v option" where
  "table_of xs = map_of (map entry xs)"

lemma map_table_nodes: "map_table m = table_of (map_nodes m)"
  by (simp add: map_table_def table_of_def)

lemma keys_perm: "mset ys = mset xs \<Longrightarrow> distinct (map nkey ys) \<longleftrightarrow> distinct (map nkey xs)"
  by (rule mset_eq_imp_distinct_iff) simp

lemma table_perm:
  assumes "mset ys = mset xs" and "distinct (map nkey xs)"
  shows "table_of ys = table_of xs"
proof -
  have d: "distinct (map fst (map entry xs))" "distinct (map fst (map entry ys))"
    using assms(2) keys_perm [OF assms(1)] by (simp_all add: entry_def comp_def)
  have "set (map entry ys) = set (map entry xs)" using mset_eq_setD [OF assms(1)] by simp
  then show ?thesis using map_of_inject_set [OF d] by (simp add: table_of_def)
qed

lemma table_insert:
  assumes "mset ys = add_mset x (mset xs)" and "distinct (map nkey xs)" and "nkey x \<notin> nkey ` set xs"
  shows "distinct (map nkey ys)" and "table_of ys = (table_of xs)(nkey x \<mapsto> nvalue x)"
proof -
  have p: "mset ys = mset (x # xs)" using assms(1) by simp
  have d: "distinct (map nkey (x # xs))" using assms(2,3) by simp
  show "distinct (map nkey ys)" using keys_perm [OF p] d by simp
  show "table_of ys = (table_of xs)(nkey x \<mapsto> nvalue x)"
    unfolding table_perm [OF p d] by (simp add: table_of_def entry_def)
qed

lemma table_delete:
  assumes "add_mset x (mset ys) = mset xs" and "distinct (map nkey xs)"
  shows "distinct (map nkey ys)" and "table_of ys = (table_of xs)(nkey x := None)" and "nkey x \<notin> nkey ` set ys"
proof -
  have p: "mset (x # ys) = mset xs" using assms(1) by simp
  have d: "distinct (map nkey (x # ys))" using keys_perm [OF p] assms(2) by simp
  then show "distinct (map nkey ys)" and k: "nkey x \<notin> nkey ` set ys" by simp_all
  have "table_of ys (nkey x) = None"
    using k by (auto simp: table_of_def entry_def map_of_eq_None_iff)
  then have "(table_of ys)(nkey x := None) = table_of ys" by auto
  moreover have "table_of (x # ys) = (table_of ys)(nkey x \<mapsto> nvalue x)"
    by (simp add: table_of_def entry_def)
  ultimately show "table_of ys = (table_of xs)(nkey x := None)"
    using table_perm [OF p assms(2)] by (metis fun_upd_upd)
qed

section \<open>Every operation keeps the invariant and acts on the table\<close>

lemma bucket_exchange:
  assumes m: "map_placed m" and n: "n < nbuckets m"
    and b: "\<forall>x \<in> set b. hashed x \<and> map_bucketidx m (nhash x) = n"
  shows "map_placed (m\<lparr>buckets := (buckets m)[n := b]\<rparr>)"
proof -
  let ?m = "m\<lparr>buckets := (buckets m)[n := b]\<rparr>"
  have l: "nbuckets ?m = nbuckets m" by simp
  show ?thesis
    using m b n unfolding map_placed_def l bucketidx_cong [OF l] by (auto simp: nth_list_update)
qed

lemma mset_without:
  assumes "x \<in> set xs"
  obtains ws where "add_mset x (mset ws) = mset xs"
proof -
  obtain ws where "mset ws = mset xs - {#x#}" using ex_mset by blast
  then show thesis using insert_DiffM [of x "mset xs"] assms by (intro that [of ws]) simp
qed

lemma mset_nth: "i < length b \<Longrightarrow> mset b = add_mset (b ! i) (mset (take i b @ drop (Suc i) b))"
  by (subst id_take_nth_drop [of i b]) simp_all

lemma mset_update: "i < length b \<Longrightarrow> mset (b[i := y]) = add_mset y (mset (take i b @ drop (Suc i) b))"
  by (simp add: upd_conv_take_nth_drop)

lemma node_value_update:
  "nhash (x\<lparr>nvalue := v\<rparr>) = nhash x" "nkey (x\<lparr>nvalue := v\<rparr>) = nkey x"
  by simp_all

text \<open>A key that is present has its value replaced in place.\<close>

lemma map_replace_ok:
  assumes m: "map_ok m" and r: "map_getref m key = Some (n, i)"
    and m': "m' = m\<lparr>buckets := (buckets m)[n := (buckets m ! n)[i := (buckets m ! n ! i)\<lparr>nvalue := v\<rparr>]]\<rparr>"
  shows "map_ok m' \<and> map_table m' = (map_table m)(key \<mapsto> v)
    \<and> map nkey (map_nodes m') = map nkey (map_nodes m)"
proof -
  have pl: "map_placed m" and di: "distinct (map nkey (map_nodes m))" and nn: "nnodes m = length (map_nodes m)"
    using m by (simp_all add: map_ok_def)
  note g = getref_Some [OF pl r]
  let ?b = "buckets m ! n" let ?x = "?b ! i" let ?y = "?x\<lparr>nvalue := v\<rparr>"
  have b: "\<forall>x \<in> set ?b. hashed x \<and> map_bucketidx m (nhash x) = n" using pl g(1) by (simp add: map_placed_def)
  have "?x \<in> set ?b" by (rule nth_mem [OF g(2)])
  with b have "hashed ?x \<and> map_bucketidx m (nhash ?x) = n" by (rule bspec)
  then have "hashed ?y \<and> map_bucketidx m (nhash ?y) = n" unfolding hashed_def node_value_update .
  then have "\<forall>x \<in> insert ?y (set ?b). hashed x \<and> map_bucketidx m (nhash x) = n" using b by blast
  then have "\<forall>x \<in> set (?b[i := ?y]). hashed x \<and> map_bucketidx m (nhash x) = n"
    using set_update_subset_insert [of ?b i ?y] by blast
  then have pl': "map_placed m'" unfolding m' by (rule bucket_exchange [OF pl g(1)])
  have ks: "map nkey (map_nodes m') = map nkey (map_nodes m)"
  proof -
    have "map nkey (?b[i := ?y]) = map nkey ?b" using g(2) by (simp add: list_eq_iff_nth_eq nth_list_update)
    then have "map (map nkey) (buckets m') = map (map nkey) (buckets m)"
      using g(1) unfolding m' by (simp add: list_eq_iff_nth_eq nth_list_update)
    then show ?thesis unfolding map_concat by (rule arg_cong)
  qed
  note x = mset_nth [OF g(2)] and y = mset_update [OF g(2), of ?y]
  have "mset (map_nodes m') + mset ?b = mset (map_nodes m) + mset (?b[i := ?y])"
    using concat_update [OF g(1)] unfolding m' by simp
  then have e: "add_mset ?x (mset (map_nodes m')) = add_mset ?y (mset (map_nodes m))"
    unfolding x y by simp
  have "?x \<in> set (map_nodes m)" using g(1,2) unfolding mem_nodes by auto
  then obtain ws where w: "add_mset ?x (mset ws) = mset (map_nodes m)" by (rule mset_without)
  have w': "mset (map_nodes m') = add_mset ?y (mset ws)"
    using e unfolding w [symmetric] add_mset_commute [of ?y] by simp
  note del = table_delete [OF w di]
  have "nkey ?y \<notin> nkey ` set ws" using del(3) by simp
  note ins = table_insert [OF w' del(1) this]
  have "length (map_nodes m') = length (map_nodes m)" using arg_cong [OF ks, of length] by simp
  moreover have "nnodes m' = nnodes m" unfolding m' by simp
  moreover have "map_table m' = (map_table m)(key \<mapsto> v)"
    using ins(2) del(2) g(3) unfolding map_table_nodes by simp
  ultimately show ?thesis using pl' ins(1) ks nn unfolding map_ok_def by simp
qed

text \<open>A new node goes to its bucket, after the bucket array has grown if it had to.\<close>

definition grown :: "map_alloc \<Rightarrow> 'v map_base \<Rightarrow> bool \<times> 'v map_base" where
  "grown A m = (if nnodes m \<ge> nbuckets m
     then map_resize A m (if nbuckets m > 0 then (2 * nbuckets m) mod size_max else 1) else (True, m))"

lemma grown_ok:
  assumes m: "map_ok m" "nnodes m < 2 ^ 60" and r: "grown A m = (ok, m1)"
  shows "map_ok m1" and "mset (map_nodes m1) = mset (map_nodes m)" and "ok \<Longrightarrow> 0 < nbuckets m1"
    and "map_table m1 = map_table m" and "nnodes m1 = nnodes m"
proof -
  have pl: "map_placed m" and di: "distinct (map nkey (map_nodes m))" and nn: "nnodes m = length (map_nodes m)"
    using m(1) by (simp_all add: map_ok_def)
  have m1: "map_placed m1 \<and> mset (map_nodes m1) = mset (map_nodes m) \<and> nnodes m1 = nnodes m
      \<and> (ok \<longrightarrow> 0 < nbuckets m1)"
  proof (cases "nnodes m \<ge> nbuckets m")
    case True
    let ?n = "if nbuckets m > 0 then (2 * nbuckets m) mod size_max else 1"
    have "2 * nbuckets m < 2 ^ 61" using True m(2) by simp
    then have n: "0 < ?n" "?n \<le> 2 ^ 62" by simp_all
    have "map_resize A m ?n = (ok, m1)" using r True by (simp add: grown_def)
    from resize_ok [OF pl n this] n(1) show ?thesis by simp
  next
    case False
    then show ?thesis using r pl by (auto simp: grown_def)
  qed
  then show p: "mset (map_nodes m1) = mset (map_nodes m)" "ok \<Longrightarrow> 0 < nbuckets m1" "nnodes m1 = nnodes m"
    by blast+
  show "map_ok m1"
    using m1 keys_perm [OF p(1)] mset_eq_length [OF p(1)] di nn unfolding map_ok_def by simp
  show "map_table m1 = map_table m" unfolding map_table_nodes by (rule table_perm [OF p(1) di])
qed

lemma map_addnode_table:
  assumes m: "map_ok m" "0 < nbuckets m" and x: "hashed x" "nkey x \<notin> nkey ` set (map_nodes m)"
    and m': "m' = (map_addnode m x)\<lparr>nnodes := nnodes m + 1\<rparr>"
  shows "map_ok m' \<and> map_table m' = (map_table m)(nkey x \<mapsto> nvalue x)"
proof -
  have pl: "map_placed m" and di: "distinct (map nkey (map_nodes m))" and nn: "nnodes m = length (map_nodes m)"
    using m(1) by (simp_all add: map_ok_def)
  note a = addnode_ok [OF pl m(2) x(1)]
  note ins = table_insert [OF a(2) di x(2)]
  have "length (map_nodes (map_addnode m x)) = length (map_nodes m) + 1"
    using arg_cong [OF a(2), of size] by simp
  then have "map_ok m'"
    using a(1) ins(1) nn unfolding m' map_ok_def map_placed_def map_bucketidx_def by simp
  then show ?thesis using ins(2) unfolding m' map_table_nodes by simp
qed

lemma base_set_eqs:
  "map_getref m key = Some (n, i) \<Longrightarrow> map_base_set A m key v
     = (True, m\<lparr>buckets := (buckets m)[n := (buckets m ! n)[i := (buckets m ! n ! i)\<lparr>nvalue := v\<rparr>]]\<rparr>)"
  "map_getref m key = None \<Longrightarrow> map_newnode A key v = None \<Longrightarrow> map_base_set A m key v = (False, m)"
  "map_getref m key = None \<Longrightarrow> map_newnode A key v = Some x \<Longrightarrow> grown A m = (g, m1) \<Longrightarrow>
     map_base_set A m key v = (if g then (True, (map_addnode m1 x)\<lparr>nnodes := nnodes m1 + 1\<rparr>) else (False, m1))"
  by (simp_all add: map_base_set_def grown_def)

lemma newnode_fields:
  "map_newnode A key v = Some x \<Longrightarrow> hashed x \<and> nkey x = key \<and> nvalue x = v"
  by (auto simp: map_newnode_def Let_def hashed_def split: if_splits)

lemma base_set_cases:
  assumes "map_base_set A m key v = (ok, m')"
  obtains (replace) n i where "map_getref m key = Some (n, i)" "ok"
      "m' = m\<lparr>buckets := (buckets m)[n := (buckets m ! n)[i := (buckets m ! n ! i)\<lparr>nvalue := v\<rparr>]]\<rparr>"
  | (no_node) "map_getref m key = None" "\<not> ok" "m' = m"
  | (no_room) "map_getref m key = None" "\<not> ok" "grown A m = (False, m')"
  | (insert) x m1 where "map_getref m key = None" "ok" "grown A m = (True, m1)"
      "hashed x \<and> nkey x = key \<and> nvalue x = v" "m' = (map_addnode m1 x)\<lparr>nnodes := nnodes m1 + 1\<rparr>"
proof (cases "map_getref m key")
  case (Some p)
  obtain n i where p: "p = (n, i)" by fastforce
  note e = base_set_eqs(1) [OF Some [unfolded p], of A v, unfolded assms prod.inject]
  show ?thesis by (rule replace [OF Some [unfolded p]]) (use e in \<open>simp_all only: simp_thms\<close>)
next
  case None
  show ?thesis
  proof (cases "map_newnode A key v")
    case no: None
    note e = base_set_eqs(2) [OF None no, unfolded assms prod.inject]
    show ?thesis by (rule no_node [OF None]) (use e in \<open>simp_all only: simp_thms\<close>)
  next
    case (Some x)
    obtain g m1 where g: "grown A m = (g, m1)" by fastforce
    note e = base_set_eqs(3) [OF None Some g, unfolded assms]
    show ?thesis
    proof (cases g)
      case True
      then have "ok" "m' = (map_addnode m1 x)\<lparr>nnodes := nnodes m1 + 1\<rparr>" using e by simp_all
      then show ?thesis using g True by (intro insert [OF None _ _ newnode_fields [OF Some]]) simp_all
    next
      case False
      then have "\<not> ok" "m' = m1" using e by simp_all
      then show ?thesis using g False by (intro no_room [OF None]) simp_all
    qed
  qed
qed

lemma map_set_ok:
  assumes m: "map_ok m" "nnodes m < 2 ^ 60" and r: "map_base_set A m key v = (ok, m')"
  shows "map_ok m' \<and> map_table m' = (if ok then (map_table m)(key \<mapsto> v) else map_table m)
    \<and> nnodes m' = nnodes m + (if ok \<and> map_table m key = None then 1 else 0)"
  using r
proof (cases rule: base_set_cases)
  case (replace n i)
  have "map_base_get m key \<noteq> None" using replace(1) by (simp add: map_base_get_def)
  then show ?thesis
    using map_replace_ok [OF m(1) replace(1,3)] replace(2,3) map_get_table [OF m(1)] by auto
next
  case no_node
  then show ?thesis using m(1) by simp
next
  case no_room
  then show ?thesis using grown_ok [OF m no_room(3)] by simp
next
  case (insert x m1)
  note g = grown_ok [OF m insert(3)]
  have pl: "map_placed m" using m(1) by (simp add: map_ok_def)
  have "key \<notin> nkey ` set (map_nodes m1)"
    using getref_None [OF pl insert(1)] mset_eq_setD [OF g(2)] by simp
  then have "map_ok m' \<and> map_table m' = (map_table m1)(nkey x \<mapsto> nvalue x)"
    using insert(2,4) by (intro map_addnode_table [OF g(1) g(3) _ _ insert(5)]) simp_all
  moreover have "map_base_get m key = None" using insert(1) by (simp add: map_base_get_def)
  ultimately show ?thesis using insert(2,4,5) g(4,5) map_get_table [OF m(1)] by simp
qed

lemma map_remove_ok:
  assumes m: "map_ok m"
  shows "map_ok (map_base_remove m key) \<and> map_table (map_base_remove m key) = (map_table m)(key := None)"
proof (cases "map_getref m key")
  case None
  then have "map_base_get m key = None" by (simp add: map_base_get_def)
  then have "map_table m key = None" using map_get_table [OF m] by simp
  then show ?thesis using None m by (simp add: map_base_remove_def fun_upd_idem)
next
  case (Some p)
  obtain n i where p: "p = (n, i)" by fastforce
  have pl: "map_placed m" and di: "distinct (map nkey (map_nodes m))" and nn: "nnodes m = length (map_nodes m)"
    using m by (simp_all add: map_ok_def)
  note g = getref_Some [OF pl Some [unfolded p]]
  let ?b = "buckets m ! n" let ?c = "take i ?b @ drop (i + 1) ?b" let ?x = "?b ! i"
  let ?m = "m\<lparr>buckets := (buckets m)[n := ?c]\<rparr>"
  have "set ?c \<subseteq> set ?b" using set_take_subset [of i ?b] set_drop_subset [of "i + 1" ?b] by simp
  then have "\<forall>x \<in> set ?c. hashed x \<and> map_bucketidx m (nhash x) = n"
    using pl g(1) unfolding map_placed_def by blast
  then have pl': "map_placed ?m" by (rule bucket_exchange [OF pl g(1)])
  have "mset ?b = add_mset ?x (mset ?c)" using mset_nth [OF g(2)] by simp
  then have w: "add_mset ?x (mset (map_nodes ?m)) = mset (map_nodes m)"
    using concat_update [OF g(1), of ?c] by simp
  note del = table_delete [OF w di]
  have "length (map_nodes ?m) + 1 = length (map_nodes m)" using arg_cong [OF w, of size] by simp
  moreover have "map_base_remove m key = ?m\<lparr>nnodes := nnodes m - 1\<rparr>"
    using Some p by (simp add: map_base_remove_def Let_def)
  ultimately show ?thesis
    using pl' del(1,2) nn g(3) unfolding map_ok_def map_placed_def map_bucketidx_def map_table_nodes by simp
qed


end
