(* ===== verification/Map_Table.thy ===== *)
theory Map_Table
  imports Rxi_Map
begin

text \<open>
  What the hash map of \<open>csrc/include/rxi/map.h\<close> promises: walking it with \<open>map_iter\<close> and
  \<open>map_next\<close>, releasing it, the interface \<open>lookup_table\<close> its users rely on, and how long sequences
  of operations act on the table it represents.
\<close>

section \<open>A walk over a map sees every key once\<close>

text \<open>The nodes an iterator has still to visit.\<close>

definition iter_rest :: "'v map_base \<Rightarrow> 'v map_iter_t \<Rightarrow> 'v map_node list" where
  "iter_rest m it = tl (inode it) @ concat (drop (unat (bucketidx it + 1)) (buckets m))"

lemma next_bucket_rest:
  "nbuckets m < 2 ^ 63 \<Longrightarrow>
   case concat (drop (unat (idx + 1)) (buckets m)) of
     [] \<Rightarrow> fst (next_bucket m idx) = None
   | x # xs \<Rightarrow> \<exists>it. next_bucket m idx = (Some (nkey x), it) \<and> iter_rest m it = xs"
proof (induction m idx rule: next_bucket.induct)
  case (1 m idx)
  let ?i = "idx + 1" and ?k = "of_nat (nbuckets m) :: u64"
  have k: "unat ?k = nbuckets m" using 1(2) by (intro unat_of_nat_small) simp
  note eq = next_bucket.simps [of m idx, unfolded Let_def]
  show ?case
  proof (cases "?i < ?k")
    case True
    then have i: "unat ?i < nbuckets m" using k by (simp add: word_less_nat_alt)
    have d: "drop (unat ?i) (buckets m) = buckets m ! unat ?i # drop (unat (?i + 1)) (buckets m)"
      using Cons_nth_drop_Suc [OF i] word_next [OF True] by simp
    show ?thesis
    proof (cases "buckets m ! unat ?i")
      case Nil
      then have e: "next_bucket m idx = next_bucket m ?i" using True eq by simp
      have c: "concat (drop (unat ?i) (buckets m)) = concat (drop (unat (?i + 1)) (buckets m))"
        unfolding d using Nil by simp
      show ?thesis unfolding c e by (rule 1(1) [OF refl True Nil 1(2)])
    next
      case (Cons x xs)
      then have "next_bucket m idx = (Some (nkey x), \<lparr>bucketidx = ?i, inode = x # xs\<rparr>)"
        using True eq by simp
      then show ?thesis using Cons unfolding d by (simp add: iter_rest_def)
    qed
  next
    case False
    then have "drop (unat ?i) (buckets m) = []" using k by (simp add: word_less_nat_alt)
    moreover have "next_bucket m idx = (None, \<lparr>bucketidx = ?i, inode = []\<rparr>)" using False eq by simp
    ultimately show ?thesis by simp
  qed
qed

lemma map_next_rest:
  assumes "nbuckets m < 2 ^ 63"
  shows "case iter_rest m it of
     [] \<Rightarrow> fst (map_next m it) = None
   | x # xs \<Rightarrow> \<exists>it'. map_next m it = (Some (nkey x), it') \<and> iter_rest m it' = xs"
proof (cases "tl (inode it)")
  case Nil
  then have e: "map_next m it = next_bucket m (bucketidx it)"
    by (cases "inode it") (simp_all add: map_next_def)
  have i: "iter_rest m it = concat (drop (unat (bucketidx it + 1)) (buckets m))"
    using Nil by (simp add: iter_rest_def)
  show ?thesis unfolding e i by (rule next_bucket_rest [OF assms])
next
  case (Cons y ys)
  then obtain x where "inode it = x # y # ys" by (cases "inode it") simp_all
  then show ?thesis by (simp add: map_next_def iter_rest_def)
qed

lemma map_walk_rest:
  assumes "nbuckets m < 2 ^ 63"
  shows "length (iter_rest m it) < n \<Longrightarrow> map_walk n m it = map nkey (iter_rest m it)"
proof (induction n arbitrary: it)
  case (Suc n)
  note step = map_next_rest [OF assms, of it]
  show ?case
  proof (cases "iter_rest m it")
    case Nil
    then show ?thesis using step by (simp add: case_prod_beta split: option.split)
  next
    case (Cons x xs)
    then obtain it' where "map_next m it = (Some (nkey x), it')" "iter_rest m it' = xs" using step by auto
    then show ?thesis using Suc Cons by simp
  qed
qed simp

text \<open>The keys in the order of the walk; the loops of the program visit these.\<close>

definition map_keys :: "'v map_base \<Rightarrow> string list" where
  "map_keys m = map_walk (nnodes m + 1) m map_iter"

lemma iter_rest_start: "iter_rest m map_iter = map_nodes m"
  by (simp add: iter_rest_def map_iter_def)

lemma map_walk_all:
  assumes "map_ok m" and "nnodes m < n"
  shows "map_walk n m map_iter = map nkey (map_nodes m)"
proof -
  have "nbuckets m < 2 ^ 63" "nnodes m = length (map_nodes m)"
    using assms(1) by (simp_all add: map_ok_def map_placed_def)
  then show ?thesis using map_walk_rest [of m map_iter n] assms(2) unfolding iter_rest_start by simp
qed

lemma map_keys_nodes: "map_ok m \<Longrightarrow> map_keys m = map nkey (map_nodes m)"
  unfolding map_keys_def by (rule map_walk_all) simp_all

lemma map_table_dom: "map_ok m \<Longrightarrow> (map_table m key \<noteq> None) = (key \<in> set (map_keys m))"
  by (auto simp: map_keys_nodes map_table_def map_of_eq_None_iff entry_def image_image)

lemma map_keys_distinct: "map_ok m \<Longrightarrow> distinct (map_keys m)"
  by (simp add: map_keys_nodes map_ok_def)

lemma map_keys_length: "map_ok m \<Longrightarrow> length (map_keys m) = nnodes m"
  by (simp add: map_keys_nodes map_ok_def)

lemma map_set_keys:
  assumes m: "map_ok m" and s: "map_base_set A m key v = (ok, m')" and k: "map_table m key \<noteq> None"
  shows "map_keys m' = map_keys m"
proof -
  have "map_base_get m key \<noteq> None" using k map_get_table [OF m] by simp
  then obtain n i where g: "map_getref m key = Some (n, i)" by (auto simp: map_base_get_def)
  note r = map_replace_ok [OF m g, of m' v] base_set_eqs(1) [OF g, of A v]
  then show ?thesis using s m by (simp add: map_keys_nodes)
qed

section \<open>Release\<close>

text \<open>\<open>map_deinit_\<close>: the nodes in the order they are freed, the last bucket first.\<close>

fun free_buckets :: "'v map_base \<Rightarrow> nat \<Rightarrow> 'v map_node list" where
  "free_buckets m 0 = []"
| "free_buckets m (Suc i) = buckets m ! i @ free_buckets m i"

definition map_deinit :: "'v map_t \<Rightarrow> 'v map_node list" where
  "map_deinit m = free_buckets (base m) (nbuckets (base m))"

lemma free_buckets_mset: "n \<le> nbuckets m \<Longrightarrow> mset (free_buckets m n) = mset (concat (take n (buckets m)))"
  by (induction n) (simp_all add: take_Suc_conv_app_nth)

lemma map_deinit_all: "mset (map_deinit m) = mset (map_nodes (base m))"
  by (simp add: map_deinit_def free_buckets_mset)

section \<open>The interface of the map\<close>

text \<open>What \<open>elf_gen.c\<close> relies on.  \<open>room\<close> is where the doubling of the bucket array cannot wrap.\<close>

locale lookup_table =
  fixes get :: "'m \<Rightarrow> string \<Rightarrow> 'v option"
    and put :: "'m \<Rightarrow> string \<Rightarrow> 'v \<Rightarrow> bool \<times> 'm"
    and del :: "'m \<Rightarrow> string \<Rightarrow> 'm"
    and keys :: "'m \<Rightarrow> string list"
    and room :: "'m \<Rightarrow> bool"
    and inv :: "'m \<Rightarrow> bool"
  assumes put: "inv m \<Longrightarrow> room m \<Longrightarrow> put m k v = (ok, m') \<Longrightarrow>
      inv m' \<and> get m' = (if ok then (get m)(k \<mapsto> v) else get m)"
    and del: "inv m \<Longrightarrow> inv (del m k) \<and> get (del m k) = (get m)(k := None)"
    and keys: "inv m \<Longrightarrow> distinct (keys m) \<and> (k \<in> set (keys m) \<longleftrightarrow> get m k \<noteq> None)"
    and keys_replace: "inv m \<Longrightarrow> put m k v = (ok, m') \<Longrightarrow> get m k \<noteq> None \<Longrightarrow> keys m' = keys m"
begin

lemma get_put_same: "inv m \<Longrightarrow> room m \<Longrightarrow> put m k v = (True, m') \<Longrightarrow> get m' k = Some v"
  using put by fastforce

lemma get_put_other: "inv m \<Longrightarrow> room m \<Longrightarrow> put m k v = (ok, m') \<Longrightarrow> j \<noteq> k \<Longrightarrow> get m' j = get m j"
  using put by fastforce

lemma put_keys:
  "inv m \<Longrightarrow> room m \<Longrightarrow> put m k v = (True, m') \<Longrightarrow> set (keys m') = insert k (set (keys m))"
  using put [of m k v True m'] keys by (auto split: if_splits)

lemma del_keys: "inv m \<Longrightarrow> set (keys (del m k)) = set (keys m) - {k}"
  using del [of m k] keys by (auto split: if_splits)

lemma put_del_get: "inv m \<Longrightarrow> room m \<Longrightarrow> put m k v = (True, m') \<Longrightarrow> get (del m' k) = (get m)(k := None)"
  using put [of m k v True m'] del [of m' k] by auto

end

abbreviation table_room :: "'v map_t \<Rightarrow> bool" where
  "table_room m \<equiv> nnodes (base m) < 2 ^ 60"

abbreviation table_ok :: "'v map_t \<Rightarrow> bool" where
  "table_ok m \<equiv> map_ok (base m)"

lemma map_get_table': "table_ok m \<Longrightarrow> map_get m = map_table (base m)"
  by (rule ext) (simp add: map_get_def map_get_table)

lemma map_set_base:
  "map_set A m key v = (ok, m') \<Longrightarrow> map_base_set A (base m) key v = (ok, base m') \<and> count m' = count m + 1"
  by (auto simp: map_set_def split: prod.splits)

interpretation mt: lookup_table map_get "map_set A" map_remove "\<lambda>m. map_keys (base m)" table_room table_ok
proof
  fix m m' :: "'a map_t" and k v ok
  assume m: "table_ok m" "table_room m" and s: "map_set A m k v = (ok, m')"
  then show "table_ok m' \<and> map_get m' = (if ok then (map_get m)(k \<mapsto> v) else map_get m)"
    using map_set_ok [OF m conjunct1 [OF map_set_base [OF s]]] by (simp add: map_get_table')
next
  fix m :: "'a map_t" and k
  assume "table_ok m"
  then show "table_ok (map_remove m k) \<and> map_get (map_remove m k) = (map_get m)(k := None)"
    using map_remove_ok [of "base m" k] by (simp add: map_get_table' map_remove_def)
next
  fix m :: "'a map_t" and k
  assume "table_ok m"
  then show "distinct (map_keys (base m)) \<and> (k \<in> set (map_keys (base m)) \<longleftrightarrow> map_get m k \<noteq> None)"
    unfolding map_get_table' [OF \<open>table_ok m\<close>] using map_keys_distinct map_table_dom by metis
next
  fix m m' :: "'a map_t" and k v ok
  assume m: "table_ok m" and s: "map_set A m k v = (ok, m')" and k: "map_get m k \<noteq> None"
  show "map_keys (base m') = map_keys (base m)"
    by (rule map_set_keys [OF m conjunct1 [OF map_set_base [OF s]] k [unfolded map_get_table' [OF m]]])
qed

section \<open>The counter of the macros\<close>

text \<open>\<open>map_set\<close> counts every call and \<open>map_remove\<close> discounts every call; the counter is the number
  of keys as long as only new keys are set and only keys that are present are removed.\<close>

definition counted :: "'v map_t \<Rightarrow> bool" where
  "counted m \<longleftrightarrow> count m = of_nat (nnodes (base m))"

lemma map_init_ok: "table_ok map_init" "counted map_init" "map_keys (base map_init) = []"
proof -
  show ok: "table_ok map_init" by (simp add: map_init_def map_ok_def map_placed_def)
  show "counted map_init" by (simp add: map_init_def counted_def)
  show "map_keys (base map_init) = []" unfolding map_keys_nodes [OF ok] by (simp add: map_init_def)
qed

lemma map_init_empty [simp]: "nnodes (base map_init) = 0" "map_get map_init = (\<lambda>_. None)"
  by (simp_all add: fun_eq_iff map_get_def map_base_get_def map_getref_def map_init_def)

lemma map_set_counts:
  assumes m: "table_ok m" "table_room m" "counted m" and s: "map_set A m key v = (ok, m')"
  shows "count m' = of_nat (nnodes (base m')) + (if ok \<and> map_get m key = None then 0 else 1)"
  using map_set_ok [OF m(1,2) conjunct1 [OF map_set_base [OF s]]] map_set_base [OF s] m(3)
  by (auto simp: counted_def map_get_table' [OF m(1)])

text \<open>\<open>map_remove\<close> takes a node away exactly if there is one for the key.\<close>

lemma map_remove_counts:
  assumes m: "table_ok m"
  shows "nnodes (base (map_remove m key)) + (if map_get m key = None then 0 else 1) = nnodes (base m)"
proof (cases "map_getref (base m) key")
  case None
  then show ?thesis by (simp add: map_get_def map_base_get_def map_remove_def map_base_remove_def)
next
  case (Some p)
  obtain n i where p: "p = (n, i)" by fastforce
  have pl: "map_placed (base m)" and nn: "nnodes (base m) = length (map_nodes (base m))"
    using m by (simp_all add: map_ok_def)
  note g = getref_Some [OF pl Some [unfolded p]]
  have "buckets (base m) ! n ! i \<in> set (map_nodes (base m))" using g unfolding mem_nodes by auto
  then have "0 < nnodes (base m)" unfolding nn by (rule length_pos_if_in_set)
  then show ?thesis using Some p by (simp add: map_get_def map_base_get_def map_remove_def map_base_remove_def Let_def)
qed

section \<open>Sequences of operations\<close>

text \<open>Every call has an allocator of its own, which decides by the size of a request.\<close>

datatype 'v map_op = Set map_alloc string 'v | Remove string

fun map_run :: "'v map_t \<Rightarrow> 'v map_op list \<Rightarrow> bool list \<times> 'v map_t" where
  "map_run m [] = ([], m)"
| "map_run m (Set A k v # ops) =
     (let (ok, m1) = map_set A m k v; (oks, m') = map_run m1 ops in (ok # oks, m'))"
| "map_run m (Remove k # ops) = (let (oks, m') = map_run (map_remove m k) ops in (True # oks, m'))"

text \<open>The specification: a partial function, changed by the operations that succeeded.\<close>

fun table_run :: "(string \<Rightarrow> 'v option) \<Rightarrow> bool list \<Rightarrow> 'v map_op list \<Rightarrow> string \<Rightarrow> 'v option" where
  "table_run t (ok # oks) (Set A k v # ops) = table_run (if ok then t(k \<mapsto> v) else t) oks ops"
| "table_run t (ok # oks) (Remove k # ops) = table_run (t(k := None)) oks ops"
| "table_run t _ _ = t"

fun served :: "'v map_op \<Rightarrow> bool" where
  "served (Set A k v) = (\<forall>n. map_avail A n)"
| "served (Remove k) = True"

lemma map_remove_nnodes: "nnodes (base (map_remove m k)) \<le> nnodes (base m)"
  by (simp add: map_remove_def map_base_remove_def Let_def split: option.split)

lemma map_set_nnodes:
  "table_ok m \<Longrightarrow> table_room m \<Longrightarrow> map_set A m k v = (ok, m') \<Longrightarrow> nnodes (base m') \<le> nnodes (base m) + 1"
  using map_set_ok [of "base m" A k v ok "base m'"] map_set_base [of A m k v ok m'] by (auto split: if_splits)

lemma newnode_avail: "(\<And>n. map_avail A n) \<Longrightarrow> map_newnode A k v \<noteq> None"
  by (simp add: map_newnode_def Let_def)

lemma map_set_avail: "(\<And>n. map_avail A n) \<Longrightarrow> fst (map_set A m k v)"
  using newnode_avail [of A k v]
  by (auto simp: map_set_def map_base_set_def map_resize_def Let_def split: option.split prod.splits)

lemma map_run_refines:
  "table_ok m \<Longrightarrow> nnodes (base m) + length ops < 2 ^ 60 \<Longrightarrow> map_run m ops = (oks, m') \<Longrightarrow>
   table_ok m' \<and> map_get m' = table_run (map_get m) oks ops \<and> nnodes (base m') \<le> nnodes (base m) + length ops"
proof (induction m ops arbitrary: oks rule: map_run.induct)
  case (2 m A k v ops)
  obtain ok m1 where s: "map_set A m k v = (ok, m1)" by fastforce
  obtain oks1 where o: "map_run m1 ops = (oks1, m')" "oks = ok # oks1"
    using 2(4) s by (auto split: prod.splits)
  have room: "table_room m" using 2(3) by simp
  have n: "nnodes (base m1) \<le> nnodes (base m) + 1" by (rule map_set_nnodes [OF 2(2) room s])
  then have "nnodes (base m1) + length ops < 2 ^ 60" using 2(3) by simp
  from 2(1) [OF s [symmetric] refl _ this o(1)] mt.put [OF 2(2) room s] n
  show ?case using o(2) by simp
next
  case (3 m k ops)
  obtain oks1 where o: "map_run (map_remove m k) ops = (oks1, m')" "oks = True # oks1"
    using 3(4) by (auto split: prod.splits)
  have n: "nnodes (base (map_remove m k)) + length ops < 2 ^ 60"
    using map_remove_nnodes [of m k] 3(3) by simp
  from 3(1) [OF _ n o(1)] mt.del [OF 3(2), of k] map_remove_nnodes [of m k] show ?case
    using o(2) by (simp add: fun_upd_def)
qed simp

lemma map_run_oks: "\<forall>p \<in> set ops. served p \<Longrightarrow> fst (map_run m ops) = replicate (length ops) True"
proof (induction m ops rule: map_run.induct)
  case (2 m A k v ops)
  obtain ok m1 where s: "map_set A m k v = (ok, m1)" by fastforce
  have "\<And>n. map_avail A n" using 2(2) by simp
  then have "ok" using map_set_avail [of A m k v] s by simp
  then show ?case using 2(1) [OF s [symmetric] refl] 2(2) s by (simp add: case_prod_beta)
qed (auto simp: case_prod_beta)

section \<open>Properties\<close>

text \<open>
  C34: After any sequence of \<open>map_set\<close> and \<open>map_remove\<close> calls on a zeroed map, each under an
  allocator of its own that may refuse requests by their size, the invariant of the map holds and
  \<open>map_get\<close> answers exactly as the partial function changed by the calls that succeeded; where
  every request is served, every call succeeds.
\<close>
theorem map_refines_table:
  assumes "length ops < 2 ^ 60" and "map_run map_init ops = (oks, m)"
  shows "table_ok m \<and> map_get m = table_run (\<lambda>_. None) oks ops
    \<and> ((\<forall>p \<in> set ops. served p) \<longrightarrow> oks = replicate (length ops) True)"
  using map_run_refines [OF map_init_ok(1) _ assms(2)] map_run_oks [of ops map_init] assms by simp

abbreviation always :: map_alloc where
  "always \<equiv> \<lparr>map_avail = (\<lambda>n. True), vsize = 4\<rparr>"

theorem map_refines_table_witness:
  "\<exists>m. map_run map_init [Set always ''text'' (1 :: nat), Set always ''data'' 2, Remove ''text'', Set always ''data'' 3]
      = ([True, True, True, True], m) \<and> table_ok m \<and> map_get m = [''data'' \<mapsto> 3]"
proof -
  let ?ops = "[Set always ''text'' (1 :: nat), Set always ''data'' 2, Remove ''text'', Set always ''data'' 3]"
  obtain oks m where m: "map_run map_init ?ops = (oks, m)" by fastforce
  have oks: "oks = [True, True, True, True]" and t: "table_ok m" "map_get m = table_run (\<lambda>_. None) oks ?ops"
    using map_refines_table [OF _ m] by simp_all
  then have "map_get m = [''data'' \<mapsto> 3]" by (simp add: fun_eq_iff)
  then show ?thesis using m oks t(1) by simp
qed

text \<open>C35: A loop over \<open>map_next\<close> ends: it sees as many keys as there are nodes, each key of the map
  exactly once and no other, and a longer run of the loop adds nothing.\<close>

theorem map_walk_visits_all:
  assumes "table_ok m" and "nnodes (base m) < n"
  shows "distinct (map_walk n (base m) map_iter)
    \<and> set (map_walk n (base m) map_iter) = {key. map_get m key \<noteq> None}
    \<and> length (map_walk n (base m) map_iter) = nnodes (base m)"
proof -
  have "map_walk n (base m) map_iter = map_keys (base m)"
    using map_walk_all [OF assms] map_keys_nodes [OF assms(1)] by simp
  then show ?thesis
    using mt.keys [OF assms(1)] map_keys_length [OF assms(1)] by auto
qed

theorem map_walk_visits_all_witness:
  "\<exists>m. map_run map_init [Set always ''text'' (1 :: nat), Set always ''data'' 2] = ([True, True], m)
    \<and> distinct (map_walk 3 (base m) map_iter) \<and> set (map_walk 3 (base m) map_iter) = {''text'', ''data''}"
proof -
  let ?ops = "[Set always ''text'' (1 :: nat), Set always ''data'' 2]"
  obtain oks m where m: "map_run map_init ?ops = (oks, m)" by fastforce
  note r = map_run_refines [OF map_init_ok(1) _ m]
  have oks: "oks = [True, True]" using map_run_oks [of ?ops map_init] m by simp
  have t: "table_ok m" "nnodes (base m) < 3" "map_get m = [''text'' \<mapsto> 1, ''data'' \<mapsto> 2]"
    using r oks by (simp_all add: fun_eq_iff)
  have "{key. map_get m key \<noteq> None} = {''text'', ''data''}" unfolding t(3) by auto
  then show ?thesis using map_walk_visits_all [OF t(1,2)] m oks by simp
qed

text \<open>
  C36: The counter of a map (which \<open>elf_gen.c\<close> reads as the number of headers) stays the number of
  keys exactly when \<open>map_set\<close> succeeds on a key that was not there, and when \<open>map_remove\<close> finds its
  key: replacing a value, a refused allocation and the removal of a missing key are counted, too.
\<close>
theorem map_counter_counts_calls:
  assumes "table_ok m" and "table_room m" and "counted m" and "map_set A m key v = (ok, m')"
  shows "(counted m' \<longleftrightarrow> ok \<and> map_get m key = None)
    \<and> (counted (map_remove m key) \<longleftrightarrow> map_get m key \<noteq> None)"
proof
  show "counted m' \<longleftrightarrow> ok \<and> map_get m key = None" using map_set_counts [OF assms] by (simp add: counted_def)
  have "count (map_remove m key) = count m - 1" by (simp add: map_remove_def)
  moreover have "of_nat (Suc a) - 1 = (of_nat a :: u64)" for a by simp
  ultimately show "counted (map_remove m key) \<longleftrightarrow> map_get m key \<noteq> None"
    using map_remove_counts [OF assms(1), of key, symmetric] assms(3)
    by (cases "map_get m key") (simp_all add: counted_def del: of_nat_Suc)
qed

theorem map_counter_counts_calls_witness:
  "\<not> counted (snd (map_set (always\<lparr>map_avail := (\<lambda>_. False)\<rparr>) (map_init :: nat map_t) ''text'' 1))
   \<and> \<not> counted (map_remove (map_init :: nat map_t) ''text'')"
proof -
  let ?A = "always\<lparr>map_avail := (\<lambda>_. False)\<rparr>"
  obtain ok m' where s: "map_set ?A (map_init :: nat map_t) ''text'' 1 = (ok, m')" by fastforce
  then have "\<not> ok"
    by (auto simp: map_set_def map_base_set_def map_newnode_def map_getref_def map_init_def)
  then show ?thesis
    using map_counter_counts_calls [OF map_init_ok(1) _ map_init_ok(2) s] s by simp
qed

end
