(* ===== verification/Elf_Gen.thy ===== *)
theory Elf_Gen
  imports Vec_Ops Map_Table
begin

text \<open>
  The ELF writer, \<open>csrc/src/elf_gen.c\<close> and \<open>csrc/include/elf_gen.h\<close>: the file header, the tables
  of program and section headers in hash maps keyed by name, the pass that assigns file offsets
  and builds the section name table, and the writing of the file.  The structures and constants
  of \<open>elf.h\<close> are written out; a file is its bytes and the position of its stream.  A pointer into a
  map is the key of its node.  \<open>None\<close> is a null pointer followed or a read past a block.
\<close>

type_synonym u16 = "16 word"

section \<open>The structures of \<open>elf.h\<close>, and their bytes\<close>

record elf32_ehdr =
  e_ident :: "u8 list"
  e_type :: u16
  e_machine :: u16
  e_version :: u32
  e_entry :: u32
  e_phoff :: u32
  e_shoff :: u32
  e_flags :: u32
  e_ehsize :: u16
  e_phentsize :: u16
  e_phnum :: u16
  e_shentsize :: u16
  e_shnum :: u16
  e_shstrndx :: u16

record elf32_phdr =
  p_type :: u32
  p_offset :: u32
  p_vaddr :: u32
  p_paddr :: u32
  p_filesz :: u32
  p_memsz :: u32
  p_flags :: u32
  p_align :: u32

record elf32_shdr =
  sh_name :: u32
  sh_type :: u32
  sh_flags :: u32
  sh_addr :: u32
  sh_offset :: u32
  sh_size :: u32
  sh_link :: u32
  sh_info :: u32
  sh_addralign :: u32
  sh_entsize :: u32

definition le16 :: "u16 \<Rightarrow> u8 list" where
  "le16 w = [ucast w, ucast (drop_bit 8 w)]"

definition ehdr_bytes :: "elf32_ehdr \<Rightarrow> u8 list" where
  "ehdr_bytes h = e_ident h @ le16 (e_type h) @ le16 (e_machine h) @ le32 (e_version h) @ le32 (e_entry h)
     @ le32 (e_phoff h) @ le32 (e_shoff h) @ le32 (e_flags h) @ le16 (e_ehsize h) @ le16 (e_phentsize h)
     @ le16 (e_phnum h) @ le16 (e_shentsize h) @ le16 (e_shnum h) @ le16 (e_shstrndx h)"

definition phdr_bytes :: "elf32_phdr \<Rightarrow> u8 list" where
  "phdr_bytes h = le32 (p_type h) @ le32 (p_offset h) @ le32 (p_vaddr h) @ le32 (p_paddr h)
     @ le32 (p_filesz h) @ le32 (p_memsz h) @ le32 (p_flags h) @ le32 (p_align h)"

definition shdr_bytes :: "elf32_shdr \<Rightarrow> u8 list" where
  "shdr_bytes h = le32 (sh_name h) @ le32 (sh_type h) @ le32 (sh_flags h) @ le32 (sh_addr h)
     @ le32 (sh_offset h) @ le32 (sh_size h) @ le32 (sh_link h) @ le32 (sh_info h)
     @ le32 (sh_addralign h) @ le32 (sh_entsize h)"

text \<open>\<open>sizeof\<close> of the three.\<close>

definition EHDR_SIZE :: nat where "EHDR_SIZE = 52"
definition PHDR_SIZE :: nat where "PHDR_SIZE = 32"
definition SHDR_SIZE :: nat where "SHDR_SIZE = 40"

definition PAGE_SIZE :: u64 where
  "PAGE_SIZE = 4096"

definition align_to :: "u64 \<Rightarrow> u64 \<Rightarrow> u64" where
  "align_to val align = (val + (align - 1)) AND NOT (align - 1)"

definition phdr_zero :: elf32_phdr where
  "phdr_zero = \<lparr>p_type = 0, p_offset = 0, p_vaddr = 0, p_paddr = 0, p_filesz = 0, p_memsz = 0,
     p_flags = 0, p_align = 0\<rparr>"

definition shdr_zero :: elf32_shdr where
  "shdr_zero = \<lparr>sh_name = 0, sh_type = 0, sh_flags = 0, sh_addr = 0, sh_offset = 0, sh_size = 0,
     sh_link = 0, sh_info = 0, sh_addralign = 0, sh_entsize = 0\<rparr>"

definition SHT_STRTAB :: u32 where "SHT_STRTAB = 3"
definition SHT_NOBITS :: u32 where "SHT_NOBITS = 8"
definition SHF_STRINGS :: u32 where "SHF_STRINGS = 32"

section \<open>The context\<close>

record program_t =
  pvec :: "u8 vec"
  phdr :: elf32_phdr

record section_t =
  svec :: "u8 vec"
  shdr :: elf32_shdr

record section_map_t =
  smap :: "section_t map_t"
  shstrtab :: section_t

record elf_gen_ctx =
  elf_header :: elf32_ehdr
  segments :: "program_t map_t"
  sections :: section_map_t

text \<open>The allocators: of byte vectors, of segment nodes, of section nodes.\<close>

record elf_alloc =
  byte_alloc :: "u8 allocator"
  seg_alloc :: map_alloc
  sec_alloc :: map_alloc

definition elf_gen_ctx_init :: elf_gen_ctx where
  "elf_gen_ctx_init = \<lparr>elf_header =
       \<lparr>e_ident = [0x7f, 0x45, 0x4c, 0x46, 1, 1, 1, 0, 0, 0, 0, 0, 0, 0, 0, 0],
        e_type = 2, e_machine = 3, e_version = 1, e_entry = 0, e_phoff = 0, e_shoff = 0, e_flags = 0,
        e_ehsize = of_nat EHDR_SIZE, e_phentsize = 0, e_phnum = 0, e_shentsize = 0, e_shnum = 0,
        e_shstrndx = 0\<rparr>,
     segments = map_init,
     sections = \<lparr>smap = map_init, shstrtab = \<lparr>svec = vec_init, shdr = shdr_zero\<rparr>\<rparr>\<rparr>"

text \<open>The last result of both is the pointer returned, \<open>None\<close> for a null pointer.\<close>

definition gen_program_header :: "elf_alloc \<Rightarrow> elf_gen_ctx \<Rightarrow> string \<Rightarrow> elf32_phdr
    \<Rightarrow> elf_gen_ctx \<times> program_t option" where
  "gen_program_header A ctx name header =
     (let (_, m) = map_set (seg_alloc A) (segments ctx) name
            \<lparr>pvec = vec_init, phdr = header\<lparr>p_align := ucast PAGE_SIZE\<rparr>\<rparr>
      in (ctx\<lparr>segments := m\<rparr>, map_get m name))"

definition gen_section_header :: "elf_alloc \<Rightarrow> elf_gen_ctx \<Rightarrow> string \<Rightarrow> elf32_shdr
    \<Rightarrow> elf_gen_ctx \<times> section_t option" where
  "gen_section_header A ctx name header =
     (let (_, m) = map_set (sec_alloc A) (smap (sections ctx)) name
            \<lparr>svec = vec_init, shdr = header\<lparr>sh_addralign := ucast PAGE_SIZE\<rparr>\<rparr>
      in (ctx\<lparr>sections := (sections ctx)\<lparr>smap := m\<rparr>\<rparr>, map_get m name))"

text \<open>A store through a pointer that \<open>map_get\<close> returned.\<close>

definition map_modify :: "'v map_t \<Rightarrow> string \<Rightarrow> 'v \<Rightarrow> 'v map_t option" where
  "map_modify m key v =
     (case map_getref (base m) key of
        None \<Rightarrow> None
      | Some (n, i) \<Rightarrow> Some (m\<lparr>base := (base m)\<lparr>buckets :=
          (buckets (base m))[n := (buckets (base m) ! n)[i := (buckets (base m) ! n ! i)\<lparr>nvalue := v\<rparr>]]\<rparr>\<rparr>))"

text \<open>
  A loop \<open>while ((name = map_next(m, &iter)))\<close> whose body gets the value of the name and stores a
  new one; the body links no node, so the walk visits the keys the map had at its start.
\<close>

fun map_each :: "(string \<Rightarrow> 'v \<Rightarrow> 's \<Rightarrow> ('v \<times> 's) option) \<Rightarrow> string list \<Rightarrow> 'v map_t \<Rightarrow> 's
    \<Rightarrow> ('v map_t \<times> 's) option" where
  "map_each f [] m s = Some (m, s)"
| "map_each f (name # names) m s = do {
     v \<leftarrow> map_get m name;
     (v', s') \<leftarrow> f name v s;
     m' \<leftarrow> map_modify m name v';
     map_each f names m' s' }"

section \<open>Offsets\<close>

definition fix_segment :: "string \<Rightarrow> program_t \<Rightarrow> u64 \<Rightarrow> (program_t \<times> u64) option" where
  "fix_segment name program offset =
     (let len = vlength (pvec program) in
      if len \<noteq> 0 \<and> vcapacity (pvec program) \<noteq> 0
      then Some (program\<lparr>phdr := (phdr program)\<lparr>p_filesz := of_nat len, p_memsz := of_nat len,
                    p_offset := ucast offset\<rparr>\<rparr>,
                 align_to (offset + of_nat len) PAGE_SIZE)
      else if len \<noteq> 0
      then Some (program\<lparr>phdr := (phdr program)\<lparr>p_memsz := of_nat len, p_offset := ucast offset\<rparr>\<rparr>, offset)
      else Some (program, offset))"

definition fix_section :: "u8 allocator \<Rightarrow> program_t map_t \<Rightarrow> string \<Rightarrow> section_t \<Rightarrow> u64 \<times> u8 vec
    \<Rightarrow> (section_t \<times> u64 \<times> u8 vec) option" where
  "fix_section A segs name sec st = (case st of (offset, strtab) \<Rightarrow> do {
     let len = vlength (svec sec);
     let h = (shdr sec)\<lparr>sh_name := of_nat (vlength strtab)\<rparr>;
     strtab' \<leftarrow> vec_pusharr A strtab (key_bytes name);
     let offset' = (if len \<noteq> 0 \<and> (sh_type h AND NOT SHT_NOBITS) \<noteq> 0
                    then align_to (offset + of_nat len) PAGE_SIZE else offset);
     let h' = (case map_get segs name of
                 Some program \<Rightarrow> h\<lparr>sh_size := of_nat (vlength (pvec program)),
                   sh_offset := p_offset (phdr program), sh_addr := p_vaddr (phdr program)\<rparr>
               | None \<Rightarrow> if len \<noteq> 0 then h\<lparr>sh_size := of_nat len, sh_offset := ucast offset'\<rparr> else h);
     Some (sec\<lparr>shdr := h'\<rparr>, offset', strtab') })"

text \<open>Two pointers into the map are equal when they point into the same node.\<close>

fun index_from :: "section_t map_t \<Rightarrow> string \<Rightarrow> i64 \<Rightarrow> string list \<Rightarrow> i64" where
  "index_from m key idx [] = - 1"
| "index_from m key idx (name # names) =
     (if map_getref (base m) name = map_getref (base m) key then idx else index_from m key (idx + 1) names)"

definition index_of_section :: "section_map_t \<Rightarrow> string \<Rightarrow> i64" where
  "index_of_section secs key =
     (if map_get (smap secs) key = None then - 1
      else index_from (smap secs) key 1 (map_keys (base (smap secs))))"

definition shstrtab_name :: string where
  "shstrtab_name = ''.shstrtab''"

definition fix_header_offsets :: "elf_alloc \<Rightarrow> elf_gen_ctx \<Rightarrow> elf_gen_ctx option" where
  "fix_header_offsets A ctx = do {
     let offset = align_to (of_nat EHDR_SIZE + count (segments ctx) * of_nat PHDR_SIZE) PAGE_SIZE;
     (segs, offset) \<leftarrow> map_each fix_segment (map_keys (base (segments ctx))) (segments ctx) offset;
     (_, strtab) \<leftarrow> vec_push (byte_alloc A) vec_init 0;
     strtab \<leftarrow> vec_pusharr (byte_alloc A) strtab (key_bytes shstrtab_name);
     (secs, offset, strtab) \<leftarrow> map_each (fix_section (byte_alloc A) segs)
        (map_keys (base (smap (sections ctx)))) (smap (sections ctx)) (offset, strtab);
     let stab = \<lparr>svec = strtab, shdr = shdr_zero\<lparr>sh_name := 1, sh_type := SHT_STRTAB,
        sh_addralign := ucast PAGE_SIZE, sh_flags := SHF_STRINGS, sh_size := of_nat (vlength strtab),
        sh_offset := ucast offset\<rparr>\<rparr>;
     let (_, secs) = map_set (sec_alloc A) secs shstrtab_name stab;
     let tables = \<lparr>smap = secs, shstrtab = stab\<rparr>;
     Some (ctx\<lparr>segments := segs, sections := tables,
       elf_header := (elf_header ctx)\<lparr>e_shstrndx := ucast (index_of_section tables shstrtab_name)\<rparr>\<rparr>) }"

definition finalize_elf_ctx :: "elf_alloc \<Rightarrow> elf_gen_ctx \<Rightarrow> elf_gen_ctx option" where
  "finalize_elf_ctx A ctx = do {
     ctx \<leftarrow> fix_header_offsets A ctx;
     let h = elf_header ctx;
     let h = (if count (segments ctx) \<noteq> 0
              then h\<lparr>e_phnum := ucast (count (segments ctx)), e_phentsize := of_nat PHDR_SIZE,
                     e_phoff := of_nat EHDR_SIZE\<rparr> else h);
     let h = h\<lparr>e_shnum := ucast (count (smap (sections ctx)) + 1), e_shentsize := of_nat SHDR_SIZE,
               e_shoff := ucast (of_nat EHDR_SIZE + count (segments ctx) * of_nat PHDR_SIZE)\<rparr>;
     Some (ctx\<lparr>elf_header := h\<rparr>) }"

section \<open>Writing the file\<close>

record cfile =
  fpos :: nat
  fbytes :: "u8 list"

definition fwrite :: "cfile \<Rightarrow> u8 list \<Rightarrow> cfile" where
  "fwrite f bs =
     (if bs = [] then f
      else \<lparr>fpos = fpos f + length bs,
            fbytes = take (fpos f) (fbytes f @ replicate (fpos f - length (fbytes f)) 0) @ bs
              @ drop (fpos f + length bs) (fbytes f)\<rparr>)"

definition fseek :: "cfile \<Rightarrow> nat \<Rightarrow> cfile" where
  "fseek f off = f\<lparr>fpos := off\<rparr>"

fun write_each :: "(cfile \<Rightarrow> 'v \<Rightarrow> cfile option) \<Rightarrow> string list \<Rightarrow> 'v map_t \<Rightarrow> cfile \<Rightarrow> cfile option" where
  "write_each f [] m fp = Some fp"
| "write_each f (name # names) m fp = do { v \<leftarrow> map_get m name; fp' \<leftarrow> f fp v; write_each f names m fp' }"

definition write_data :: "cfile \<Rightarrow> u8 vec \<Rightarrow> u32 \<Rightarrow> cfile option" where
  "write_data fp v off =
     (if vcapacity v = 0 then Some fp
      else if vlength v \<le> length (vdata v) then Some (fwrite (fseek fp (unat off)) (vec_list v)) else None)"

definition gen_elf_file :: "elf_alloc \<Rightarrow> elf_gen_ctx \<Rightarrow> cfile \<Rightarrow> (cfile \<times> elf_gen_ctx) option" where
  "gen_elf_file A ctx fp = do {
     ctx \<leftarrow> finalize_elf_ctx A ctx;
     let fp = fwrite fp (ehdr_bytes (elf_header ctx));
     let segs = segments ctx;
     let pkeys = map_keys (base segs);
     let secs = smap (sections ctx);
     let skeys = map_keys (base secs);
     fp \<leftarrow> write_each (\<lambda>fp program. Some (fwrite fp (phdr_bytes (phdr program)))) pkeys segs fp;
     let fp = fwrite fp (shdr_bytes shdr_zero);
     fp \<leftarrow> write_each (\<lambda>fp sec. Some (fwrite fp (shdr_bytes (shdr sec)))) skeys secs fp;
     fp \<leftarrow> write_each (\<lambda>fp program. write_data fp (pvec program) (p_offset (phdr program))) pkeys segs fp;
     fp \<leftarrow> write_each (\<lambda>fp sec. write_data fp (svec sec) (sh_offset (shdr sec))) skeys secs fp;
     Some (fp, ctx) }"

text \<open>\<open>elf_gen_ctx_free\<close>: the blocks of vectors and the nodes freed, in order.\<close>

definition elf_gen_ctx_free :: "elf_gen_ctx \<Rightarrow> u8 list list \<times> program_t map_node list
    \<times> u8 list list \<times> section_t map_node list" where
  "elf_gen_ctx_free ctx =
     (concat (map (\<lambda>name. fst (vec_deinit (pvec (the (map_get (segments ctx) name))))) (map_keys (base (segments ctx)))),
      map_deinit (segments ctx),
      concat (map (\<lambda>name. fst (vec_deinit (svec (the (map_get (smap (sections ctx)) name)))))
        (map_keys (base (smap (sections ctx))))),
      map_deinit (smap (sections ctx)))"

section \<open>Alignment\<close>

lemma align_to_spec:
  fixes val :: u64
  assumes "unat val + 4095 < 2 ^ 64"
  shows "unat (align_to val 0x1000) mod 4096 = 0" and "unat val \<le> unat (align_to val 0x1000)"
    and "unat (align_to val 0x1000) < unat val + 4096"
proof -
  let ?w = "val + 0xFFF"
  have w: "unat ?w = unat val + 4095"
    using assms by (subst unat_add_lem [THEN iffD1]) simp_all
  have "(0xFFF :: u64) = mask 12" by (simp add: mask_eq_exp_minus_1)
  then have "align_to val 0x1000 = ?w AND NOT (mask 12)" by (simp add: align_to_def)
  also have "\<dots> = push_bit 12 (drop_bit 12 ?w)"
    by (rule bit_word_eqI) (auto simp: bit_simps)
  also have "unat \<dots> = (unat ?w div 4096) * 4096"
  proof -
    have "unat (push_bit 12 (drop_bit 12 ?w)) = take_bit 64 (push_bit 12 (drop_bit 12 (unat ?w)))"
      using take_bit_nat_eq_self [OF unsigned_less, of ?w]
      by (simp add: unsigned_push_bit_eq unsigned_drop_bit_eq)
    also have "\<dots> = (unat ?w div 4096) * 4096 mod 2 ^ 64"
      by (simp add: push_bit_eq_mult drop_bit_eq_div take_bit_eq_mod)
    also have "(unat ?w div 4096) * 4096 mod 2 ^ 64 = (unat ?w div 4096) * 4096"
    proof (rule mod_less)
      show "(unat ?w div 4096) * 4096 < 2 ^ 64"
        using div_times_less_eq_dividend [of "unat ?w" 4096] w assms by linarith
    qed
    finally show ?thesis .
  qed
  finally have e: "unat (align_to val 0x1000) = ((unat val + 4095) div 4096) * 4096" unfolding w .
  show "unat (align_to val 0x1000) mod 4096 = 0" unfolding e by (rule mod_mult_self2_is_0)
  have "(unat val + 4095) div 4096 * 4096 + (unat val + 4095) mod 4096 = unat val + 4095"
    by (rule div_mult_mod_eq)
  moreover have "(unat val + 4095) mod 4096 < 4096" by (rule mod_less_divisor) simp
  ultimately show "unat val \<le> unat (align_to val 0x1000)" "unat (align_to val 0x1000) < unat val + 4096"
    unfolding e by linarith+
qed

end
