(* ===== verification/Elf_File.thy ===== *)
theory Elf_File
  imports Elf_Gen
begin

text \<open>
  What the files written by \<open>elf_gen.c\<close> contain.  The specification reads a file the way a loader
  does: the header, the program headers it points at, the bytes they name, and the section names.
  The proofs replace the loops over the hash maps by loops over lists of values, follow the
  assigned offsets, and track which bytes of the file each write leaves in place.
\<close>

section \<open>Reading an ELF file\<close>

fun le_value :: "u8 list \<Rightarrow> nat" where
  "le_value [] = 0"
| "le_value (b # bs) = unat b + 256 * le_value bs"

definition read16 :: "u8 list \<Rightarrow> nat \<Rightarrow> nat" where
  "read16 d off = le_value (take 2 (drop off d))"

definition read32 :: "u8 list \<Rightarrow> nat \<Rightarrow> nat" where
  "read32 d off = le_value (take 4 (drop off d))"

text \<open>A segment of the process image: where it goes, its access flags, its bytes and its size.\<close>

record elf_seg =
  seg_type :: nat
  seg_vaddr :: nat
  seg_flags :: nat
  seg_bytes :: "u8 list"
  seg_memsz :: nat

definition read_seg :: "u8 list \<Rightarrow> nat \<Rightarrow> elf_seg" where
  "read_seg d off = \<lparr>seg_type = read32 d off, seg_vaddr = read32 d (off + 8), seg_flags = read32 d (off + 24),
     seg_bytes = take (read32 d (off + 16)) (drop (read32 d (off + 4)) d), seg_memsz = read32 d (off + 20)\<rparr>"

definition elf_magic :: "u8 list" where
  "elf_magic = [0x7f, 0x45, 0x4c, 0x46, 1, 1, 1]"

text \<open>A 32-bit little-endian executable for the 80386: its entry point and its segments.\<close>

definition elf_load :: "u8 list \<Rightarrow> (nat \<times> elf_seg list) option" where
  "elf_load d =
     (if take 7 d = elf_magic \<and> read16 d 16 = 2 \<and> read16 d 18 = 3
      then Some (read32 d 24, map (\<lambda>i. read_seg d (read32 d 28 + i * read16 d 42)) [0..<read16 d 44])
      else None)"

text \<open>The names of the sections, through the string table section of the header.\<close>

definition string_at :: "u8 list \<Rightarrow> nat \<Rightarrow> string" where
  "string_at d off = map (\<lambda>b. char_of (unat b)) (takeWhile (\<lambda>b. b \<noteq> 0) (drop off d))"

definition elf_section_names :: "u8 list \<Rightarrow> string list" where
  "elf_section_names d =
     (let hdr = (\<lambda>i. read32 d 32 + i * read16 d 46); tab = read32 d (hdr (read16 d 50) + 16)
      in map (\<lambda>i. string_at d (tab + read32 d (hdr i))) [0..<read16 d 48])"

section \<open>Bytes in place\<close>

definition holds :: "u8 list \<Rightarrow> nat \<Rightarrow> u8 list \<Rightarrow> bool" where
  "holds d off bs \<longleftrightarrow> take (length bs) (drop off d) = bs"

lemma holds_Nil [simp]: "holds d off []"
  by (simp add: holds_def)

lemma holds_append: "holds d off (as @ bs) \<longleftrightarrow> holds d off as \<and> holds d (off + length as) bs"
proof -
  let ?x = "take (length as) (drop off d)" and ?y = "take (length bs) (drop (off + length as) d)"
  have e: "take (length (as @ bs)) (drop off d) = ?x @ ?y" by (simp add: take_add add.commute)
  have "?x = as \<and> ?y = bs" if a: "?x @ ?y = as @ bs"
  proof -
    have "length ?x + length ?y = length as + length bs" using arg_cong [OF a, of length] by simp
    then have "length ?x = length as" by simp
    from append_eq_append_conv [OF disjI1 [OF this], of ?y bs] a show ?thesis by blast
  qed
  then have "?x @ ?y = as @ bs \<longleftrightarrow> ?x = as \<and> ?y = bs" by auto
  then show ?thesis unfolding holds_def e .
qed

lemma holds_take: "holds d off bs \<Longrightarrow> take (length bs) (drop off d) = bs"
  by (simp add: holds_def)

lemma holds_length:
  assumes "holds d off bs" and "bs \<noteq> []"
  shows "off + length bs \<le> length d"
proof -
  have "length bs \<le> length d - off" using arg_cong [OF assms(1) [unfolded holds_def], of length] by simp
  moreover have "0 < length bs" using assms(2) by simp
  ultimately show ?thesis by linarith
qed

lemma holds_prefix [simp]: "holds (bs @ r) 0 bs"
  by (simp add: holds_def)

lemma holds_middle: "length a = n \<Longrightarrow> holds (a @ bs @ r) n bs"
  by (auto simp: holds_def)

text \<open>What one write does to the bytes of a file.\<close>

abbreviation put_at :: "cfile \<Rightarrow> nat \<Rightarrow> u8 list \<Rightarrow> u8 list" where
  "put_at f off bs \<equiv> fbytes (fwrite (fseek f off) bs)"

lemma put_at_eq:
  "bs \<noteq> [] \<Longrightarrow> put_at f off bs
    = take off (fbytes f @ replicate (off - length (fbytes f)) 0) @ bs @ drop (off + length bs) (fbytes f)"
  by (simp add: fwrite_def fseek_def)

lemma put_at_holds: "holds (put_at f off bs) off bs"
proof (cases "bs = []")
  case False
  have "length (take off (fbytes f @ replicate (off - length (fbytes f)) 0)) = off" by simp
  then show ?thesis unfolding put_at_eq [OF False] by (rule holds_middle)
qed simp

lemma put_at_keeps:
  assumes h: "holds (fbytes f) p cs" and d: "p + length cs \<le> off \<or> off + length bs \<le> p"
  shows "holds (put_at f off bs) p cs"
proof (cases "bs = [] \<or> cs = []")
  case True
  then show ?thesis using h by (auto simp: fwrite_def fseek_def)
next
  case False
  have l: "p + length cs \<le> length (fbytes f)" using holds_length [OF h] False by blast
  let ?pre = "take off (fbytes f @ replicate (off - length (fbytes f)) 0)"
  have pre: "length ?pre = off" by simp
  have e: "put_at f off bs = ?pre @ bs @ drop (off + length bs) (fbytes f)" using False put_at_eq by blast
  show ?thesis
  proof (cases "p + length cs \<le> off")
    case True
    have "drop p (put_at f off bs) = drop p ?pre @ bs @ drop (off + length bs) (fbytes f)"
      unfolding e using pre True by simp
    then have "take (length cs) (drop p (put_at f off bs)) = take (length cs) (drop p ?pre)"
      using pre True by simp
    also have "\<dots> = take (length cs) (drop p (fbytes f))"
    proof -
      have "length cs \<le> length (fbytes f) - p" "length cs \<le> off - p" using l True by linarith+
      then show ?thesis using l True by (simp add: drop_take)
    qed
    finally show ?thesis using h by (simp add: holds_def)
  next
    case off: False
    then have "drop p (put_at f off bs) = drop p (fbytes f)"
      unfolding e using d pre by (simp add: drop_append)
    then show ?thesis using h by (simp add: holds_def)
  qed
qed

text \<open>Writing a chain of disjoint spans.\<close>

fun chained :: "nat \<Rightarrow> (nat \<times> u8 list) list \<Rightarrow> nat \<Rightarrow> bool" where
  "chained lo [] hi \<longleftrightarrow> lo \<le> hi"
| "chained lo ((p, bs) # r) hi \<longleftrightarrow> lo \<le> p \<and> chained (p + length bs) r hi"

fun put_spans :: "cfile \<Rightarrow> (nat \<times> u8 list) list \<Rightarrow> cfile" where
  "put_spans f [] = f"
| "put_spans f ((p, bs) # r) = put_spans (fwrite (fseek f p) bs) r"

lemma chained_le: "chained lo r hi \<Longrightarrow> lo \<le> hi"
  by (induction lo r hi rule: chained.induct) auto

lemma put_spans_keeps:
  "chained lo r hi \<Longrightarrow> holds (fbytes f) p cs \<Longrightarrow> p + length cs \<le> lo \<or> hi \<le> p \<Longrightarrow>
   holds (fbytes (put_spans f r)) p cs"
proof (induction f r arbitrary: lo rule: put_spans.induct)
  case (2 f q bs r)
  then have c: "lo \<le> q" "chained (q + length bs) r hi" by simp_all
  then have "q + length bs \<le> hi" using chained_le by blast
  then have d: "p + length cs \<le> q \<or> q + length bs \<le> p" using 2(4) c(1) by linarith
  have e: "p + length cs \<le> q + length bs \<or> hi \<le> p" using 2(4) c(1) by linarith
  show ?case using 2(1) [OF c(2) put_at_keeps [OF 2(3) d] e] by simp
qed simp

lemma put_spans_holds:
  "chained lo r hi \<Longrightarrow> (p, bs) \<in> set r \<Longrightarrow> holds (fbytes (put_spans f r)) p bs"
proof (induction f r arbitrary: lo rule: put_spans.induct)
  case (2 f q cs r)
  then have c: "lo \<le> q" "chained (q + length cs) r hi" by simp_all
  show ?case
  proof (cases "(p, bs) = (q, cs)")
    case True
    then show ?thesis using put_spans_keeps [OF c(2) put_at_holds] by simp
  next
    case False
    then have "(p, bs) \<in> set r" using 2(3) by auto
    from 2(1) [OF c(2) this] show ?thesis by simp
  qed
qed simp

lemma put_spans_app: "put_spans f (r @ s) = put_spans (put_spans f r) s"
  by (induction f r rule: put_spans.induct) simp_all

lemma chained_app: "chained lo r m \<Longrightarrow> chained m s hi \<Longrightarrow> chained lo (r @ s) hi"
proof (induction lo r m rule: chained.induct)
  case (1 lo hi')
  then show ?case by (cases s) auto
qed simp

section \<open>Little-endian numbers\<close>

lemma unat_drop: "unat (drop_bit k w) = unat w div 2 ^ k" for w :: "'a::len word"
  by (subst unsigned_drop_bit_eq) (simp add: take_bit_nat_eq_self drop_bit_eq_div)

lemma low_byte: "unat (ucast w :: u8) = unat w mod 256" for w :: "'a::len word"
  by (simp add: unsigned_ucast_eq take_bit_eq_mod)

lemma le_value_le16: "le_value (le16 w) = unat w"
proof -
  have u: "unat w < 2 ^ LENGTH(16)" by (rule unsigned_less)
  have "unat w div 256 < 256" using u by (intro less_mult_imp_div_less) simp
  then have "unat w div 2 ^ 8 mod 256 = unat w div 256" by simp
  then show ?thesis
    by (simp only: le16_def le_value.simps unat_drop low_byte mult_0_right add_0_right mod_mult_div_eq)
qed

lemma le_value_le32: "le_value (le32 w) = unat w"
proof -
  have u: "unat w < 2 ^ LENGTH(32)" by (rule unsigned_less)
  let ?n = "unat w"
  have d: "?n div 2 ^ 8 = ?n div 256" "?n div 2 ^ 16 = ?n div 256 div 256"
      "?n div 2 ^ 24 = ?n div 256 div 256 div 256"
    by (simp_all only: div_mult2_eq [symmetric]) simp_all
  have "?n div 256 div 256 div 256 < 256"
    using u by (simp only: div_mult2_eq [symmetric]) (rule less_mult_imp_div_less, simp)
  then have m: "?n div 256 div 256 div 256 mod 256 = ?n div 256 div 256 div 256" by (rule mod_less)
  show ?thesis
    by (simp only: le32_def le_value.simps unat_drop low_byte d m mult_0_right add_0_right mod_mult_div_eq)
qed

lemma read16_holds:
  assumes "holds d p (le16 w)"
  shows "read16 d p = unat w"
proof -
  have "length (le16 w) = 2" by (simp add: le16_def)
  then have "take 2 (drop p d) = le16 w" using assms by (simp only: holds_def)
  then show ?thesis by (simp only: read16_def le_value_le16)
qed

lemma read32_holds:
  assumes "holds d p (le32 w)"
  shows "read32 d p = unat w"
proof -
  have "take 4 (drop p d) = le32 w" using assms by (simp only: holds_def length_le32)
  then show ?thesis by (simp only: read32_def le_value_le32)
qed

lemma length_le16 [simp]: "length (le16 w) = 2"
  by (simp add: le16_def)

lemma length_phdr_bytes [simp]: "length (phdr_bytes h) = PHDR_SIZE"
  by (simp add: phdr_bytes_def PHDR_SIZE_def)

lemma length_shdr_bytes [simp]: "length (shdr_bytes h) = SHDR_SIZE"
  by (simp add: shdr_bytes_def SHDR_SIZE_def)

lemma length_ehdr_bytes: "length (e_ident h) = 16 \<Longrightarrow> length (ehdr_bytes h) = EHDR_SIZE"
  by (simp add: ehdr_bytes_def EHDR_SIZE_def)

text \<open>Headers in place are read back field by field.\<close>

lemma read_phdr:
  assumes "holds d p (phdr_bytes h)"
  shows "read32 d p = unat (p_type h)" "read32 d (p + 4) = unat (p_offset h)"
    "read32 d (p + 8) = unat (p_vaddr h)" "read32 d (p + 16) = unat (p_filesz h)"
    "read32 d (p + 20) = unat (p_memsz h)" "read32 d (p + 24) = unat (p_flags h)"
  using assms by (auto simp: phdr_bytes_def holds_append add.assoc intro!: read32_holds)

lemma read_shdr:
  assumes "holds d p (shdr_bytes h)"
  shows "read32 d p = unat (sh_name h)" "read32 d (p + 16) = unat (sh_offset h)"
  using assms by (auto simp: shdr_bytes_def holds_append add.assoc intro!: read32_holds)

lemma read_ehdr:
  assumes "holds d 0 (ehdr_bytes h)" and "length (e_ident h) = 16"
  shows "read16 d 16 = unat (e_type h)" "read16 d 18 = unat (e_machine h)" "read32 d 24 = unat (e_entry h)"
    "read32 d 28 = unat (e_phoff h)" "read32 d 32 = unat (e_shoff h)" "read16 d 42 = unat (e_phentsize h)"
    "read16 d 44 = unat (e_phnum h)" "read16 d 46 = unat (e_shentsize h)" "read16 d 48 = unat (e_shnum h)"
    "read16 d 50 = unat (e_shstrndx h)" "take 7 d = take 7 (e_ident h)"
proof -
  have h: "holds d 0 (e_ident h)" "holds d 16 (le16 (e_type h))" "holds d 18 (le16 (e_machine h))"
    "holds d 24 (le32 (e_entry h))" "holds d 28 (le32 (e_phoff h))" "holds d 32 (le32 (e_shoff h))"
    "holds d 42 (le16 (e_phentsize h))" "holds d 44 (le16 (e_phnum h))" "holds d 46 (le16 (e_shentsize h))"
    "holds d 48 (le16 (e_shnum h))" "holds d 50 (le16 (e_shstrndx h))"
    using assms by (auto simp: ehdr_bytes_def holds_append)
  show "read16 d 16 = unat (e_type h)" "read16 d 18 = unat (e_machine h)" "read32 d 24 = unat (e_entry h)"
    "read32 d 28 = unat (e_phoff h)" "read32 d 32 = unat (e_shoff h)" "read16 d 42 = unat (e_phentsize h)"
    "read16 d 44 = unat (e_phnum h)" "read16 d 46 = unat (e_shentsize h)" "read16 d 48 = unat (e_shnum h)"
    "read16 d 50 = unat (e_shstrndx h)"
    by (intro read16_holds read32_holds h)+
  have "take 16 d = e_ident h" using h(1) assms(2) by (simp add: holds_def)
  then have "take 7 (take 16 d) = take 7 (e_ident h)" by (rule arg_cong)
  then show "take 7 d = take 7 (e_ident h)" by simp
qed

lemma holds_concat:
  "holds d p (concat xs) \<Longrightarrow> (\<And>x. x \<in> set xs \<Longrightarrow> length x = n) \<Longrightarrow> i < length xs \<Longrightarrow> holds d (p + i * n) (xs ! i)"
proof (induction xs arbitrary: p i)
  case (Cons x xs)
  have x: "length x = n" using Cons.prems(2) by simp
  show ?case
  proof (cases i)
    case 0
    then show ?thesis using Cons.prems(1) by (simp add: holds_append)
  next
    case (Suc j)
    have "holds d (p + n) (concat xs)" using Cons.prems(1) x by (simp add: holds_append)
    then have "holds d (p + n + j * n) (xs ! j)" using Cons.prems Suc by (intro Cons.IH) simp_all
    then show ?thesis using Suc by (simp add: algebra_simps)
  qed
qed simp

section \<open>Loops over a map as loops over its values\<close>

abbreviation map_values :: "'v map_t \<Rightarrow> 'v list" where
  "map_values m \<equiv> map (\<lambda>k. the (map_get m k)) (map_keys (base m))"

fun each_l :: "(string \<Rightarrow> 'v \<Rightarrow> 's \<Rightarrow> ('v \<times> 's) option) \<Rightarrow> (string \<times> 'v) list \<Rightarrow> 's \<Rightarrow> ('v list \<times> 's) option" where
  "each_l f [] s = Some ([], s)"
| "each_l f ((k, v) # xs) s = do { (v', s') \<leftarrow> f k v s; (vs, s'') \<leftarrow> each_l f xs s'; Some (v' # vs, s'') }"

lemma map_modify_ok:
  assumes m: "table_ok m" and k: "map_get m key \<noteq> None"
  obtains m' where "map_modify m key v = Some m'" "table_ok m'" "map_get m' = (map_get m)(key \<mapsto> v)"
    "map_keys (base m') = map_keys (base m)" "count m' = count m" "nnodes (base m') = nnodes (base m)"
proof -
  obtain n i where g: "map_getref (base m) key = Some (n, i)"
    using k by (auto simp: map_get_def map_base_get_def)
  let ?b = "(base m)\<lparr>buckets := (buckets (base m))[n := (buckets (base m) ! n)[i :=
    (buckets (base m) ! n ! i)\<lparr>nvalue := v\<rparr>]]\<rparr>"
  note r = map_replace_ok [OF m g refl, of v]
  have t: "table_ok (m\<lparr>base := ?b\<rparr>)" using r by simp
  show thesis
  proof (rule that [of "m\<lparr>base := ?b\<rparr>"])
    show "map_modify m key v = Some (m\<lparr>base := ?b\<rparr>)" by (simp add: map_modify_def g)
    show "map_get (m\<lparr>base := ?b\<rparr>) = (map_get m)(key \<mapsto> v)"
      using r map_get_table' [OF t] map_get_table' [OF m] by simp
    show "map_keys (base (m\<lparr>base := ?b\<rparr>)) = map_keys (base m)"
      using r map_keys_nodes [OF t] map_keys_nodes [OF m] by simp
  qed (use t in simp_all)
qed

lemma map_each_list:
  assumes "table_ok m" and "distinct ks" and "\<forall>k \<in> set ks. map_get m k \<noteq> None"
    and "each_l f (map (\<lambda>k. (k, the (map_get m k))) ks) s = Some (vs, s')"
  shows "\<exists>m'. map_each f ks m s = Some (m', s') \<and> table_ok m' \<and> map_keys (base m') = map_keys (base m)
    \<and> count m' = count m \<and> nnodes (base m') = nnodes (base m)
    \<and> map (\<lambda>k. the (map_get m' k)) ks = vs \<and> (\<forall>k. k \<notin> set ks \<longrightarrow> map_get m' k = map_get m k)"
  using assms
proof (induction ks arbitrary: m s vs)
  case (Cons k ks)
  obtain v where v: "map_get m k = Some v" using Cons.prems(3) by auto
  obtain v' s1 vs' where f: "f k v s = Some (v', s1)" "vs = v' # vs'"
      and e: "each_l f (map (\<lambda>k. (k, the (map_get m k))) ks) s1 = Some (vs', s')"
    using Cons.prems(4) v by (auto split: bind_split_asm)
  obtain m1 where m1: "map_modify m k v' = Some m1" "table_ok m1" "map_get m1 = (map_get m)(k \<mapsto> v')"
    "map_keys (base m1) = map_keys (base m)" "count m1 = count m" "nnodes (base m1) = nnodes (base m)"
    using map_modify_ok [OF Cons.prems(1)] v by blast
  have nk: "k \<notin> set ks" "distinct ks" using Cons.prems(2) by simp_all
  have same: "map (\<lambda>k. (k, the (map_get m1 k))) ks = map (\<lambda>k. (k, the (map_get m k))) ks"
    using nk m1(3) by (auto simp: map_eq_conv)
  have e1: "each_l f (map (\<lambda>k. (k, the (map_get m1 k))) ks) s1 = Some (vs', s')" unfolding same by (rule e)
  have "\<forall>j \<in> set ks. map_get m1 j \<noteq> None" using Cons.prems(3) m1(3) by simp
  from Cons.IH [OF m1(2) nk(2) this e1] obtain m' where m': "map_each f ks m1 s1 = Some (m', s')"
      "table_ok m'" "map_keys (base m') = map_keys (base m1)" "count m' = count m1"
      "nnodes (base m') = nnodes (base m1)" "map (\<lambda>k. the (map_get m' k)) ks = vs'"
      "\<forall>k. k \<notin> set ks \<longrightarrow> map_get m' k = map_get m1 k" by blast
  have "map_each f (k # ks) m s = Some (m', s')" using v f(1) m1(1) m'(1) by simp
  moreover have "map_get m' k = Some v'" using m'(7) nk(1) m1(3) by simp
  ultimately show ?case using m'(2-7) m1 f(2) by (intro exI [of _ m']) simp
qed simp

lemma map_each_values:
  assumes "table_ok m" and "each_l f (map (\<lambda>k. (k, the (map_get m k))) (map_keys (base m))) s = Some (vs, s')"
  obtains m' where "map_each f (map_keys (base m)) m s = Some (m', s')" "table_ok m'"
    "map_keys (base m') = map_keys (base m)" "count m' = count m" "nnodes (base m') = nnodes (base m)"
    "map_values m' = vs"
proof -
  have "distinct (map_keys (base m))" "\<forall>k \<in> set (map_keys (base m)). map_get m k \<noteq> None"
    using mt.keys [OF assms(1)] by auto
  from map_each_list [OF assms(1) this assms(2)] show thesis using that by auto
qed

fun write_l :: "(cfile \<Rightarrow> 'v \<Rightarrow> cfile option) \<Rightarrow> 'v list \<Rightarrow> cfile \<Rightarrow> cfile option" where
  "write_l f [] fp = Some fp"
| "write_l f (v # vs) fp = do { fp' \<leftarrow> f fp v; write_l f vs fp' }"

lemma write_each_values:
  assumes "table_ok m"
  shows "write_each f (map_keys (base m)) m fp = write_l f (map_values m) fp"
proof -
  have "\<forall>k \<in> set ks. map_get m k \<noteq> None \<Longrightarrow>
      write_each f ks m fp = write_l f (map (\<lambda>k. the (map_get m k)) ks) fp" for ks
    by (induction ks arbitrary: fp) (auto split: bind_splits)
  then show ?thesis using mt.keys [OF assms] by blast
qed

section \<open>Where the segments go\<close>

definition has_data :: "u8 vec \<Rightarrow> bool" where
  "has_data v \<longleftrightarrow> vlength v \<noteq> 0 \<and> vcapacity v \<noteq> 0"

text \<open>A vector without a block may claim any length (the data segment of the program does).\<close>

definition sound :: "u8 vec \<Rightarrow> bool" where
  "sound v \<longleftrightarrow> vcapacity v \<noteq> 0 \<longrightarrow> vec_ok v"

lemma sound_data: "sound v \<Longrightarrow> has_data v \<Longrightarrow> vec_ok v"
  by (simp add: sound_def has_data_def)

definition seg_need :: "program_t list \<Rightarrow> nat" where
  "seg_need ps = (\<Sum>p \<leftarrow> ps. if has_data (pvec p) then vlength (pvec p) + 4096 else 0)"

definition spans_of :: "('v \<Rightarrow> u8 vec) \<Rightarrow> ('v \<Rightarrow> u32) \<Rightarrow> 'v list \<Rightarrow> (nat \<times> u8 list) list" where
  "spans_of vf off vs = map (\<lambda>v. (unat (off v), vec_list (vf v))) (filter (\<lambda>v. has_data (vf v)) vs)"

definition placed_as :: "program_t \<Rightarrow> program_t \<Rightarrow> bool" where
  "placed_as p q \<longleftrightarrow> pvec q = pvec p \<and> p_type (phdr q) = p_type (phdr p) \<and> p_vaddr (phdr q) = p_vaddr (phdr p)
     \<and> p_flags (phdr q) = p_flags (phdr p)
     \<and> p_filesz (phdr q) = (if has_data (pvec p) then of_nat (vlength (pvec p)) else p_filesz (phdr p))
     \<and> p_memsz (phdr q) = (if vlength (pvec p) \<noteq> 0 then of_nat (vlength (pvec p)) else p_memsz (phdr p))"

abbreviation seg_spans :: "program_t list \<Rightarrow> (nat \<times> u8 list) list" where
  "seg_spans \<equiv> spans_of pvec (\<lambda>p. p_offset (phdr p))"

lemma unat_offset: "unat w < 2 ^ 32 \<Longrightarrow> unat (ucast w :: u32) = unat w" for w :: u64
  by (simp add: unsigned_ucast_eq take_bit_nat_eq_self)

lemma align_after:
  assumes "unat off + len + 4096 < 2 ^ 32"
  shows "unat off + len \<le> unat (align_to (off + of_nat len) PAGE_SIZE)"
    and "unat (align_to (off + of_nat len) PAGE_SIZE) < unat off + len + 4096"
proof -
  have "unat (of_nat len :: u64) = len" using assms by (intro unat_of_nat_small) simp
  then have u: "unat (off + of_nat len) = unat off + len"
    using assms by (subst unat_add_lem [THEN iffD1]) simp_all
  have "unat (off + of_nat len) + 4095 < 2 ^ 64" using u assms by simp
  from align_to_spec [OF this] show "unat off + len \<le> unat (align_to (off + of_nat len) PAGE_SIZE)"
    "unat (align_to (off + of_nat len) PAGE_SIZE) < unat off + len + 4096"
    unfolding u PAGE_SIZE_def by simp_all
qed

lemma fix_segments_list:
  "unat off + seg_need (map snd xs) < 2 ^ 32 \<Longrightarrow> \<forall>p \<in> snd ` set xs. sound (pvec p) \<Longrightarrow>
   \<exists>ps off'. each_l fix_segment xs off = Some (ps, off') \<and> list_all2 placed_as (map snd xs) ps
     \<and> chained (unat off) (seg_spans ps) (unat off') \<and> unat off' \<le> unat off + seg_need (map snd xs)"
proof (induction xs arbitrary: off)
  case Nil
  then show ?case by (simp add: spans_of_def seg_need_def)
next
  case (Cons x xs)
  obtain k p where x: "x = (k, p)" by fastforce
  let ?len = "vlength (pvec p)"
  have ok: "\<forall>p \<in> snd ` set xs. sound (pvec p)" "sound (pvec p)" using Cons.prems(2) x by simp_all
  show ?case
  proof (cases "has_data (pvec p)")
    case True
    let ?off = "align_to (off + of_nat ?len) PAGE_SIZE"
    let ?q = "p\<lparr>phdr := (phdr p)\<lparr>p_filesz := of_nat ?len, p_memsz := of_nat ?len, p_offset := ucast off\<rparr>\<rparr>"
    have need: "seg_need (map snd (x # xs)) = ?len + 4096 + seg_need (map snd xs)"
      using True x by (simp add: seg_need_def)
    note al = align_after [of off ?len]
    have "unat off + ?len + 4096 < 2 ^ 32" using Cons.prems(1) need by simp
    note al = align_after [OF this]
    have "unat ?off + seg_need (map snd xs) < 2 ^ 32" using al(2) Cons.prems(1) need by linarith
    from Cons.IH [OF this ok(1)] obtain ps off' where IH: "each_l fix_segment xs ?off = Some (ps, off')"
        "list_all2 placed_as (map snd xs) ps" "chained (unat ?off) (seg_spans ps) (unat off')"
        "unat off' \<le> unat ?off + seg_need (map snd xs)" by blast
    have f: "fix_segment k p off = Some (?q, ?off)"
      using True by (simp add: fix_segment_def has_data_def Let_def)
    have l: "length (vec_list (pvec p)) = ?len" by (rule length_vec_list [OF sound_data [OF ok(2) True]])
    have o: "unat (ucast off :: u32) = unat off" using Cons.prems(1) need by (intro unat_offset) simp
    have "chained (unat off + ?len) (seg_spans ps) (unat off')"
      using al(1) IH(3) by (cases "seg_spans ps") auto
    then have "chained (unat off) (seg_spans (?q # ps)) (unat off')"
      using True l o by (simp add: spans_of_def)
    moreover have "placed_as p ?q" using True by (simp add: placed_as_def has_data_def)
    ultimately show ?thesis
      using f IH al(2) need x by (intro exI [of _ "?q # ps"] exI [of _ off']) simp
  next
    case False
    let ?q = "if ?len \<noteq> 0 then p\<lparr>phdr := (phdr p)\<lparr>p_memsz := of_nat ?len, p_offset := ucast off\<rparr>\<rparr> else p"
    have need: "seg_need (map snd (x # xs)) = seg_need (map snd xs)" using False x by (simp add: seg_need_def)
    from Cons.IH [of off] Cons.prems(1) need ok(1) obtain ps off' where
        IH: "each_l fix_segment xs off = Some (ps, off')" "list_all2 placed_as (map snd xs) ps"
        "chained (unat off) (seg_spans ps) (unat off')" "unat off' \<le> unat off + seg_need (map snd xs)" by auto
    have f: "fix_segment k p off = Some (?q, off)" using False by (auto simp: fix_segment_def has_data_def Let_def)
    have "placed_as p ?q" using False by (simp add: placed_as_def)
    moreover have "seg_spans (?q # ps) = seg_spans ps" using False by (simp add: spans_of_def)
    ultimately show ?thesis
      using f IH need x by (intro exI [of _ "?q # ps"] exI [of _ off']) simp
  qed
qed

section \<open>Section names\<close>

abbreviation bare :: "section_t \<Rightarrow> bool" where
  "bare sec \<equiv> vlength (svec sec) = 0 \<and> vcapacity (svec sec) = 0"

definition names_size :: "string list \<Rightarrow> nat" where
  "names_size ks = (\<Sum>k \<leftarrow> ks. length k + 1)"

lemma length_key_bytes [simp]: "length (key_bytes k) = length k + 1"
  by (simp add: key_bytes_def)

lemma fix_sections_list:
  assumes "roomy A lim" and "lim < 2 ^ 32"
  shows "\<forall>s \<in> snd ` set xs. bare s \<Longrightarrow> vec_ok st \<Longrightarrow> vlength st + names_size (map fst xs) \<le> lim \<Longrightarrow>
   \<exists>ss st'. each_l (fix_section A segs) xs (off, st) = Some (ss, off, st') \<and> vec_ok st'
     \<and> vec_list st' = vec_list st @ concat (map key_bytes (map fst xs))
     \<and> list_all2 (\<lambda>x s. svec s = svec (snd x) \<and> holds (vec_list st') (unat (sh_name (shdr s))) (key_bytes (fst x))) xs ss"
proof (induction xs arbitrary: st)
  case (Cons x xs)
  obtain k s where x: "x = (k, s)" by fastforce
  have b: "bare s" "\<forall>s \<in> snd ` set xs. bare s" using Cons.prems(1) x by simp_all
  have need: "vlength st + length (key_bytes k) \<le> lim" "vlength st + length (key_bytes k) + names_size (map fst xs) \<le> lim"
    using Cons.prems(3) x by (simp_all add: names_size_def)
  obtain st1 where st1: "vec_pusharr A st (key_bytes k) = Some st1" "vec_ok st1"
      "vec_list st1 = vec_list st @ key_bytes k"
    using vec_pusharr_roomy [OF Cons.prems(2) assms(1) need(1)] by blast
  have l: "length (vec_list st) = vlength st" "length (vec_list st1) = vlength st1"
    using length_vec_list Cons.prems(2) st1(2) by blast+
  then have "vlength st1 = vlength st + length (key_bytes k)" using st1(3) by simp
  then have "vlength st1 + names_size (map fst xs) \<le> lim" using need(2) by simp
  from Cons.IH [OF b(2) st1(2) this] obtain ss st' where IH:
      "each_l (fix_section A segs) xs (off, st1) = Some (ss, off, st')" "vec_ok st'"
      "vec_list st' = vec_list st1 @ concat (map key_bytes (map fst xs))"
      "list_all2 (\<lambda>x s. svec s = svec (snd x) \<and> holds (vec_list st') (unat (sh_name (shdr s))) (key_bytes (fst x))) xs ss"
    by blast
  obtain s' where f: "fix_section A segs k s (off, st) = Some (s', off, st1)" "svec s' = svec s"
      "sh_name (shdr s') = of_nat (vlength st)"
    using b(1) st1(1) by (cases "map_get segs k") (simp_all add: fix_section_def)
  have "unat (of_nat (vlength st) :: u32) = vlength st"
    using need(1) assms(2) by (intro unat_of_nat_small) simp
  moreover have "holds (vec_list st') (vlength st) (key_bytes k)"
    unfolding IH(3) st1(3) append_assoc by (rule holds_middle [OF l(1)])
  ultimately show ?case
    using f IH st1(3) x by (intro exI [of _ "s' # ss"] exI [of _ st']) simp
qed simp

lemma unat_of_char: "unat (of_char c :: u8) = of_char c"
proof -
  have "(of_char c :: nat) < 256" using nat_of_char_less_256 .
  then have "unat (of_nat (of_char c) :: u8) = of_char c" by (intro unat_of_nat_small) simp
  then show ?thesis by (simp only: of_nat_of_char)
qed

lemma key_bytes_nonzero: "CHR 0x00 \<notin> set k \<Longrightarrow> b \<in> set (map of_char k) \<Longrightarrow> b \<noteq> (0 :: u8)"
proof
  assume k: "CHR 0x00 \<notin> set k" and "b \<in> set (map of_char k)" and "b = 0"
  then obtain c where c: "c \<in> set k" "(of_char c :: u8) = 0" by auto
  then have "(of_char c :: nat) = 0" using unat_of_char [of c] by simp
  then have "c = char_of (0 :: nat)" by (metis char_of_char)
  then have "c = CHR 0x00" by (simp add: char_of_def)
  then show False using c(1) k by simp
qed

lemma string_at_key:
  assumes "holds d p (key_bytes k)" and "CHR 0x00 \<notin> set k"
  shows "string_at d p = k"
proof -
  obtain r where "drop p d = key_bytes k @ r"
    using holds_take [OF assms(1)] by (metis append_take_drop_id)
  then have "drop p d = map of_char k @ 0 # r" by (simp add: key_bytes_def)
  moreover have "takeWhile (\<lambda>b. b \<noteq> 0) (map of_char k @ 0 # r) = map of_char k @ takeWhile (\<lambda>b. b \<noteq> 0) (0 # r)"
    by (rule takeWhile_append2) (rule key_bytes_nonzero [OF assms(2)])
  ultimately have "takeWhile (\<lambda>b. b \<noteq> 0) (drop p d) = map of_char k" by simp
  then show ?thesis by (simp add: string_at_def comp_def unat_of_char)
qed

lemma holds_inside:
  assumes "holds d p xs" and "holds xs q ys"
  shows "holds d (p + q) ys"
proof (cases "ys = []")
  case False
  have "q + length ys \<le> length xs" by (rule holds_length [OF assms(2) False])
  then have "take (length ys) (drop q (take (length xs) (drop p d))) = take (length ys) (drop (p + q) d)"
    by (simp add: drop_take add.commute)
  then show ?thesis using assms unfolding holds_def by simp
qed simp

end
