(* ===== verification/Elf_Whole.thy ===== *)
theory Elf_Whole
  imports Elf_File
begin

text \<open>
  The whole file written by \<open>gen_elf_file\<close>: its segments and section names are read back from
  its bytes, for contexts whose sections hold no bytes of their own (as in the program), and what
  happens to a section that does.
\<close>

section \<open>Writing loops\<close>

abbreviation at_end :: "cfile \<Rightarrow> bool" where
  "at_end f \<equiv> fpos f = length (fbytes f)"

lemma fwrite_end: "at_end f \<Longrightarrow> fbytes (fwrite f bs) = fbytes f @ bs \<and> at_end (fwrite f bs)"
  by (simp add: fwrite_def)

lemma write_headers:
  "at_end f \<Longrightarrow> \<exists>f'. write_l (\<lambda>fp v. Some (fwrite fp (b v))) vs f = Some f'
     \<and> fbytes f' = fbytes f @ concat (map b vs) \<and> at_end f'"
proof (induction vs arbitrary: f)
  case (Cons v vs)
  have "at_end (fwrite f (b v))" "fbytes (fwrite f (b v)) = fbytes f @ b v"
    using fwrite_end [OF Cons.prems] by blast+
  with Cons.IH [OF this(1)] show ?case by simp
qed simp

lemma put_spans_cong: "fbytes f = fbytes g \<Longrightarrow> fbytes (put_spans f r) = fbytes (put_spans g r)"
proof (induction r arbitrary: f g)
  case (Cons x r)
  obtain p bs where x: "x = (p, bs)" by fastforce
  have "fbytes (fwrite (fseek f p) bs) = fbytes (fwrite (fseek g p) bs)"
    using Cons.prems by (simp add: fwrite_def fseek_def)
  from Cons.IH [OF this] show ?case by (simp add: x)
qed simp

lemma write_spans:
  "\<forall>v \<in> set vs. sound (vf v) \<Longrightarrow>
   \<exists>f'. write_l (\<lambda>fp v. write_data fp (vf v) (off v)) vs f = Some f'
     \<and> fbytes f' = fbytes (put_spans f (spans_of vf off vs))"
proof (induction vs arbitrary: f)
  case (Cons v vs)
  have ok: "sound (vf v)" "\<forall>v \<in> set vs. sound (vf v)" using Cons.prems by simp_all
  let ?f = "fwrite (fseek f (unat (off v))) (vec_list (vf v))"
  show ?case
  proof (cases "vcapacity (vf v) = 0")
    case True
    then have "write_data f (vf v) (off v) = Some f" by (simp add: write_data_def)
    then show ?thesis using Cons.IH [OF ok(2), of f] True by (simp add: spans_of_def has_data_def)
  next
    case False
    then have "vlength (vf v) \<le> length (vdata (vf v))" using ok(1) by (simp add: sound_def vec_ok_def)
    then have w: "write_data f (vf v) (off v) = Some ?f" using False by (simp add: write_data_def)
    obtain f' where f': "write_l (\<lambda>fp v. write_data fp (vf v) (off v)) vs ?f = Some f'"
        "fbytes f' = fbytes (put_spans ?f (spans_of vf off vs))" using Cons.IH [OF ok(2)] by blast
    show ?thesis
    proof (cases "vlength (vf v) = 0")
      case True
      then have "fbytes ?f = fbytes f" by (simp add: vec_list_def fwrite_def fseek_def)
      from put_spans_cong [OF this, of "spans_of vf off vs"] show ?thesis
        using w f' True by (simp add: spans_of_def has_data_def)
    next
      case False
      then show ?thesis using w f' \<open>vcapacity (vf v) \<noteq> 0\<close> by (simp add: spans_of_def has_data_def)
    qed
  qed
qed (simp add: spans_of_def)

lemma index_from_finds:
  assumes "table_ok m" and "\<forall>k \<in> set names. map_get m k \<noteq> None" and "key \<in> set names"
  shows "\<exists>j < length names. names ! j = key \<and> index_from m key idx names = idx + of_nat j"
  using assms(2,3)
proof (induction names arbitrary: idx)
  case (Cons k names)
  have same: "map_getref (base m) k = map_getref (base m) key \<longleftrightarrow> k = key"
  proof
    assume e: "map_getref (base m) k = map_getref (base m) key"
    have "map_get m k \<noteq> None" using Cons.prems(1) by simp
    then obtain n i where g: "map_getref (base m) k = Some (n, i)"
      by (auto simp: map_get_def map_base_get_def)
    have "map_placed (base m)" using assms(1) by (simp add: map_ok_def)
    from getref_Some(3) [OF this g] getref_Some(3) [OF this g [unfolded e]] show "k = key" by simp
  qed simp
  show ?case
  proof (cases "k = key")
    case True
    then show ?thesis by (intro exI [of _ 0]) simp
  next
    case False
    then obtain j where "j < length names" "names ! j = key" "index_from m key (idx + 1) names = idx + 1 + of_nat j"
      using Cons.IH [of "idx + 1"] Cons.prems by auto
    then show ?thesis using False same by (intro exI [of _ "Suc j"]) simp
  qed
qed simp

section \<open>Contexts ready to be written\<close>

text \<open>
  The header as initialised, tables that count their keys, sections without bytes, all headers in
  the first page, and offsets, names and sizes within 32 bits.
\<close>

definition elf_ready :: "elf_alloc \<Rightarrow> nat \<Rightarrow> elf_gen_ctx \<Rightarrow> bool" where
  "elf_ready A lim ctx \<longleftrightarrow>
     (\<exists>e. elf_header ctx = (elf_header elf_gen_ctx_init)\<lparr>e_entry := e\<rparr>)
   \<and> table_ok (segments ctx) \<and> counted (segments ctx)
   \<and> table_ok (smap (sections ctx)) \<and> counted (smap (sections ctx))
   \<and> map_get (smap (sections ctx)) shstrtab_name = None \<and> (\<forall>n. map_avail (sec_alloc A) n)
   \<and> (\<forall>p \<in> set (map_values (segments ctx)). sound (pvec p) \<and> vlength (pvec p) < 2 ^ 32
        \<and> (\<not> has_data (pvec p) \<longrightarrow> p_filesz (phdr p) = 0))
   \<and> (\<forall>s \<in> set (map_values (smap (sections ctx))). vec_ok (svec s) \<and> bare s)
   \<and> EHDR_SIZE + PHDR_SIZE * nnodes (base (segments ctx))
        + SHDR_SIZE * (nnodes (base (smap (sections ctx))) + 2) \<le> 4096
   \<and> 4096 + seg_need (map_values (segments ctx)) < 2 ^ 32
   \<and> roomy (byte_alloc A) lim \<and> 11 + names_size (map_keys (base (smap (sections ctx)))) \<le> lim \<and> lim < 2 ^ 32"

definition seg_of :: "program_t \<Rightarrow> elf_seg" where
  "seg_of p = \<lparr>seg_type = unat (p_type (phdr p)), seg_vaddr = unat (p_vaddr (phdr p)),
     seg_flags = unat (p_flags (phdr p)), seg_bytes = (if has_data (pvec p) then vec_list (pvec p) else []),
     seg_memsz = (if vlength (pvec p) \<noteq> 0 then vlength (pvec p) else unat (p_memsz (phdr p)))\<rparr>"

text \<open>What \<open>fix_header_offsets\<close> makes of it.\<close>

definition elf_fixed :: "elf_gen_ctx \<Rightarrow> elf_gen_ctx \<Rightarrow> u8 vec \<Rightarrow> u32 \<Rightarrow> bool" where
  "elf_fixed ctx ctx' strtab off \<longleftrightarrow>
     table_ok (segments ctx') \<and> count (segments ctx') = count (segments ctx)
   \<and> nnodes (base (segments ctx')) = nnodes (base (segments ctx))
   \<and> list_all2 placed_as (map_values (segments ctx)) (map_values (segments ctx'))
   \<and> chained 4096 (seg_spans (map_values (segments ctx'))) (unat off)
   \<and> table_ok (smap (sections ctx')) \<and> count (smap (sections ctx')) = count (smap (sections ctx)) + 1
   \<and> nnodes (base (smap (sections ctx'))) = nnodes (base (smap (sections ctx))) + 1
   \<and> set (map_keys (base (smap (sections ctx')))) = insert shstrtab_name (set (map_keys (base (smap (sections ctx)))))
   \<and> vec_ok strtab \<and> vlength strtab \<noteq> 0 \<and> holds (vec_list strtab) 0 [0]
   \<and> (\<forall>k \<in> set (map_keys (base (smap (sections ctx')))). \<exists>s. map_get (smap (sections ctx')) k = Some s
        \<and> vec_ok (svec s) \<and> holds (vec_list strtab) (unat (sh_name (shdr s))) (key_bytes k)
        \<and> (if k = shstrtab_name then svec s = strtab \<and> sh_offset (shdr s) = off else bare s))
   \<and> (\<exists>e. elf_header ctx' = (elf_header elf_gen_ctx_init)\<lparr>e_entry := e_entry (elf_header ctx), e_shstrndx := e\<rparr>
        \<and> (\<exists>j < length (map_keys (base (smap (sections ctx')))). map_keys (base (smap (sections ctx'))) ! j = shstrtab_name
             \<and> unat e = j + 1))"

section \<open>The pass over the tables\<close>

lemma first_page:
  assumes "0 < n" and "n \<le> 4096"
  shows "align_to (of_nat n) PAGE_SIZE = 4096"
proof -
  have u: "unat (of_nat n :: u64) = n" using assms(2) by (intro unat_of_nat_small) simp
  have "unat (of_nat n :: u64) + 4095 < 2 ^ 64" using assms(2) u by simp
  note al = align_to_spec [OF this, unfolded u]
  let ?a = "align_to (of_nat n) 0x1000"
  obtain q where q: "unat ?a = 4096 * q" using al(1) by (auto simp: mod_eq_0_iff_dvd)
  have "q = 1" using al(2,3) assms unfolding q by linarith
  then have "unat ?a = unat (4096 :: u64)" using q by simp
  then have "?a = 4096" by (simp only: word_unat_eq_iff)
  then show ?thesis by (simp add: PAGE_SIZE_def)
qed

lemma strtab_start:
  assumes A: "roomy A lim" and l: "11 \<le> lim"
  obtains v1 v2 where "vec_push A vec_init 0 = Some (RC_OK, v1)" "vec_pusharr A v1 (key_bytes shstrtab_name) = Some v2"
    "vec_ok v2" "vec_list v2 = 0 # key_bytes shstrtab_name" "vlength v2 = 11"
proof -
  have v0: "vec_ok (vec_init :: u8 vec)" "vec_list (vec_init :: u8 vec) = []" "vlength (vec_init :: u8 vec) = 0"
    by (simp_all add: vec_init_def) (simp_all add: vec_ok_def vec_list_def)
  obtain v1 where v1: "vec_push A vec_init 0 = Some (RC_OK, v1)" "vec_ok v1" "vec_list v1 = [0]"
    using vec_push_roomy [OF v0(1) A, of 0] v0 l by auto
  have l1: "vlength v1 = 1" using length_vec_list [OF v1(2)] v1(3) by simp
  have k: "length (key_bytes shstrtab_name) = 10" by (simp add: shstrtab_name_def)
  then obtain v2 where v2: "vec_pusharr A v1 (key_bytes shstrtab_name) = Some v2" "vec_ok v2"
      "vec_list v2 = 0 # key_bytes shstrtab_name"
    using vec_pusharr_roomy [OF v1(2) A, of "key_bytes shstrtab_name"] l1 l v1(3) by auto
  have "vlength v2 = 11" using length_vec_list [OF v2(2)] v2(3) k by simp
  then show thesis using that v1(1) v2 by blast
qed

text \<open>The loop over the sections and the insertion of the name table.\<close>

lemma sections_fixed:
  assumes m: "table_ok m" "counted m" "nnodes (base m) + 2 < 2 ^ 16" "map_get m shstrtab_name = None"
    and bare: "\<forall>s \<in> set (map_values m). vec_ok (svec s) \<and> bare s"
    and A: "roomy A lim" "lim < 2 ^ 32" "11 + names_size (map_keys (base m)) \<le> lim" "\<And>n. map_avail S n"
    and st: "vec_ok st" "vec_list st = 0 # key_bytes shstrtab_name" "vlength st = 11"
    and stab: "\<And>v. svec (stab v) = v" "\<And>v. sh_offset (shdr (stab v)) = ucast off" "\<And>v. sh_name (shdr (stab v)) = 1"
  shows "\<exists>m1 strtab m2. map_each (fix_section A segs) (map_keys (base m)) m (off, st) = Some (m1, off, strtab)
    \<and> map_set S m1 shstrtab_name (stab strtab) = (True, m2)
    \<and> table_ok m2 \<and> count m2 = count m + 1 \<and> nnodes (base m2) = nnodes (base m) + 1
    \<and> set (map_keys (base m2)) = insert shstrtab_name (set (map_keys (base m)))
    \<and> vec_ok strtab \<and> vlength strtab \<noteq> 0 \<and> holds (vec_list strtab) 0 [0]
    \<and> (\<forall>k \<in> set (map_keys (base m2)). \<exists>s. map_get m2 k = Some s
        \<and> vec_ok (svec s) \<and> holds (vec_list strtab) (unat (sh_name (shdr s))) (key_bytes k)
        \<and> (if k = shstrtab_name then svec s = strtab \<and> sh_offset (shdr s) = ucast off else bare s))"
proof -
  let ?keys = "map_keys (base m)"
  let ?xs = "map (\<lambda>k. (k, the (map_get m k))) ?keys"
  have "\<forall>s \<in> snd ` set ?xs. bare s" using bare by auto
  moreover have "map fst ?xs = ?keys" by (simp add: comp_def)
  ultimately obtain ss strtab where
      e: "each_l (fix_section A segs) ?xs (off, st) = Some (ss, off, strtab)" "vec_ok strtab"
      "vec_list strtab = vec_list st @ concat (map key_bytes ?keys)"
      "list_all2 (\<lambda>x s. svec s = svec (snd x) \<and> holds (vec_list strtab) (unat (sh_name (shdr s))) (key_bytes (fst x))) ?xs ss"
    using fix_sections_list [OF A(1,2), of ?xs st segs off] st(1,3) A(3) by auto
  obtain m1 where m1: "map_each (fix_section A segs) ?keys m (off, st) = Some (m1, off, strtab)" "table_ok m1"
      "map_keys (base m1) = ?keys" "count m1 = count m" "nnodes (base m1) = nnodes (base m)" "map_values m1 = ss"
    using map_each_values [OF m(1) e(1)] by blast
  have room: "table_room m1" using m1(5) m(3) by simp
  have no: "map_get m1 shstrtab_name = None"
    using mt.keys [OF m1(2)] mt.keys [OF m(1)] m1(3) m(4) by metis
  obtain m2 where s: "map_set S m1 shstrtab_name (stab strtab) = (True, m2)"
    using map_set_avail [OF A(4), of m1 shstrtab_name "stab strtab"]
    by (cases "map_set S m1 shstrtab_name (stab strtab)") auto
  note p = mt.put [OF m1(2) room s]
  have n2: "count m2 = count m + 1" "nnodes (base m2) = nnodes (base m) + 1"
    using map_set_base [OF s] map_set_ok [OF m1(2) room conjunct1 [OF map_set_base [OF s]]] no m1(4,5)
    by (auto simp: map_get_table' [OF m1(2)])
  have keys2: "set (map_keys (base m2)) = insert shstrtab_name (set ?keys)"
    using mt.put_keys [OF m1(2) room s] m1(3) by simp
  have vl: "vec_list strtab = 0 # key_bytes shstrtab_name @ concat (map key_bytes ?keys)" using e(3) st(2) by simp
  then have nz: "vlength strtab \<noteq> 0" using length_vec_list [OF e(2)] by simp
  have own: "map_get m2 shstrtab_name = Some (stab strtab)" using p by simp
  have one: "unat (1 :: u32) = 1" by simp
  have h1: "holds (vec_list strtab) 1 (key_bytes shstrtab_name)"
    using holds_middle [of "[0]" 1 "key_bytes shstrtab_name" "concat (map key_bytes ?keys)"] vl by simp
  have other: "\<exists>s. map_get m2 k = Some s \<and> vec_ok (svec s)
      \<and> holds (vec_list strtab) (unat (sh_name (shdr s))) (key_bytes k) \<and> bare s"
    if k: "k \<in> set ?keys" for k
  proof -
    obtain j where j: "j < length ?keys" "?keys ! j = k" using k by (auto simp: in_set_conv_nth)
    have l: "length ss = length ?keys" using list_all2_lengthD [OF e(4)] by simp
    have "ss ! j = the (map_get m1 k)" using j m1(3,6) by (metis nth_map)
    moreover have "map_get m1 k \<noteq> None" using mt.keys [OF m1(2)] m1(3) k by simp
    ultimately have g: "map_get m1 k = Some (ss ! j)" by auto
    have "k \<noteq> shstrtab_name" using no g by auto
    then have g2: "map_get m2 k = Some (ss ! j)" using p g by simp
    have ej: "svec (ss ! j) = svec (the (map_get m k))"
        "holds (vec_list strtab) (unat (sh_name (shdr (ss ! j)))) (key_bytes k)"
      using list_all2_nthD [OF e(4), of j] j by simp_all
    have "the (map_get m k) \<in> set (map_values m)" using k by simp
    then have "vec_ok (svec (ss ! j)) \<and> bare (ss ! j)" using bare unfolding ej(1) by blast
    then show ?thesis using g2 ej(2) by blast
  qed
  have all: "\<forall>k \<in> set (map_keys (base m2)). \<exists>s. map_get m2 k = Some s
        \<and> vec_ok (svec s) \<and> holds (vec_list strtab) (unat (sh_name (shdr s))) (key_bytes k)
        \<and> (if k = shstrtab_name then svec s = strtab \<and> sh_offset (shdr s) = ucast off else bare s)"
  proof
    fix k assume k: "k \<in> set (map_keys (base m2))"
    show "\<exists>s. map_get m2 k = Some s
        \<and> vec_ok (svec s) \<and> holds (vec_list strtab) (unat (sh_name (shdr s))) (key_bytes k)
        \<and> (if k = shstrtab_name then svec s = strtab \<and> sh_offset (shdr s) = ucast off else bare s)"
    proof (cases "k = shstrtab_name")
      case True
      then show ?thesis using own e(2) h1 stab by (intro exI [of _ "stab strtab"]) simp
    next
      case False
      then have "k \<in> set ?keys" using k keys2 by simp
      then show ?thesis using other [of k] False by auto
    qed
  qed
  have h0: "holds (vec_list strtab) 0 [0]" unfolding vl by (simp add: holds_def)
  show ?thesis
    by (intro exI [of _ m1] exI [of _ strtab] exI [of _ m2] conjI m1(1) s n2 keys2 e(2) nz all h0) (use p in simp)
qed

lemma map_values_eq: "map_keys (base m) = ks \<Longrightarrow> map snd (map (\<lambda>k. (k, the (map_get m k))) ks) = map_values m"
  by (simp add: comp_def)

lemma fix_offsets_ready:
  assumes r: "elf_ready A lim ctx"
  shows "\<exists>ctx' strtab off. fix_header_offsets A ctx = Some ctx' \<and> elf_fixed ctx ctx' strtab off"
proof -
  obtain e0 where hd: "elf_header ctx = (elf_header elf_gen_ctx_init)\<lparr>e_entry := e0\<rparr>"
    using r unfolding elf_ready_def by blast
  have segs: "table_ok (segments ctx)" "counted (segments ctx)"
      and secs: "table_ok (smap (sections ctx))" "counted (smap (sections ctx))"
      and fresh: "map_get (smap (sections ctx)) shstrtab_name = None" and av: "\<And>n. map_avail (sec_alloc A) n"
      and pv: "\<forall>p \<in> set (map_values (segments ctx)). sound (pvec p)"
      and sv: "\<forall>s \<in> set (map_values (smap (sections ctx))). vec_ok (svec s) \<and> bare s"
      and page: "EHDR_SIZE + PHDR_SIZE * nnodes (base (segments ctx))
        + SHDR_SIZE * (nnodes (base (smap (sections ctx))) + 2) \<le> 4096"
      and need: "4096 + seg_need (map_values (segments ctx)) < 2 ^ 32"
      and lim: "roomy (byte_alloc A) lim" "11 + names_size (map_keys (base (smap (sections ctx)))) \<le> lim" "lim < 2 ^ 32"
    using r unfolding elf_ready_def by blast+
  let ?n = "nnodes (base (segments ctx))"
  have n: "52 + 32 * ?n \<le> 4096" "nnodes (base (smap (sections ctx))) + 2 < 2 ^ 16"
    using page by (simp_all add: EHDR_SIZE_def PHDR_SIZE_def SHDR_SIZE_def)
  have "of_nat EHDR_SIZE + count (segments ctx) * of_nat PHDR_SIZE = (of_nat (52 + 32 * ?n) :: u64)"
    using segs(2) by (simp add: counted_def EHDR_SIZE_def PHDR_SIZE_def)
  then have start: "align_to (of_nat EHDR_SIZE + count (segments ctx) * of_nat PHDR_SIZE) PAGE_SIZE = 4096"
    using first_page [of "52 + 32 * ?n"] n(1) by simp
  let ?xs = "map (\<lambda>k. (k, the (map_get (segments ctx) k))) (map_keys (base (segments ctx)))"
  have snd_xs: "map snd ?xs = map_values (segments ctx)" by (rule map_values_eq) simp
  have "\<forall>p \<in> snd ` set ?xs. sound (pvec p)" using pv by auto
  moreover have u: "unat (4096 :: u64) = 4096" by simp
  ultimately obtain ps off where ps: "each_l fix_segment ?xs 4096 = Some (ps, off)"
      "list_all2 placed_as (map_values (segments ctx)) ps" "chained 4096 (seg_spans ps) (unat off)"
      "unat off \<le> 4096 + seg_need (map_values (segments ctx))"
    using fix_segments_list [of 4096 ?xs] need unfolding snd_xs u by blast
  obtain segs' where s': "map_each fix_segment (map_keys (base (segments ctx))) (segments ctx) 4096 = Some (segs', off)"
      "table_ok segs'" "map_keys (base segs') = map_keys (base (segments ctx))" "count segs' = count (segments ctx)"
      "nnodes (base segs') = ?n" "map_values segs' = ps"
    using map_each_values [OF segs(1) ps(1)] by blast
  have "11 \<le> lim" using lim(2) by simp
  then obtain v1 v2 where v: "vec_push (byte_alloc A) vec_init 0 = Some (RC_OK, v1)"
      "vec_pusharr (byte_alloc A) v1 (key_bytes shstrtab_name) = Some v2"
      "vec_ok v2" "vec_list v2 = 0 # key_bytes shstrtab_name" "vlength v2 = 11"
    using strtab_start [OF lim(1)] by blast
  define stab where "stab v = \<lparr>svec = v, shdr = shdr_zero\<lparr>sh_name := 1, sh_type := SHT_STRTAB,
        sh_addralign := ucast PAGE_SIZE, sh_flags := SHF_STRINGS, sh_size := of_nat (vlength v),
        sh_offset := ucast off\<rparr>\<rparr>" for v
  have stab: "svec (stab v) = v" "sh_offset (shdr (stab v)) = ucast off" "sh_name (shdr (stab v)) = 1" for v
    by (simp_all add: stab_def)
  obtain secs1 strtab secs2 where c:
      "map_each (fix_section (byte_alloc A) segs') (map_keys (base (smap (sections ctx)))) (smap (sections ctx)) (off, v2)
         = Some (secs1, off, strtab)"
      "map_set (sec_alloc A) secs1 shstrtab_name (stab strtab) = (True, secs2)"
      and t: "table_ok secs2" "count secs2 = count (smap (sections ctx)) + 1"
      "nnodes (base secs2) = nnodes (base (smap (sections ctx))) + 1"
      "set (map_keys (base secs2)) = insert shstrtab_name (set (map_keys (base (smap (sections ctx)))))"
      "vec_ok strtab" "vlength strtab \<noteq> 0" "holds (vec_list strtab) 0 [0]"
      "\<forall>k \<in> set (map_keys (base secs2)). \<exists>s. map_get secs2 k = Some s
        \<and> vec_ok (svec s) \<and> holds (vec_list strtab) (unat (sh_name (shdr s))) (key_bytes k)
        \<and> (if k = shstrtab_name then svec s = strtab \<and> sh_offset (shdr s) = ucast off else bare s)"
    using sections_fixed [OF secs n(2) fresh sv lim(1,3,2) av v(3-5) stab, of segs'] by (elim exE conjE) (rule that)
  let ?t = "\<lparr>smap = secs2, shstrtab = stab strtab\<rparr>"
  let ?e = "ucast (index_of_section ?t shstrtab_name) :: u16"
  let ?c = "ctx\<lparr>segments := segs', sections := ?t, elf_header := (elf_header ctx)\<lparr>e_shstrndx := ?e\<rparr>\<rparr>"
  have "fix_header_offsets A ctx = Some ?c"
    using c(2) unfolding fix_header_offsets_def start Let_def stab_def by (simp add: s'(1) v(1,2) c(1))
  moreover have "elf_fixed ctx ?c strtab (ucast off)"
  proof -
    have uo: "unat (ucast off :: u32) = unat off" using ps(4) need by (intro unat_offset) simp
    have keys: "\<forall>k \<in> set (map_keys (base secs2)). map_get secs2 k \<noteq> None" "shstrtab_name \<in> set (map_keys (base secs2))"
      using mt.keys [OF t(1)] t(4) by auto
    obtain j where j: "j < length (map_keys (base secs2))" "map_keys (base secs2) ! j = shstrtab_name"
        "index_from secs2 shstrtab_name 1 (map_keys (base secs2)) = 1 + of_nat j"
      using index_from_finds [OF t(1) keys, of 1] by blast
    have "index_of_section ?t shstrtab_name = 1 + of_nat j"
      using j(3) bspec [OF keys(1) keys(2)] by (auto simp: index_of_section_def)
    then have "?e = of_nat (j + 1)" by (simp add: ucast_add_down ucast_of_nat_down)
    moreover have "j + 1 < 2 ^ 16" using j(1) map_keys_length [OF t(1)] t(3) n(2) by simp
    ultimately have "unat ?e = j + 1" by (simp only:) (intro unat_of_nat_small, simp)
    then have "\<exists>e. elf_header ?c = (elf_header elf_gen_ctx_init)\<lparr>e_entry := e_entry (elf_header ctx), e_shstrndx := e\<rparr>
        \<and> (\<exists>j < length (map_keys (base secs2)). map_keys (base secs2) ! j = shstrtab_name \<and> unat e = j + 1)"
      using j(1,2) hd by (intro exI [of _ ?e]) auto
    then show ?thesis
      unfolding elf_fixed_def using s'(2-6) ps(2,3) uo t by simp
  qed
  ultimately show ?thesis by blast
qed

section \<open>The bytes of the file\<close>

definition empty_file :: cfile where
  "empty_file = \<lparr>fpos = 0, fbytes = []\<rparr>"

lemma filter_one: "distinct ks \<Longrightarrow> k \<in> set ks \<Longrightarrow> filter (\<lambda>x. x = k) ks = [k]"
  by (induction ks) (auto simp: filter_empty_conv)

lemma spans_one:
  assumes "distinct ks" and "k \<in> set ks" and "has_data (vf (g k))" and "\<forall>x \<in> set ks. x \<noteq> k \<longrightarrow> \<not> has_data (vf (g x))"
  shows "spans_of vf off (map g ks) = [(unat (off (g k)), vec_list (vf (g k)))]"
proof -
  have "filter (\<lambda>x. has_data (vf (g x))) ks = filter (\<lambda>x. x = k) ks"
    using assms(3,4) by (intro filter_cong) auto
  then show ?thesis using filter_one [OF assms(1,2)] by (simp add: spans_of_def filter_map comp_def)
qed

lemma length_concat_const: "(\<And>x. x \<in> set xs \<Longrightarrow> length (b x) = n) \<Longrightarrow> length (concat (map b xs)) = length xs * n"
  by (induction xs) simp_all

lemma holds_concat_map:
  "holds d p (concat (map b xs)) \<Longrightarrow> (\<And>x. length (b x) = n) \<Longrightarrow> i < length xs \<Longrightarrow> holds d (p + i * n) (b (xs ! i))"
  using holds_concat [of d p "map b xs" n i] by auto

text \<open>The header after \<open>finalize_elf_ctx\<close>, for \<open>n\<close> segments and \<open>k\<close> sections.\<close>

definition final_header :: "u32 \<Rightarrow> u16 \<Rightarrow> nat \<Rightarrow> nat \<Rightarrow> elf32_ehdr" where
  "final_header start strndx n k =
     (let h = (elf_header elf_gen_ctx_init)\<lparr>e_entry := start, e_shstrndx := strndx\<rparr>;
          h = (if n \<noteq> 0 then h\<lparr>e_phnum := of_nat n, e_phentsize := of_nat PHDR_SIZE, e_phoff := of_nat EHDR_SIZE\<rparr> else h)
      in h\<lparr>e_shnum := of_nat (k + 1), e_shentsize := of_nat SHDR_SIZE, e_shoff := of_nat (EHDR_SIZE + n * PHDR_SIZE)\<rparr>)"

lemma finalize_ready:
  assumes "elf_ready A lim ctx"
  obtains ctx' strtab off e j where "finalize_elf_ctx A ctx = Some ctx'" "elf_fixed ctx (ctx'\<lparr>elf_header :=
      (elf_header elf_gen_ctx_init)\<lparr>e_entry := e_entry (elf_header ctx), e_shstrndx := e\<rparr>\<rparr>) strtab off"
    "elf_header ctx' = final_header (e_entry (elf_header ctx)) e (nnodes (base (segments ctx)))
      (nnodes (base (smap (sections ctx'))))"
    "j < nnodes (base (smap (sections ctx')))" "map_keys (base (smap (sections ctx'))) ! j = shstrtab_name" "unat e = j + 1"
proof -
  obtain ctx1 strtab off where f: "fix_header_offsets A ctx = Some ctx1" "elf_fixed ctx ctx1 strtab off"
    using fix_offsets_ready [OF assms] by blast
  obtain e j where e: "elf_header ctx1 = (elf_header elf_gen_ctx_init)\<lparr>e_entry := e_entry (elf_header ctx), e_shstrndx := e\<rparr>"
      "j < length (map_keys (base (smap (sections ctx1))))" "map_keys (base (smap (sections ctx1))) ! j = shstrtab_name"
      "unat e = j + 1"
    using f(2) unfolding elf_fixed_def by blast
  have t: "table_ok (smap (sections ctx1))" using f(2) by (simp add: elf_fixed_def)
  let ?n = "nnodes (base (segments ctx))" and ?k = "nnodes (base (smap (sections ctx1)))"
  have old: "count (segments ctx) = of_nat ?n"
      "count (smap (sections ctx)) = of_nat (nnodes (base (smap (sections ctx))))"
    using assms unfolding elf_ready_def counted_def by blast+
  have new: "count (segments ctx1) = count (segments ctx)" "?k = nnodes (base (smap (sections ctx))) + 1"
      "count (smap (sections ctx1)) = count (smap (sections ctx)) + 1"
    using f(2) unfolding elf_fixed_def by blast+
  have c: "count (segments ctx1) = of_nat ?n" "count (smap (sections ctx1)) = of_nat ?k"
    unfolding new old by simp_all
  have "EHDR_SIZE + PHDR_SIZE * ?n + SHDR_SIZE * (nnodes (base (smap (sections ctx))) + 2) \<le> 4096"
    using assms unfolding elf_ready_def by blast
  then have "?n < 2 ^ 64" by (simp add: PHDR_SIZE_def)
  then have "unat (of_nat ?n :: u64) = ?n" by (intro unat_of_nat_small) simp
  then have nz: "of_nat ?n \<noteq> (0 :: u64) \<longleftrightarrow> ?n \<noteq> 0"
    by (cases "?n = 0"; cases "of_nat ?n = (0 :: u64)") simp_all
  let ?c = "ctx1\<lparr>elf_header := final_header (e_entry (elf_header ctx)) e ?n ?k\<rparr>"
  have "of_nat EHDR_SIZE + of_nat ?n * of_nat PHDR_SIZE = (of_nat (EHDR_SIZE + ?n * PHDR_SIZE) :: u64)" by simp
  then have so: "ucast (of_nat EHDR_SIZE + of_nat ?n * of_nat PHDR_SIZE :: u64) = (of_nat (EHDR_SIZE + ?n * PHDR_SIZE) :: u32)"
    by (simp only: ucast_of_nat_down) (simp add: ucast_of_nat_down del: of_nat_add of_nat_mult)
  have sn: "ucast (of_nat ?k + 1 :: u64) = (1 + of_nat ?k :: u16)"
    by (simp add: ucast_add_down ucast_of_nat_down)
  have sp: "ucast (of_nat ?n :: u64) = (of_nat ?n :: u16)" by (rule ucast_of_nat_down) simp
  have fin: "finalize_elf_ctx A ctx = Some ?c"
    using f(1) c nz e(1)
    by (simp add: finalize_elf_ctx_def final_header_def Let_def so sn sp del: of_nat_add of_nat_mult)
  show thesis
  proof (rule that [OF fin])
    show "elf_fixed ctx (?c\<lparr>elf_header := (elf_header elf_gen_ctx_init)\<lparr>e_entry := e_entry (elf_header ctx),
        e_shstrndx := e\<rparr>\<rparr>) strtab off"
    proof -
      have "ctx1\<lparr>elf_header := elf_header ctx1\<rparr> = ctx1" by simp
      then show ?thesis using f(2) unfolding e(1) by simp
    qed
  qed (use e map_keys_length [OF t] in simp_all)
qed

lemma elf_fixed_section:
  assumes "elf_fixed ctx ctx' strtab off" and "k \<in> set (map_keys (base (smap (sections ctx'))))"
  shows "\<exists>s. map_get (smap (sections ctx')) k = Some s \<and> vec_ok (svec s)
    \<and> holds (vec_list strtab) (unat (sh_name (shdr s))) (key_bytes k)
    \<and> (if k = shstrtab_name then svec s = strtab \<and> sh_offset (shdr s) = off else bare s)"
  using assms unfolding elf_fixed_def by (elim conjE) (erule bspec)

lemma sections_header: "sections (ctx\<lparr>elf_header := h\<rparr>) = sections ctx"
  by simp

lemma gen_elf_file_holds:
  assumes r: "elf_ready A lim ctx"
  shows "\<exists>fp ctx' (strtab :: u8 vec) off e j ps ks.
    gen_elf_file A ctx empty_file = Some (fp, ctx')
    \<and> (let n = nnodes (base (segments ctx)); k = nnodes (base (smap (sections ctx))) + 1; secs = smap (sections ctx')
       in holds (fbytes fp) 0 (ehdr_bytes (final_header (e_entry (elf_header ctx)) e n k))
        \<and> list_all2 placed_as (map_values (segments ctx)) ps
        \<and> (\<forall>i < n. holds (fbytes fp) (EHDR_SIZE + i * PHDR_SIZE) (phdr_bytes (phdr (ps ! i))))
        \<and> (\<forall>p \<in> set ps. has_data (pvec p) \<longrightarrow> holds (fbytes fp) (unat (p_offset (phdr p))) (vec_list (pvec p)))
        \<and> holds (fbytes fp) (EHDR_SIZE + n * PHDR_SIZE) (shdr_bytes shdr_zero)
        \<and> length ks = k \<and> distinct ks
        \<and> set ks = insert shstrtab_name (set (map_keys (base (smap (sections ctx)))))
        \<and> (\<forall>i < k. \<exists>h. holds (fbytes fp) (EHDR_SIZE + n * PHDR_SIZE + (i + 1) * SHDR_SIZE) (shdr_bytes h)
            \<and> holds (vec_list strtab) (unat (sh_name h)) (key_bytes (ks ! i))
            \<and> (ks ! i = shstrtab_name \<longrightarrow> sh_offset h = off))
        \<and> holds (fbytes fp) (unat off) (vec_list strtab) \<and> holds (vec_list strtab) 0 [0]
        \<and> j < k \<and> ks ! j = shstrtab_name \<and> unat e = j + 1)"
proof -
  obtain ctx' strtab off e j where fin: "finalize_elf_ctx A ctx = Some ctx'"
      and fx: "elf_fixed ctx (ctx'\<lparr>elf_header := (elf_header elf_gen_ctx_init)\<lparr>e_entry := e_entry (elf_header ctx),
        e_shstrndx := e\<rparr>\<rparr>) strtab off"
      and hd: "elf_header ctx' = final_header (e_entry (elf_header ctx)) e (nnodes (base (segments ctx)))
        (nnodes (base (smap (sections ctx'))))"
      and j: "j < nnodes (base (smap (sections ctx')))" "map_keys (base (smap (sections ctx'))) ! j = shstrtab_name"
        "unat e = j + 1"
    by (rule finalize_ready [OF r])
  let ?segs = "segments ctx'" and ?secs = "smap (sections ctx')"
  let ?n = "nnodes (base (segments ctx))" and ?k = "nnodes (base (smap (sections ctx))) + 1"
  let ?ks = "map_keys (base ?secs)" and ?d = "\<lambda>k. the (map_get ?secs k)"
  have t: "table_ok ?segs" "nnodes (base ?segs) = ?n" "list_all2 placed_as (map_values (segments ctx)) (map_values ?segs)"
      "chained 4096 (seg_spans (map_values ?segs)) (unat off)" "table_ok ?secs" "nnodes (base ?secs) = ?k"
      "set ?ks = insert shstrtab_name (set (map_keys (base (smap (sections ctx)))))"
      "vec_ok strtab" "vlength strtab \<noteq> 0" "holds (vec_list strtab) 0 [0]"
      and s: "\<And>k. k \<in> set ?ks \<Longrightarrow> vec_ok (svec (?d k)) \<and> holds (vec_list strtab) (unat (sh_name (shdr (?d k)))) (key_bytes k)
        \<and> (if k = shstrtab_name then svec (?d k) = strtab \<and> sh_offset (shdr (?d k)) = off else bare (?d k))"
  proof -
    note f = fx [unfolded elf_fixed_def elf_gen_ctx.simps]
    from f show "table_ok ?segs" "nnodes (base ?segs) = ?n" "list_all2 placed_as (map_values (segments ctx)) (map_values ?segs)"
      "chained 4096 (seg_spans (map_values ?segs)) (unat off)" "table_ok ?secs" "nnodes (base ?secs) = ?k"
      "set ?ks = insert shstrtab_name (set (map_keys (base (smap (sections ctx)))))"
      "vec_ok strtab" "vlength strtab \<noteq> 0" "holds (vec_list strtab) 0 [0]" by simp_all
    fix k assume k: "k \<in> set ?ks"
    then obtain s where "map_get ?secs k = Some s" "vec_ok (svec s)"
        "holds (vec_list strtab) (unat (sh_name (shdr s))) (key_bytes k)"
        "if k = shstrtab_name then svec s = strtab \<and> sh_offset (shdr s) = off else bare s"
      using elf_fixed_section [OF fx, unfolded sections_header, OF k] by (elim exE conjE) (rule that)
    then show "vec_ok (svec (?d k)) \<and> holds (vec_list strtab) (unat (sh_name (shdr (?d k)))) (key_bytes k)
        \<and> (if k = shstrtab_name then svec (?d k) = strtab \<and> sh_offset (shdr (?d k)) = off else bare (?d k))" by auto
  qed
  have lk: "length ?ks = ?k" "length (map_keys (base ?segs)) = ?n"
    using map_keys_length t(1,2,5,6) by metis+
  define P where "P = map_values ?segs"
  define S where "S = map_values ?secs"
  have lP: "length P = ?n" "length S = ?k" using lk by (simp_all add: P_def S_def)
  note wP = write_each_values [OF t(1), folded P_def] and wS = write_each_values [OF t(5), folded S_def]
  note tP = t(3,4) [folded P_def]
  have dk: "distinct ?ks" using mt.keys [OF t(5)] by blast
  define h where "h = elf_header ctx'"
  define hdrs where "hdrs = ehdr_bytes h @ concat (map (\<lambda>p. phdr_bytes (phdr p)) P)
      @ shdr_bytes shdr_zero @ concat (map (\<lambda>s. shdr_bytes (shdr s)) S)"
  have id: "length (e_ident h) = 16" by (simp add: h_def hd final_header_def Let_def elf_gen_ctx_init_def)
  have lens: "length (ehdr_bytes h) = EHDR_SIZE"
      "length (concat (map (\<lambda>p. phdr_bytes (phdr p)) P)) = ?n * PHDR_SIZE"
      "length (concat (map (\<lambda>s. shdr_bytes (shdr s)) S)) = ?k * SHDR_SIZE"
    by (fact length_ehdr_bytes [OF id]
      length_concat_const [of P "\<lambda>p. phdr_bytes (phdr p)" PHDR_SIZE, OF length_phdr_bytes, unfolded lP]
      length_concat_const [of S "\<lambda>s. shdr_bytes (shdr s)" SHDR_SIZE, OF length_shdr_bytes, unfolded lP])+
  have lh: "length hdrs \<le> 4096"
  proof -
    have "EHDR_SIZE + PHDR_SIZE * ?n + SHDR_SIZE * (?k + 1) \<le> 4096"
      using r unfolding elf_ready_def by simp
    moreover have "length hdrs = EHDR_SIZE + (?n * PHDR_SIZE + (SHDR_SIZE + ?k * SHDR_SIZE))"
      unfolding hdrs_def length_append lens length_shdr_bytes ..
    ultimately show ?thesis by (simp add: mult.commute)
  qed
  obtain f1 where f1: "write_each (\<lambda>fp p. Some (fwrite fp (phdr_bytes (phdr p)))) (map_keys (base ?segs)) ?segs
        (fwrite empty_file (ehdr_bytes h)) = Some f1"
      "fbytes f1 = ehdr_bytes h @ concat (map (\<lambda>p. phdr_bytes (phdr p)) P)" "at_end f1"
    using write_headers [of "fwrite empty_file (ehdr_bytes h)" "\<lambda>p. phdr_bytes (phdr p)" P]
      fwrite_end [of empty_file "ehdr_bytes h"] wP by (auto simp: empty_file_def)
  obtain f2 where f2: "write_each (\<lambda>fp s. Some (fwrite fp (shdr_bytes (shdr s)))) ?ks ?secs
        (fwrite f1 (shdr_bytes shdr_zero)) = Some f2" "fbytes f2 = hdrs"
    using write_headers [of "fwrite f1 (shdr_bytes shdr_zero)" "\<lambda>s. shdr_bytes (shdr s)" S]
      fwrite_end [OF f1(3), of "shdr_bytes shdr_zero"] f1(2) wS by (auto simp: hdrs_def)
  have pok: "\<forall>p \<in> set P. sound (pvec p)"
  proof
    fix p assume "p \<in> set P"
    then obtain i where i: "i < length P" "P ! i = p" unfolding in_set_conv_nth by blast
    have "i < length (map_values (segments ctx))" unfolding list_all2_lengthD [OF tP(1)] by (rule i(1))
    then have "map_values (segments ctx) ! i \<in> set (map_values (segments ctx))" by (rule nth_mem)
    moreover have "placed_as (map_values (segments ctx) ! i) p" using list_all2_nthD2 [OF tP(1) i(1)] unfolding i(2) .
    ultimately obtain q where "q \<in> set (map_values (segments ctx))" "placed_as q p" by blast
    then show "sound (pvec p)" using r unfolding elf_ready_def placed_as_def by auto
  qed
  obtain f3 where f3: "write_each (\<lambda>fp p. write_data fp (pvec p) (p_offset (phdr p))) (map_keys (base ?segs)) ?segs f2 = Some f3"
      "fbytes f3 = fbytes (put_spans f2 (seg_spans P))"
    using write_spans [OF pok] wP by metis
  have sok: "\<forall>v \<in> set S. sound (svec v)" using s by (auto simp: S_def sound_def)
  have tab: "shstrtab_name \<in> set ?ks" using t(7) by simp
  have "has_data strtab" using t(8,9) by (simp add: has_data_def vec_ok_def)
  then have "spans_of svec (\<lambda>s. sh_offset (shdr s)) S = [(unat off, vec_list strtab)]"
    unfolding S_def using spans_one [OF dk tab, of svec ?d] s tab by (auto simp: has_data_def)
  then obtain f4 where f4: "write_each (\<lambda>fp v. write_data fp (svec v) (sh_offset (shdr v))) ?ks ?secs f3 = Some f4"
      "fbytes f4 = fbytes (put_spans f3 [(unat off, vec_list strtab)])"
    using write_spans [OF sok, of "\<lambda>s. sh_offset (shdr s)" f3] wS by metis
  let ?all = "seg_spans P @ [(unat off, vec_list strtab)]"
  have fb: "fbytes f4 = fbytes (put_spans f2 ?all)"
    unfolding f4(2) put_spans_app by (rule put_spans_cong) (rule f3(2))
  have ch: "chained 4096 ?all (unat off + length (vec_list strtab))"
    by (rule chained_app [OF tP(2)]) simp
  have "holds (fbytes f2) 0 hdrs" unfolding f2(2) by (simp add: holds_def)
  then have "holds (fbytes f4) 0 hdrs" unfolding fb using put_spans_keeps [OF ch] lh by simp
  then have H: "holds (fbytes f4) 0 (ehdr_bytes h)"
      "holds (fbytes f4) EHDR_SIZE (concat (map (\<lambda>p. phdr_bytes (phdr p)) P))"
      "holds (fbytes f4) (EHDR_SIZE + ?n * PHDR_SIZE) (shdr_bytes shdr_zero)"
      "holds (fbytes f4) (EHDR_SIZE + ?n * PHDR_SIZE + SHDR_SIZE) (concat (map (\<lambda>s. shdr_bytes (shdr s)) S))"
    unfolding hdrs_def holds_append lens by (simp_all add: add.assoc)
  have data: "holds (fbytes f4) (unat (p_offset (phdr p))) (vec_list (pvec p))"
    if "p \<in> set P" "has_data (pvec p)" for p
  proof -
    have "(unat (p_offset (phdr p)), vec_list (pvec p)) \<in> set ?all" using that by (auto simp: spans_of_def)
    from put_spans_holds [OF ch this] show ?thesis unfolding fb .
  qed
  have st: "holds (fbytes f4) (unat off) (vec_list strtab)" unfolding fb by (rule put_spans_holds [OF ch]) simp
  have ph: "holds (fbytes f4) (EHDR_SIZE + i * PHDR_SIZE) (phdr_bytes (phdr (P ! i)))" if "i < ?n" for i
    using holds_concat_map [OF H(2) length_phdr_bytes] that lP(1) by simp
  have sh: "\<exists>h. holds (fbytes f4) (EHDR_SIZE + ?n * PHDR_SIZE + (i + 1) * SHDR_SIZE) (shdr_bytes h)
      \<and> holds (vec_list strtab) (unat (sh_name h)) (key_bytes (?ks ! i))
      \<and> (?ks ! i = shstrtab_name \<longrightarrow> sh_offset h = off)" if i: "i < ?k" for i
  proof -
    have "?ks ! i \<in> set ?ks" using i lk(1) by simp
    moreover have "holds (fbytes f4) (EHDR_SIZE + ?n * PHDR_SIZE + SHDR_SIZE + i * SHDR_SIZE) (shdr_bytes (shdr (S ! i)))"
      using holds_concat_map [OF H(4) length_shdr_bytes] i lP(2) by simp
    moreover have "S ! i = ?d (?ks ! i)" using i lk(1) by (simp add: S_def)
    ultimately show ?thesis using s [of "?ks ! i"] by (intro exI [of _ "shdr (?d (?ks ! i))"]) (auto simp: algebra_simps)
  qed
  have gen: "gen_elf_file A ctx empty_file = Some (f4, ctx')"
    using f1(1) f2(1) f3(1) f4(1) by (simp add: gen_elf_file_def fin Let_def h_def)
  have "h = final_header (e_entry (elf_header ctx)) e ?n ?k" using hd t(6) by (simp add: h_def)
  then show ?thesis
    unfolding Let_def using gen H(1,3) tP(1) t(7,10) lk(1) dk data st ph sh j t(6)
    by (intro exI [of _ f4] exI [of _ ctx'] exI [of _ strtab] exI [of _ off] exI [of _ e] exI [of _ j]
        exI [of _ P] exI [of _ ?ks] conjI) simp_all
qed

end
