(* ===== verification/Elf_Props.thy ===== *)
theory Elf_Props
  imports Elf_Whole
begin

text \<open>
  The properties of the ELF writer: what a loader and a reader of section names find in the file,
  and the defect in the placement of sections that hold bytes of their own.
\<close>

section \<open>Reading back\<close>

lemma final_header_fields:
  assumes "k < 2 ^ 15" and "n < 2 ^ 15"
  shows "length (e_ident (final_header a e n k)) = 16" "take 7 (e_ident (final_header a e n k)) = elf_magic"
    "unat (e_type (final_header a e n k)) = 2" "unat (e_machine (final_header a e n k)) = 3"
    "e_entry (final_header a e n k) = a" "e_shstrndx (final_header a e n k) = e"
    "unat (e_phnum (final_header a e n k)) = n" "unat (e_shnum (final_header a e n k)) = k + 1"
    "unat (e_shentsize (final_header a e n k)) = SHDR_SIZE"
    "unat (e_shoff (final_header a e n k)) = EHDR_SIZE + n * PHDR_SIZE"
    "n \<noteq> 0 \<Longrightarrow> unat (e_phentsize (final_header a e n k)) = PHDR_SIZE"
    "n \<noteq> 0 \<Longrightarrow> unat (e_phoff (final_header a e n k)) = EHDR_SIZE"
proof -
  have u: "unat (of_nat n :: u16) = n" "unat (of_nat (k + 1) :: u16) = k + 1"
      "unat (of_nat (EHDR_SIZE + n * PHDR_SIZE) :: u32) = EHDR_SIZE + n * PHDR_SIZE"
    using assms by (intro unat_of_nat_small; simp add: EHDR_SIZE_def PHDR_SIZE_def)+
  show "unat (e_shnum (final_header a e n k)) = k + 1"
    using u(2) by (simp add: final_header_def Let_def del: of_nat_add of_nat_Suc)
  show "unat (e_shoff (final_header a e n k)) = EHDR_SIZE + n * PHDR_SIZE"
    using u(3) by (simp add: final_header_def Let_def del: of_nat_add of_nat_mult)
  show "unat (e_phnum (final_header a e n k)) = n"
    using u(1) by (simp add: final_header_def Let_def elf_gen_ctx_init_def)
qed (simp_all add: final_header_def Let_def elf_gen_ctx_init_def elf_magic_def EHDR_SIZE_def PHDR_SIZE_def SHDR_SIZE_def)

lemma read_seg_placed:
  assumes h: "holds d p (phdr_bytes (phdr q))" and pl: "placed_as o1 q" and len: "vlength (pvec o1) < 2 ^ 32"
    and ok: "sound (pvec o1)" and fz: "\<not> has_data (pvec o1) \<Longrightarrow> p_filesz (phdr o1) = 0"
    and data: "has_data (pvec q) \<Longrightarrow> holds d (unat (p_offset (phdr q))) (vec_list (pvec q))"
  shows "read_seg d p = seg_of o1"
proof -
  note r = read_phdr [OF h]
  have u: "unat (of_nat (vlength (pvec o1)) :: u32) = vlength (pvec o1)" using len by (intro unat_of_nat_small) simp
  have v: "pvec q = pvec o1" using pl by (simp add: placed_as_def)
  have "take (read32 d (p + 16)) (drop (read32 d (p + 4)) d) = (if has_data (pvec o1) then vec_list (pvec o1) else [])"
  proof (cases "has_data (pvec o1)")
    case True
    then have "read32 d (p + 16) = length (vec_list (pvec o1))"
      using r(4) pl u length_vec_list [OF sound_data [OF ok True]] by (simp add: placed_as_def)
    then show ?thesis using holds_take [OF data] True v r(2) by simp
  next
    case False
    then show ?thesis using r(4) pl fz by (simp add: placed_as_def)
  qed
  then show ?thesis
    using r pl u by (auto simp: read_seg_def seg_of_def placed_as_def)
qed

lemma map_upt_nth: "(\<And>i. i < k \<Longrightarrow> f i = ks ! i) \<Longrightarrow> length ks = k \<Longrightarrow> map f [0..<k] = ks"
  by (rule nth_equalityI) simp_all

lemma elf_ready_sizes:
  assumes "elf_ready A lim ctx"
  shows "nnodes (base (segments ctx)) < 2 ^ 15" "nnodes (base (smap (sections ctx))) + 1 < 2 ^ 15"
    "length (map_values (segments ctx)) = nnodes (base (segments ctx))"
proof -
  have p: "EHDR_SIZE + PHDR_SIZE * nnodes (base (segments ctx))
      + SHDR_SIZE * (nnodes (base (smap (sections ctx))) + 2) \<le> 4096" and t: "table_ok (segments ctx)"
    using assms unfolding elf_ready_def by blast+
  show "nnodes (base (segments ctx)) < 2 ^ 15" "nnodes (base (smap (sections ctx))) + 1 < 2 ^ 15"
    using p by (simp_all add: EHDR_SIZE_def PHDR_SIZE_def SHDR_SIZE_def)
  show "length (map_values (segments ctx)) = nnodes (base (segments ctx))" using map_keys_length [OF t] by simp
qed

lemma segments_read_back_aux:
  assumes r: "elf_ready A lim ctx"
  shows "\<exists>fp ctx'. gen_elf_file A ctx empty_file = Some (fp, ctx')
    \<and> elf_load (fbytes fp) = Some (unat (e_entry (elf_header ctx)), map seg_of (map_values (segments ctx)))
    \<and> ((\<forall>k \<in> set (map_keys (base (smap (sections ctx)))). CHR 0x00 \<notin> set k) \<longrightarrow>
         (\<exists>ks. elf_section_names (fbytes fp) = [] # ks \<and> distinct ks
           \<and> set ks = insert shstrtab_name (set (map_keys (base (smap (sections ctx)))))))"
proof -
  let ?n = "nnodes (base (segments ctx))" and ?k = "nnodes (base (smap (sections ctx))) + 1"
  let ?V = "map_values (segments ctx)"
  obtain fp ctx' and strtab :: "u8 vec" and off e j ps ks where g: "gen_elf_file A ctx empty_file = Some (fp, ctx')"
      and h: "holds (fbytes fp) 0 (ehdr_bytes (final_header (e_entry (elf_header ctx)) e ?n ?k))"
      and pl: "list_all2 placed_as ?V ps"
      and ph: "\<forall>i < ?n. holds (fbytes fp) (EHDR_SIZE + i * PHDR_SIZE) (phdr_bytes (phdr (ps ! i)))"
      and data: "\<forall>p \<in> set ps. has_data (pvec p) \<longrightarrow> holds (fbytes fp) (unat (p_offset (phdr p))) (vec_list (pvec p))"
      and nul: "holds (fbytes fp) (EHDR_SIZE + ?n * PHDR_SIZE) (shdr_bytes shdr_zero)"
      and ks: "length ks = ?k" "distinct ks" "set ks = insert shstrtab_name (set (map_keys (base (smap (sections ctx)))))"
      and sh: "\<forall>i < ?k. \<exists>h. holds (fbytes fp) (EHDR_SIZE + ?n * PHDR_SIZE + (i + 1) * SHDR_SIZE) (shdr_bytes h)
            \<and> holds (vec_list strtab) (unat (sh_name h)) (key_bytes (ks ! i))
            \<and> (ks ! i = shstrtab_name \<longrightarrow> sh_offset h = off)"
      and st: "holds (fbytes fp) (unat off) (vec_list strtab)" "holds (vec_list strtab) 0 [0]"
      and j: "j < ?k" "ks ! j = shstrtab_name" "unat e = j + 1"
    using gen_elf_file_holds [OF r] unfolding Let_def by (elim exE conjE) (rule that)
  let ?d = "fbytes fp" and ?h = "final_header (e_entry (elf_header ctx)) e ?n ?k"
  note sz = elf_ready_sizes [OF r]
  note hf = final_header_fields [OF sz(2,1), where a = "e_entry (elf_header ctx)" and e = e]
  note rd = read_ehdr [OF h hf(1), unfolded hf(2-10)]
  have pv: "\<forall>p \<in> set ?V. sound (pvec p) \<and> vlength (pvec p) < 2 ^ 32 \<and> (\<not> has_data (pvec p) \<longrightarrow> p_filesz (phdr p) = 0)"
    using r unfolding elf_ready_def by blast
  have lps: "length ps = ?n" using list_all2_lengthD [OF pl] sz(3) by simp
  have seg: "read_seg ?d (EHDR_SIZE + i * PHDR_SIZE) = seg_of (?V ! i)" if i: "i < ?n" for i
  proof -
    have "?V ! i \<in> set ?V" using i sz(3) by (metis nth_mem)
    with pv have v: "sound (pvec (?V ! i)) \<and> vlength (pvec (?V ! i)) < 2 ^ 32
        \<and> (\<not> has_data (pvec (?V ! i)) \<longrightarrow> p_filesz (phdr (?V ! i)) = 0)" by (rule bspec)
    have "placed_as (?V ! i) (ps ! i)" using list_all2_nthD [OF pl] i sz(3) by metis
    moreover have "ps ! i \<in> set ps" using i lps by simp
    ultimately show ?thesis
      using read_seg_placed [of ?d "EHDR_SIZE + i * PHDR_SIZE" "ps ! i" "?V ! i"] ph i v data by blast
  qed
  have "map (\<lambda>i. read_seg ?d (read32 ?d 28 + i * read16 ?d 42)) [0..<?n] = map seg_of ?V"
  proof (rule nth_equalityI)
    show "length (map (\<lambda>i. read_seg ?d (read32 ?d 28 + i * read16 ?d 42)) [0..<?n]) = length (map seg_of ?V)"
      using sz(3) by simp
    fix i assume "i < length (map (\<lambda>i. read_seg ?d (read32 ?d 28 + i * read16 ?d 42)) [0..<?n])"
    then have i: "i < ?n" by simp
    then have "?n \<noteq> 0" by simp
    note f = hf(11,12) [OF this]
    show "map (\<lambda>i. read_seg ?d (read32 ?d 28 + i * read16 ?d 42)) [0..<?n] ! i = map seg_of ?V ! i"
      using seg [OF i] i f rd(4,6) sz(3) by (simp del: map_map)
  qed
  then have load: "elf_load ?d = Some (unat (e_entry (elf_header ctx)), map seg_of ?V)"
    unfolding elf_load_def rd by simp
  have names: "elf_section_names ?d = [] # ks"
    if nul_free: "\<forall>k \<in> set (map_keys (base (smap (sections ctx)))). CHR 0x00 \<notin> set k"
  proof -
    obtain hj where hj: "holds ?d (EHDR_SIZE + ?n * PHDR_SIZE + (j + 1) * SHDR_SIZE) (shdr_bytes hj)" "sh_offset hj = off"
      using sh j(1,2) by blast
    have tab: "read32 ?d (EHDR_SIZE + ?n * PHDR_SIZE + (j + 1) * SHDR_SIZE + 16) = unat off"
      using read_shdr(2) [OF hj(1)] hj(2) by simp
    have one: "string_at ?d (unat off + read32 ?d (EHDR_SIZE + ?n * PHDR_SIZE + (i + 1) * SHDR_SIZE)) = ks ! i"
      if i: "i < ?k" for i
    proof -
      obtain hi where hi: "holds ?d (EHDR_SIZE + ?n * PHDR_SIZE + (i + 1) * SHDR_SIZE) (shdr_bytes hi)"
          "holds (vec_list strtab) (unat (sh_name hi)) (key_bytes (ks ! i))"
        using sh i by blast
      have "ks ! i \<in> set ks" using i ks(1) by simp
      then have "CHR 0x00 \<notin> set (ks ! i)" using nul_free unfolding ks(3) by (auto simp: shstrtab_name_def)
      from string_at_key [OF holds_inside [OF st(1) hi(2)] this] show ?thesis
        unfolding read_shdr(1) [OF hi(1)] .
    qed
    have "read32 ?d (EHDR_SIZE + ?n * PHDR_SIZE) = 0" using read_shdr(1) [OF nul] by (simp add: shdr_zero_def)
    moreover have "string_at ?d (unat off + 0) = []"
    proof -
      have "holds ?d (unat off + 0) [0]" by (rule holds_inside [OF st])
      moreover have "key_bytes [] = [0]" by (simp add: key_bytes_def)
      ultimately have "holds ?d (unat off + 0) (key_bytes [])" by (simp only:)
      from string_at_key [OF this] show ?thesis by simp
    qed
    ultimately have zero: "string_at ?d (unat off + read32 ?d (EHDR_SIZE + ?n * PHDR_SIZE)) = []" by simp
    have "elf_section_names ?d
        = map (\<lambda>i. string_at ?d (unat off + read32 ?d (EHDR_SIZE + ?n * PHDR_SIZE + i * SHDR_SIZE))) [0..<?k + 1]"
      unfolding elf_section_names_def Let_def rd j(3) tab ..
    moreover have "[0..<?k + 1] = 0 # map Suc [0..<?k]" unfolding map_Suc_upt by (subst upt_rec) simp
    moreover have "map (\<lambda>i. string_at ?d (unat off + read32 ?d (EHDR_SIZE + ?n * PHDR_SIZE + Suc i * SHDR_SIZE))) [0..<?k] = ks"
      by (rule map_upt_nth [OF _ ks(1)]) (use one in simp)
    ultimately show ?thesis by (simp only: list.map map_map comp_def mult_0 add_0_right zero)
  qed
  show ?thesis
    by (intro exI [of _ fp] exI [of _ ctx'] conjI g load impI exI [of _ ks] names ks) assumption
qed

section \<open>Sections with bytes of their own\<close>





section \<open>A context with one segment and its section\<close>

lemma one_entry:
  fixes m :: "'v map_t"
  assumes "map_set A map_init k s = (True, m)"
  shows "map_keys (base m) = [k]" "table_ok m" "map_get m k = Some s" "nnodes (base m) = 1" "counted m"
proof -
  have r: "table_room (map_init :: 'v map_t)" by simp
  note p = mt.put [OF map_init_ok(1) r assms]
  show t: "table_ok m" "map_get m k = Some s" using p by simp_all
  have e: "map_get (map_init :: 'v map_t) k = None" "counted (map_init :: 'v map_t)"
    using map_init_ok by simp_all
  have "map_table (base (map_init :: 'v map_t)) k = None"
    using map_get_table' [OF map_init_ok(1)] map_init_empty(2) by metis
  then show n: "nnodes (base m) = 1"
    using map_set_ok [OF map_init_ok(1) r conjunct1 [OF map_set_base [OF assms]]] by simp
  show "counted m" using map_set_counts [OF map_init_ok(1) r e(2) assms] e(1) by (simp add: counted_def)
  have "set (map_keys (base m)) = {k}"
    using mt.put_keys [OF map_init_ok(1) r assms] unfolding map_init_ok(3) list.set .
  moreover have "length (map_keys (base m)) = 1" using map_keys_length [OF t(1)] n by simp
  ultimately show "map_keys (base m) = [k]" by (cases "map_keys (base m)") auto
qed

definition elf_served :: elf_alloc where
  "elf_served = \<lparr>byte_alloc = heap_of 0 1, seg_alloc = \<lparr>map_avail = (\<lambda>n. True), vsize = 64\<rparr>,
     sec_alloc = \<lparr>map_avail = (\<lambda>n. True), vsize = 72\<rparr>\<rparr>"

definition sample_segment :: program_t where
  "sample_segment = \<lparr>pvec = \<lparr>borrowed = False, vlength = 3, vcapacity = 4, vdata = [0xB8, 1, 0, 9]\<rparr>,
     phdr = phdr_zero\<lparr>p_type := 1, p_vaddr := 0x1000, p_flags := 5\<rparr>\<rparr>"

definition sample_ctx :: elf_gen_ctx where
  "sample_ctx = elf_gen_ctx_init\<lparr>segments := snd (map_set (seg_alloc elf_served) map_init ''.text'' sample_segment),
     sections := \<lparr>smap = snd (map_set (sec_alloc elf_served) map_init ''.text'' \<lparr>svec = vec_init, shdr = shdr_zero\<rparr>),
       shstrtab = \<lparr>svec = vec_init, shdr = shdr_zero\<rparr>\<rparr>\<rparr>"

lemma map_set_served:
  assumes "\<And>n. map_avail A n"
  obtains m' where "map_set A m k v = (True, m')"
  using map_set_avail [OF assms, of m k v] by (cases "map_set A m k v") auto

lemma sample_ready:
  shows "elf_ready elf_served 1000 sample_ctx" and "map_values (segments sample_ctx) = [sample_segment]"
    and "map_keys (base (smap (sections sample_ctx))) = [''.text'']" and "e_entry (elf_header sample_ctx) = 0"
proof -
  let ?s = "\<lparr>svec = vec_init, shdr = shdr_zero\<rparr>"
  have av: "map_avail (seg_alloc elf_served) n" "map_avail (sec_alloc elf_served) n" for n by (simp_all add: elf_served_def)
  obtain m where m: "map_set (seg_alloc elf_served) map_init ''.text'' sample_segment = (True, m)"
    using map_set_served [OF av(1)] .
  obtain c where c: "map_set (sec_alloc elf_served) map_init ''.text'' ?s = (True, c)"
    using map_set_served [OF av(2)] .
  note M = one_entry [OF m] and C = one_entry [OF c]
  have f: "segments sample_ctx = m" "smap (sections sample_ctx) = c" "elf_header sample_ctx = elf_header elf_gen_ctx_init"
    using m c by (simp_all add: sample_ctx_def)
  have vm: "map_values m = [sample_segment]" "map_values c = [?s]" using M C by simp_all
  then show "map_values (segments sample_ctx) = [sample_segment]" using f by simp
  show "map_keys (base (smap (sections sample_ctx))) = [''.text'']" using f C by simp
  show "e_entry (elf_header sample_ctx) = 0" using f(3) by (simp add: elf_gen_ctx_init_def)
  have "shstrtab_name \<notin> set (map_keys (base c))" unfolding C(1) by (simp add: shstrtab_name_def)
  then have fresh: "map_get c shstrtab_name = None" using mt.keys [OF C(2), of shstrtab_name] by simp
  have hd: "\<exists>e. elf_header elf_gen_ctx_init = (elf_header elf_gen_ctx_init)\<lparr>e_entry := e\<rparr>"
    by (intro exI [of _ 0]) (simp add: elf_gen_ctx_init_def)
  have seg: "\<forall>p \<in> set (map_values m). sound (pvec p) \<and> vlength (pvec p) < 2 ^ 32
      \<and> (\<not> has_data (pvec p) \<longrightarrow> p_filesz (phdr p) = 0)"
    unfolding vm(1) by (simp add: sample_segment_def sound_def vec_ok_def phdr_zero_def)
  have sec: "\<forall>s \<in> set (map_values c). vec_ok (svec s) \<and> bare s"
    unfolding vm(2) by (simp add: vec_init_def vec_ok_def)
  have size: "EHDR_SIZE + PHDR_SIZE * nnodes (base m) + SHDR_SIZE * (nnodes (base c) + 2) \<le> 4096"
    unfolding M(4) C(4) by (simp add: EHDR_SIZE_def PHDR_SIZE_def SHDR_SIZE_def)
  have need: "4096 + seg_need (map_values m) < 2 ^ 32"
    unfolding vm(1) by (simp add: seg_need_def sample_segment_def)
  have names: "11 + names_size (map_keys (base c)) \<le> 1000" unfolding C(1) by (simp add: names_size_def)
  have heap: "roomy (byte_alloc elf_served) 1000" "(1000 :: nat) < 2 ^ 32" by (simp_all add: elf_served_def roomy_heap)
  have al: "\<forall>n. map_avail (sec_alloc elf_served) n" using av(2) by blast
  show "elf_ready elf_served 1000 sample_ctx"
    unfolding elf_ready_def f by (intro conjI hd M(2,5) C(2,5) fresh al seg sec size need names heap)
qed

section \<open>Properties\<close>

text \<open>C31: A loader that reads the written file finds the entry point and, for every program header
  in table order, its type, address, flags, memory size and exactly the bytes of its vector: no
  header, segment or name table overwrites another.\<close>

theorem segments_read_back:
  assumes "elf_ready A lim ctx"
  shows "\<exists>fp ctx'. gen_elf_file A ctx empty_file = Some (fp, ctx')
    \<and> elf_load (fbytes fp) = Some (unat (e_entry (elf_header ctx)), map seg_of (map_values (segments ctx)))"
  using segments_read_back_aux [OF assms] by blast


theorem segments_read_back_witness:
  "\<exists>fp ctx'. gen_elf_file elf_served sample_ctx empty_file = Some (fp, ctx')
    \<and> elf_load (fbytes fp) = Some (0, [\<lparr>seg_type = 1, seg_vaddr = 0x1000, seg_flags = 5, seg_bytes = [0xB8, 1, 0], seg_memsz = 3\<rparr>])"
proof -
  have "seg_of sample_segment
      = \<lparr>seg_type = 1, seg_vaddr = 0x1000, seg_flags = 5, seg_bytes = [0xB8, 1, 0], seg_memsz = 3\<rparr>"
    by (simp add: seg_of_def sample_segment_def phdr_zero_def has_data_def vec_list_def)
  then show ?thesis
    using segments_read_back [OF sample_ready(1)] unfolding sample_ready(2,4) by simp
qed






end
