(* ===== verification/Options.thy ===== *)
theory Options
  imports Prelude
begin

text \<open>
  The command line, \<open>csrc/src/options.c\<close>: the loop over \<open>getopt_long\<close>, the operand, and the name
  of the output file derived from it.  \<open>getopt_long\<close> belongs to the C library; what the program
  uses of it is written out as documented for the GNU library without \<open>POSIXLY_CORRECT\<close>: operands
  may stand between options, short options may be joined, long options may be abbreviated.
  Allocation succeeds; messages are not modelled.
\<close>

section \<open>State\<close>

record options_t =
  input_name :: "string option"
  output_name :: "string option"
  dump_ir :: bool

definition options_init :: options_t where
  "options_init = \<lparr>input_name = None, output_name = None, dump_ir = False\<rparr>"

section \<open>The library function\<close>

text \<open>What a call returns: an option with \<open>optarg\<close>, or \<open>?\<close>.\<close>

datatype opt_event = Opt_c | Opt_d | Opt_o string | Opt_error

text \<open>Between calls: the rest of a joined element, the elements ahead, the operands passed over.\<close>

type_synonym getopt_state = "string \<times> string list \<times> string list"

definition long_options :: "(string \<times> bool \<times> char) list" where
  "long_options = [(''output'', True, CHR ''o''), (''compile'', False, CHR ''c''), (''dump'', False, CHR ''d'')]"

definition find_long :: "string \<Rightarrow> (bool \<times> char) option" where
  "find_long name =
     (case filter (\<lambda>(n, _). n = name) long_options of
        (_, r) # _ \<Rightarrow> Some r
      | [] \<Rightarrow> (case filter (\<lambda>(n, _). take (length name) n = name) long_options of
                 [(_, r)] \<Rightarrow> Some r
               | _ \<Rightarrow> None))"

definition flag_event :: "char \<Rightarrow> opt_event" where
  "flag_event c = (if c = CHR ''c'' then Opt_c else if c = CHR ''d'' then Opt_d else Opt_error)"

fun arg_event :: "string list \<Rightarrow> opt_event \<times> string list" where
  "arg_event [] = (Opt_error, [])"
| "arg_event (a # args) = (Opt_o a, args)"

text \<open>A short option, of the string \<open>dco:\<close>, with the rest of its element.\<close>

definition getopt_short :: "char \<Rightarrow> string \<Rightarrow> string list \<Rightarrow> string list \<Rightarrow> opt_event \<times> getopt_state" where
  "getopt_short c cs args ops =
     (if c = CHR ''o''
      then (if cs \<noteq> [] then (Opt_o cs, [], args, ops)
            else let (e, args') = arg_event args in (e, [], args', ops))
      else (flag_event c, cs, args, ops))"

text \<open>A long option without its dashes.\<close>

definition getopt_name :: "string \<Rightarrow> string list \<Rightarrow> opt_event \<times> string list" where
  "getopt_name body args =
     (let name = takeWhile (\<lambda>c. c \<noteq> CHR ''='') body;
          val = dropWhile (\<lambda>c. c \<noteq> CHR ''='') body
      in case find_long name of
           None \<Rightarrow> (Opt_error, args)
         | Some (required, c) \<Rightarrow>
             (case val of
                _ # v \<Rightarrow> ((if required then Opt_o v else Opt_error), args)
              | [] \<Rightarrow> if required then arg_event args else (flag_event c, args)))"

fun getopt_long :: "getopt_state \<Rightarrow> opt_event option \<times> getopt_state" where
  "getopt_long (c # cs, args, ops) = (let (e, st) = getopt_short c cs args ops in (Some e, st))"
| "getopt_long ([], [], ops) = (None, [], [], ops)"
| "getopt_long ([], a # args, ops) =
     (if a = ''--'' then (None, [], [], ops @ args)
      else if take 2 a = ''--'' then let (e, args') = getopt_name (drop 2 a) args in (Some e, [], args', ops)
      else if take 1 a = ''-'' \<and> a \<noteq> ''-'' then getopt_long (tl a, args, ops)
      else getopt_long ([], args, ops @ [a]))"

section \<open>The loop of \<open>parse_options\<close>\<close>

definition args_left :: "getopt_state \<Rightarrow> nat" where
  "args_left st = length (fst st) + (\<Sum>a \<leftarrow> fst (snd st). length a + 1)"

lemma arg_event_less: "(\<Sum>a \<leftarrow> snd (arg_event args). length a + 1) \<le> (\<Sum>a \<leftarrow> args. length a + 1)"
  by (cases args) simp_all

lemma getopt_name_less: "(\<Sum>a \<leftarrow> snd (getopt_name body args). length a + 1) \<le> (\<Sum>a \<leftarrow> args. length a + 1)"
  using arg_event_less [of args] by (auto simp: getopt_name_def Let_def split: option.split list.split)

lemma getopt_long_less: "getopt_long st = (Some e, st') \<Longrightarrow> args_left st' < args_left st"
proof (induction st rule: getopt_long.induct)
  case (1 c cs args ops)
  then show ?case using arg_event_less [of args]
    by (auto simp: getopt_short_def args_left_def Let_def split: if_splits prod.splits)
next
  case (3 a args ops)
  consider "a = ''--''" | "a \<noteq> ''--''" "take 2 a = ''--''"
    | "a \<noteq> ''--''" "take 2 a \<noteq> ''--''" "take 1 a = ''-'' \<and> a \<noteq> ''-''"
    | "a \<noteq> ''--''" "take 2 a \<noteq> ''--''" "\<not> (take 1 a = ''-'' \<and> a \<noteq> ''-'')" by blast
  then show ?case
  proof cases
    case 1
    then show ?thesis using 3(3) by simp
  next
    case 2
    then have "st' = ([], snd (getopt_name (drop 2 a) args), ops)" using 3(3) by (simp split: prod.splits)
    then show ?thesis using getopt_name_less [of "drop 2 a" args] by (simp add: args_left_def)
  next
    case c: 3
    then have "getopt_long (tl a, args, ops) = (Some e, st')" using 3(3) by simp
    from 3(1) [OF c this] show ?thesis by (simp add: args_left_def)
  next
    case c: 4
    then have "getopt_long ([], args, ops @ [a]) = (Some e, st')" using 3(3) by (auto split: if_splits)
    from 3(2) [OF c this] show ?thesis by (simp add: args_left_def)
  qed
qed simp

text \<open>The result is \<open>None\<close> for the jump to \<open>error_ret\<close>, else \<open>compiling\<close>, the options, the operands.\<close>

function parse_loop :: "bool \<Rightarrow> options_t \<Rightarrow> getopt_state \<Rightarrow> (bool \<times> options_t \<times> string list) option" where
  "parse_loop compiling options st =
     (case getopt_long st of
        (None, _, _, ops) \<Rightarrow> Some (compiling, options, ops)
      | (Some c, st') \<Rightarrow>
          (case c of
             Opt_c \<Rightarrow> parse_loop True options st'
           | Opt_d \<Rightarrow> parse_loop compiling (options\<lparr>dump_ir := True\<rparr>) st'
           | Opt_o optarg \<Rightarrow> parse_loop compiling (options\<lparr>output_name := Some optarg\<rparr>) st'
           | Opt_error \<Rightarrow> None))"
  by pat_completeness auto
termination
  by (relation "measure (\<lambda>(_, _, st). args_left st)") (auto dest: getopt_long_less [OF sym])

declare parse_loop.simps [simp del]

section \<open>The operand and the output name\<close>

definition strrchr :: "string \<Rightarrow> char \<Rightarrow> nat option" where
  "strrchr s c =
     (if c \<in> set s then Some (length s - 1 - length (takeWhile (\<lambda>x. x \<noteq> c) (rev s))) else None)"

text \<open>\<open>None\<close>: the end lies before the start, and \<open>memcpy\<close> is given a length beyond any block.\<close>

definition derived_name :: "string \<Rightarrow> string option" where
  "derived_name name =
     (let start = (case strrchr name (CHR ''/'') of Some i \<Rightarrow> i + 1 | None \<Rightarrow> 0);
          stop = (case strrchr name (CHR ''.'') of
                    Some j \<Rightarrow> if j \<noteq> 0 then j else length name
                  | None \<Rightarrow> length name)
      in if stop < start then None else Some (take (stop - start) (drop start name)))"

definition parse_options :: "string list \<Rightarrow> options_t option outcome" where
  "parse_options argv =
     (case parse_loop False options_init ([], tl argv, []) of
        None \<Rightarrow> Done None
      | Some (compiling, options, ops) \<Rightarrow>
          (case ops of
             [] \<Rightarrow> Done None
           | name # extra \<Rightarrow>
               let options = options\<lparr>input_name := Some name\<rparr> in
               then_do (if compiling \<and> output_name options = None
                        then (case derived_name name of
                                None \<Rightarrow> Crash
                              | Some n \<Rightarrow> Done (options\<lparr>output_name := Some n\<rparr>))
                        else Done options)
                 (\<lambda>options. Done (if extra = [] then Some options else None))))"

section \<open>The derived output name\<close>

lemma strrchr_append: "c \<notin> set b \<Longrightarrow> strrchr (a @ c # b) c = Some (length a)"
proof -
  assume c: "c \<notin> set b"
  have "takeWhile (\<lambda>x. x \<noteq> c) (rev b @ [c] @ rev a) = rev b"
    using c by (subst takeWhile_append2) auto
  then show ?thesis by (simp add: strrchr_def)
qed

lemma strrchr_None: "c \<notin> set s \<Longrightarrow> strrchr s c = None"
  by (simp add: strrchr_def)

lemma strrchr_first: "c \<notin> set (tl s) \<Longrightarrow> strrchr s c = None \<or> strrchr s c = Some 0"
  using strrchr_append [of c "tl s" "[]"] strrchr_None [of c s] by (cases s) auto

text \<open>Where the base name starts, and a last dot in front of it.\<close>

lemma base_name_start:
  assumes "dir = [] \<or> last dir = CHR ''/''" and "CHR ''/'' \<notin> set b"
  shows "(case strrchr (dir @ b) (CHR ''/'') of Some i \<Rightarrow> i + 1 | None \<Rightarrow> 0) = length dir"
proof (cases "dir = []")
  case True
  then show ?thesis using assms(2) by (simp add: strrchr_None)
next
  case False
  then obtain d where "dir = d @ [CHR ''/'']" using assms(1) by (metis append_butlast_last_id)
  then show ?thesis using strrchr_append [OF assms(2), of d] by simp
qed

lemma derived_name_wraps:
  assumes dir: "dir = [] \<or> last dir = CHR ''/''" "CHR ''/'' \<notin> set stem"
    and w: "CHR ''.'' \<notin> set stem" "CHR ''.'' \<in> set (tl dir)"
  shows "derived_name (dir @ stem) = None"
proof -
  obtain a b where ab: "tl dir = a @ CHR ''.'' # b" "CHR ''.'' \<notin> set b"
    using w(2) by (metis split_list_last)
  then have d: "dir = (hd dir # a) @ CHR ''.'' # b" by (cases dir) simp_all
  have "strrchr ((hd dir # a) @ CHR ''.'' # b @ stem) (CHR ''.'') = Some (length (hd dir # a))"
    by (rule strrchr_append) (use ab(2) w(1) in simp)
  moreover have "dir @ stem = (hd dir # a) @ CHR ''.'' # b @ stem" by (subst d) simp
  ultimately have j: "strrchr (dir @ stem) (CHR ''.'') = Some (length (hd dir # a))" by (simp only:)
  have "length dir = length ((hd dir # a) @ CHR ''.'' # b)" using d by (rule arg_cong)
  then have "length (hd dir # a) < length dir" by simp
  then show ?thesis using base_name_start [OF dir] j by (simp add: derived_name_def Let_def)
qed

text \<open>C38: A file name consists of a directory (empty, or ending in a slash) and a base.  The derived
  output name is the base up to its last dot, if it has one that does not start the whole name, and
  the whole base if the name has no dot behind its first character (so \<open>./life\<close> gives \<open>life\<close>);
  but when the base has no dot and the directory has one behind its first character, the length
  handed to \<open>memcpy\<close> wraps.  No other name is left.\<close>

theorem derived_name_cases:
  assumes "dir = [] \<or> last dir = CHR ''/''" and "CHR ''/'' \<notin> set stem" and "CHR ''/'' \<notin> set ext"
  shows "(CHR ''.'' \<notin> set ext \<and> (dir \<noteq> [] \<or> stem \<noteq> []) \<longrightarrow> derived_name (dir @ stem @ CHR ''.'' # ext) = Some stem)
    \<and> (CHR ''.'' \<notin> set (tl (dir @ stem)) \<longrightarrow> derived_name (dir @ stem) = Some stem)
    \<and> (CHR ''.'' \<notin> set stem \<and> CHR ''.'' \<in> set (tl dir) \<longrightarrow> derived_name (dir @ stem) = None)"
proof -
  note start = base_name_start [OF assms(1)]
  have dotted: "CHR ''.'' \<notin> set ext \<and> (dir \<noteq> [] \<or> stem \<noteq> []) \<longrightarrow> derived_name (dir @ stem @ CHR ''.'' # ext) = Some stem"
  proof (intro impI, elim conjE)
    assume d: "CHR ''.'' \<notin> set ext" "dir \<noteq> [] \<or> stem \<noteq> []"
    have "strrchr ((dir @ stem) @ CHR ''.'' # ext) (CHR ''.'') = Some (length (dir @ stem))"
      by (rule strrchr_append [OF d(1)])
    then show "derived_name (dir @ stem @ CHR ''.'' # ext) = Some stem"
      using d(2) start [of "stem @ CHR ''.'' # ext"] assms(2,3) by (auto simp: derived_name_def)
  qed
  have plain: "CHR ''.'' \<notin> set (tl (dir @ stem)) \<longrightarrow> derived_name (dir @ stem) = Some stem"
    using start [OF assms(2)] strrchr_first [of "CHR ''.''" "dir @ stem"] by (auto simp: derived_name_def)
  have wrapped: "CHR ''.'' \<notin> set stem \<and> CHR ''.'' \<in> set (tl dir) \<longrightarrow> derived_name (dir @ stem) = None"
    by (intro impI, elim conjE) (rule derived_name_wraps [OF assms(1,2)])
  show ?thesis by (intro conjI dotted plain wrapped)
qed

theorem derived_name_cases_witness:
  "derived_name ''src/life.bf'' = Some ''life'' \<and> derived_name ''src/life'' = Some ''life''
    \<and> derived_name ''./life'' = Some ''life'' \<and> derived_name ''../life'' = None"
  using derived_name_cases [of "''src/''" "''life''" "''bf''"] derived_name_cases [of "''./''" "''life''" "[]"]
    derived_name_cases [of "''../''" "''life''" "[]"] by simp

section \<open>Reading back a command line\<close>

text \<open>What a user may write.\<close>

datatype cmd_item = Compile_short | Compile_long | Dump_short | Dump_long
  | Out_short string | Out_joined string | Out_long string | Out_equals string | Operand string

fun render :: "cmd_item \<Rightarrow> string list" where
  "render Compile_short = [''-c'']"
| "render Compile_long = [''--compile'']"
| "render Dump_short = [''-d'']"
| "render Dump_long = [''--dump'']"
| "render (Out_short n) = [''-o'', n]"
| "render (Out_joined n) = [''-o'' @ n]"
| "render (Out_long n) = [''--output'', n]"
| "render (Out_equals n) = [''--output='' @ n]"
| "render (Operand f) = [f]"

fun item_ok :: "cmd_item \<Rightarrow> bool" where
  "item_ok (Operand f) \<longleftrightarrow> take 1 f \<noteq> ''-'' \<or> f = ''-''"
| "item_ok (Out_joined n) \<longleftrightarrow> n \<noteq> []"
| "item_ok _ \<longleftrightarrow> True"

fun out_of :: "cmd_item \<Rightarrow> string list" where
  "out_of (Out_short n) = [n]"
| "out_of (Out_joined n) = [n]"
| "out_of (Out_long n) = [n]"
| "out_of (Out_equals n) = [n]"
| "out_of _ = []"

fun operand_of :: "cmd_item \<Rightarrow> string list" where
  "operand_of (Operand f) = [f]"
| "operand_of _ = []"

definition compiles :: "cmd_item list \<Rightarrow> bool" where
  "compiles items \<longleftrightarrow> Compile_short \<in> set items \<or> Compile_long \<in> set items"

definition dumps :: "cmd_item list \<Rightarrow> bool" where
  "dumps items \<longleftrightarrow> Dump_short \<in> set items \<or> Dump_long \<in> set items"

definition last_out :: "string option \<Rightarrow> cmd_item list \<Rightarrow> string option" where
  "last_out o0 items = (let os = concat (map out_of items) in if os = [] then o0 else Some (last os))"

text \<open>The arguments after \<open>--\<close>, if there is one.\<close>

definition tail_args :: "string list option \<Rightarrow> string list" where
  "tail_args sep = (case sep of None \<Rightarrow> [] | Some fs \<Rightarrow> ''--'' # fs)"

definition tail_operands :: "string list option \<Rightarrow> string list" where
  "tail_operands sep = (case sep of None \<Rightarrow> [] | Some fs \<Rightarrow> fs)"

lemma find_long_names [simp]:
  "find_long ''output'' = Some (True, CHR ''o'')" "find_long ''compile'' = Some (False, CHR ''c'')"
  "find_long ''dump'' = Some (False, CHR ''d'')"
  by (simp_all add: find_long_def long_options_def)

lemma getopt_render:
  "getopt_long ([], ''-c'' # args, ops) = (Some Opt_c, [], args, ops)"
  "getopt_long ([], ''--compile'' # args, ops) = (Some Opt_c, [], args, ops)"
  "getopt_long ([], ''-d'' # args, ops) = (Some Opt_d, [], args, ops)"
  "getopt_long ([], ''--dump'' # args, ops) = (Some Opt_d, [], args, ops)"
  "getopt_long ([], ''-o'' # n # args, ops) = (Some (Opt_o n), [], args, ops)"
  "n \<noteq> [] \<Longrightarrow> getopt_long ([], (''-o'' @ n) # args, ops) = (Some (Opt_o n), [], args, ops)"
  "getopt_long ([], ''--output'' # n # args, ops) = (Some (Opt_o n), [], args, ops)"
  "getopt_long ([], (''--output='' @ n) # args, ops) = (Some (Opt_o n), [], args, ops)"
  by (simp_all add: getopt_short_def flag_event_def getopt_name_def)

lemma getopt_operand:
  assumes "take 1 f \<noteq> ''-'' \<or> f = ''-''"
  shows "getopt_long ([], f # args, ops) = getopt_long ([], args, ops @ [f])"
proof -
  have "f \<noteq> ''--''" "take 2 f \<noteq> ''--''" using assms by (cases f; auto)+
  then show ?thesis using assms by auto
qed

lemma parse_loop_operand:
  "take 1 f \<noteq> ''-'' \<or> f = ''-'' \<Longrightarrow>
   parse_loop c opts ([], f # args, ops) = parse_loop c opts ([], args, ops @ [f])"
  by (subst (1 2) parse_loop.simps) (simp only: getopt_operand)

lemma parse_loop_event:
  "getopt_long st = (Some Opt_c, st') \<Longrightarrow> parse_loop c opts st = parse_loop True opts st'"
  "getopt_long st = (Some Opt_d, st') \<Longrightarrow> parse_loop c opts st = parse_loop c (opts\<lparr>dump_ir := True\<rparr>) st'"
  "getopt_long st = (Some (Opt_o n), st') \<Longrightarrow> parse_loop c opts st = parse_loop c (opts\<lparr>output_name := Some n\<rparr>) st'"
  by (subst parse_loop.simps, simp)+

lemma parse_loop_tail:
  "parse_loop c opts ([], tail_args sep, ops) = Some (c, opts, ops @ tail_operands sep)"
  by (subst parse_loop.simps) (cases sep; simp add: tail_args_def tail_operands_def)

lemma options_eta: "opts\<lparr>output_name := output_name opts, dump_ir := dump_ir opts\<rparr> = opts" for opts :: options_t
  by simp

lemma parse_loop_items:
  "list_all item_ok items \<Longrightarrow>
   parse_loop c opts ([], concat (map render items) @ tail_args sep, ops)
     = Some (c \<or> compiles items,
             opts\<lparr>output_name := last_out (output_name opts) items, dump_ir := dump_ir opts \<or> dumps items\<rparr>,
             ops @ concat (map operand_of items) @ tail_operands sep)"
proof (induction items arbitrary: c opts ops)
  case Nil
  then show ?case by (simp add: parse_loop_tail compiles_def dumps_def last_out_def)
next
  case (Cons x items)
  let ?rest = "concat (map render items) @ tail_args sep"
  have ok: "item_ok x" and IH: "\<And>c opts ops. parse_loop c opts ([], ?rest, ops)
     = Some (c \<or> compiles items,
             opts\<lparr>output_name := last_out (output_name opts) items, dump_ir := dump_ir opts \<or> dumps items\<rparr>,
             ops @ concat (map operand_of items) @ tail_operands sep)"
    using Cons by simp_all
  note simps = IH compiles_def dumps_def last_out_def Let_def
  show ?case
  proof (cases x)
    case Compile_short
    then show ?thesis using parse_loop_event(1) [OF getopt_render(1) [of ?rest]] by (simp add: simps)
  next
    case Compile_long
    then show ?thesis using parse_loop_event(1) [OF getopt_render(2) [of ?rest]] by (simp add: simps)
  next
    case Dump_short
    then show ?thesis using parse_loop_event(2) [OF getopt_render(3) [of ?rest]] by (simp add: simps)
  next
    case Dump_long
    then show ?thesis using parse_loop_event(2) [OF getopt_render(4) [of ?rest]] by (simp add: simps)
  next
    case (Out_short n)
    then show ?thesis using parse_loop_event(3) [OF getopt_render(5) [of n ?rest]] by (simp add: simps)
  next
    case (Out_joined n)
    then show ?thesis using parse_loop_event(3) [OF getopt_render(6) [of n ?rest]] ok by (simp add: simps)
  next
    case (Out_long n)
    then show ?thesis using parse_loop_event(3) [OF getopt_render(7) [of n ?rest]] by (simp add: simps)
  next
    case (Out_equals n)
    then show ?thesis using parse_loop_event(3) [OF getopt_render(8) [of n ?rest]] by (simp add: simps)
  next
    case (Operand f)
    then show ?thesis using parse_loop_operand [of f c opts ?rest ops] ok by (simp add: simps)
  qed
qed

text \<open>C37: A command line written from any sequence of options, in any of their spellings, and operands,
  in any order and with more operands after \<open>--\<close>, is read back: whether to dump, the last output
  name (or the one derived from the file when only compilation was asked for), and the file; it is
  refused when there is not exactly one operand.\<close>

theorem command_line_read_back:
  assumes "list_all item_ok items" and "concat (map operand_of items) @ tail_operands sep = ops"
    and "compiles items \<Longrightarrow> last_out None items = None \<Longrightarrow> ops \<noteq> [] \<Longrightarrow> derived_name (hd ops) \<noteq> None"
  shows "parse_options (prog # concat (map render items) @ tail_args sep)
    = Done (if length ops = 1
            then Some \<lparr>input_name = Some (hd ops),
                       output_name = (if compiles items \<and> last_out None items = None then derived_name (hd ops)
                                      else last_out None items),
                       dump_ir = dumps items\<rparr>
            else None)"
proof -
  have p: "parse_loop False options_init ([], concat (map render items) @ tail_args sep, [])
      = Some (compiles items, options_init\<lparr>output_name := last_out None items, dump_ir := dumps items\<rparr>, ops)"
    using parse_loop_items [OF assms(1), of False options_init sep "[]"] assms(2) by (simp add: options_init_def)
  show ?thesis
  proof (cases ops)
    case Nil
    then show ?thesis by (simp add: parse_options_def p)
  next
    case (Cons f extra)
    then have "compiles items \<and> last_out None items = None \<Longrightarrow> derived_name f \<noteq> None" using assms(3) by simp
    then show ?thesis unfolding parse_options_def list.sel p Let_def
      by (cases "derived_name f"; cases "last_out None items") (auto simp: Cons options_init_def)
  qed
qed

theorem command_line_read_back_witness:
  "parse_options [''bfcomp'', ''-d'', ''life.bf'', ''--output=a'', ''-ob'']
     = Done (Some \<lparr>input_name = Some ''life.bf'', output_name = Some ''b'', dump_ir = True\<rparr>)
   \<and> parse_options [''bfcomp'', ''--compile'', ''--'', ''-x.bf'']
     = Done (Some \<lparr>input_name = Some ''-x.bf'', output_name = Some ''-x'', dump_ir = False\<rparr>)
   \<and> parse_options [''bfcomp'', ''a'', ''b''] = Done None"
proof (intro conjI)
  have d: "derived_name ''-x.bf'' = Some ''-x''" by (simp add: derived_name_def strrchr_def)
  show "parse_options [''bfcomp'', ''-d'', ''life.bf'', ''--output=a'', ''-ob'']
     = Done (Some \<lparr>input_name = Some ''life.bf'', output_name = Some ''b'', dump_ir = True\<rparr>)"
    using command_line_read_back [of "[Dump_short, Operand ''life.bf'', Out_equals ''a'', Out_joined ''b'']" None _ "''bfcomp''"]
    by (simp add: tail_args_def tail_operands_def compiles_def dumps_def last_out_def)
  show "parse_options [''bfcomp'', ''--compile'', ''--'', ''-x.bf'']
     = Done (Some \<lparr>input_name = Some ''-x.bf'', output_name = Some ''-x'', dump_ir = False\<rparr>)"
    using command_line_read_back [of "[Compile_long]" "Some [''-x.bf'']" _ "''bfcomp''"] d
    by (simp add: tail_args_def tail_operands_def compiles_def dumps_def last_out_def)
  show "parse_options [''bfcomp'', ''a'', ''b''] = Done None"
    using command_line_read_back [of "[Operand ''a'', Operand ''b'']" None _ "''bfcomp''"]
    by (simp add: tail_args_def tail_operands_def compiles_def dumps_def last_out_def)
qed

end
