(* ===== verification/Driver.thy ===== *)
theory Driver
  imports Ir_Interpret Ir_Dump Compiled Elf_Props Options
begin

text \<open>
  The driver, \<open>csrc/src/main.c\<close>: reading the source in chunks, the choice between listing,
  interpreting and compiling, and the text segment of the executable with its prologue.
  What \<open>fopen\<close> and \<open>fread\<close> deliver is an argument (the characters of the file, or \<open>None\<close>
  when it cannot be opened); the files written are results.
\<close>

section \<open>Reading the source\<close>

definition BUFLEN :: nat where
  "BUFLEN = 1024"

lemma BUFLEN_pos [simp]: "0 < BUFLEN" "BUFLEN \<noteq> 0"
  by (simp_all add: BUFLEN_def)

text \<open>What of one buffer is seen as a C string.\<close>

definition c_string :: "string \<Rightarrow> string" where
  "c_string s = takeWhile (\<lambda>c. c \<noteq> CHR 0x00) s"

function read_source :: "ir_op_t allocator \<Rightarrow> ir_ctx \<Rightarrow> string \<Rightarrow> (nat \<times> ir_ctx) option" where
  "read_source A ctx content =
     (let buffer = take BUFLEN content in do {
        (ret, ctx') \<leftarrow> ir_ctx_parse A ctx (c_string buffer);
        if ret \<noteq> 0 then Some (1, ctx')
        else if buffer = [] then Some (0, ctx')
        else read_source A ctx' (drop BUFLEN content) })"
  by pat_completeness auto
termination
  by (relation "measure (\<lambda>(A, ctx, content). length content)") auto

declare read_source.simps [simp del]

section \<open>The text segment\<close>

definition text_vaddr :: u32 where
  "text_vaddr = 0x08048000"

text \<open>
  \<open>write_elf_file\<close>.  The code is emitted into the vector of the text segment: the prologue that
  loads the address of the data segment, then the compiled program; the result of
  \<open>ir_ctx_compile\<close> is not looked at.  The address in the prologue is overwritten once the length
  of the code is known.
\<close>

definition emit_text :: "ir_op_t allocator \<Rightarrow> u8 allocator \<Rightarrow> u8 vec \<Rightarrow> u32 \<Rightarrow> ir_ctx
    \<Rightarrow> (u8 vec \<times> ir_ctx) option" where
  "emit_text Ai A v vaddr ir = do {
     c0 \<leftarrow> ctx_push_code A v [0xb8 + SP_REG];
     c1 \<leftarrow> push_as_bytes A c0 vaddr;
     (_, code, ir') \<leftarrow> ir_ctx_compile Ai A c1 ir;
     Some (code, ir') }"

definition bss_address :: "u32 \<Rightarrow> u8 vec \<Rightarrow> u32" where
  "bss_address vaddr code = ucast (align_to (ucast vaddr + of_nat (vlength code)) 0x1000)"

definition PT_LOAD :: u32 where "PT_LOAD = 1"
definition PF_X :: u32 where "PF_X = 1"
definition PF_W :: u32 where "PF_W = 2"
definition PF_R :: u32 where "PF_R = 4"
definition SHT_PROGBITS :: u32 where "SHT_PROGBITS = 1"
definition SHF_WRITE :: u32 where "SHF_WRITE = 1"
definition SHF_ALLOC :: u32 where "SHF_ALLOC = 2"
definition SHF_EXECINSTR :: u32 where "SHF_EXECINSTR = 4"

definition write_elf_file :: "ir_op_t allocator \<Rightarrow> elf_alloc \<Rightarrow> ir_ctx \<Rightarrow> cfile \<Rightarrow> (cfile \<times> ir_ctx) option" where
  "write_elf_file Ai A ir fp = do {
     let (ctx, text) = gen_program_header A elf_gen_ctx_init ''.text''
       (phdr_zero\<lparr>p_type := PT_LOAD, p_vaddr := text_vaddr, p_flags := PF_R OR PF_X\<rparr>);
     text \<leftarrow> text;
     let (ctx, _) = gen_section_header A ctx ''.text'' (shdr_zero\<lparr>sh_type := SHT_PROGBITS,
       sh_flags := SHF_ALLOC OR SHF_EXECINSTR, sh_addr := p_vaddr (phdr text)\<rparr>);
     let ctx = ctx\<lparr>elf_header := (elf_header ctx)\<lparr>e_entry := p_vaddr (phdr text)\<rparr>\<rparr>;
     (code, ir') \<leftarrow> emit_text Ai (byte_alloc A) (pvec text) (p_vaddr (phdr text)) ir;
     segs \<leftarrow> map_modify (segments ctx) ''.text'' (text\<lparr>pvec := code\<rparr>);
     let (ctx, bss) = gen_program_header A (ctx\<lparr>segments := segs\<rparr>) ''.bss''
       (phdr_zero\<lparr>p_type := PT_LOAD, p_vaddr := bss_address (p_vaddr (phdr text)) code, p_flags := PF_R OR PF_W\<rparr>);
     bss \<leftarrow> bss;
     segs \<leftarrow> map_modify (segments ctx) ''.bss'' (bss\<lparr>pvec := (pvec bss)\<lparr>vlength := 30000\<rparr>\<rparr>);
     let (ctx, _) = gen_section_header A (ctx\<lparr>segments := segs\<rparr>) ''.bss'' (shdr_zero\<lparr>sh_type := SHT_NOBITS,
       sh_flags := SHF_ALLOC OR SHF_WRITE, sh_addr := p_vaddr (phdr bss)\<rparr>);
     code \<leftarrow> vec_set_each code 1 (le32 (p_vaddr (phdr bss)));
     segs \<leftarrow> map_modify (segments ctx) ''.text'' (text\<lparr>pvec := code\<rparr>);
     (fp, _) \<leftarrow> gen_elf_file A (ctx\<lparr>segments := segs\<rparr>) fp;
     Some (fp, ir') }"

text \<open>The permission bits of the file after \<open>make_exe\<close>: the three execute bits (octal 111) added.\<close>

definition make_exe :: "u32 \<Rightarrow> u32" where
  "make_exe mode = mode OR 0x49"

text \<open>The contents of the two segments on their own.\<close>

definition write_text :: "ir_op_t allocator \<Rightarrow> u8 allocator \<Rightarrow> ir_ctx
    \<Rightarrow> (u8 vec \<times> u32 \<times> ir_ctx) option" where
  "write_text Ai A ir = do {
     (code, ir') \<leftarrow> emit_text Ai A vec_init text_vaddr ir;
     let bss_addr = bss_address text_vaddr code;
     text' \<leftarrow> vec_set_each code 1 (le32 bss_addr);
     Some (text', bss_addr, ir') }"

section \<open>The main function\<close>

definition zeroed_tape :: "u8 allocator \<Rightarrow> u8 vec" where
  "zeroed_tape A = (let c = snd (vec_reserve A vec_init 30000) in c\<lparr>vdata := replicate (vcapacity c) 0\<rparr>)"

text \<open>A written executable is its bytes and its permission bits.\<close>

datatype main_result = Exit_failure | Listing string | Interpreted interpret_state | Wrote_elf "u8 list" u32

text \<open>
  After the options: \<open>dump\<close> is \<open>dump_ir\<close>; \<open>out_name\<close> is \<open>None\<close> without an output name, else
  the permission bits of that file, if it can be opened.  The result of the \<open>calloc\<close> of the read
  buffer is not looked at: behind an open file, a buffer that was refused is written through the
  null pointer.
\<close>

definition main_run :: "ir_op_t allocator \<Rightarrow> elf_alloc \<Rightarrow> nat \<Rightarrow> bool \<Rightarrow> u32 option option \<Rightarrow> string option
    \<Rightarrow> u8 list \<Rightarrow> main_result outcome" where
  "main_run Ai A fuel dump out_name content input =
     (case content of
        None \<Rightarrow> Done Exit_failure
      | Some src \<Rightarrow>
          if \<not> avail Ai (BUFLEN + 1) then Crash
          else then_do (of_option (read_source Ai (snd (vec_reserve Ai ir_ctx_init BUFLEN)) src)) (\<lambda>(ret, ctx).
            if ret \<noteq> 0 then Done Exit_failure
            else if dump then then_do (of_option (ir_ctx_dump_ir ctx)) (\<lambda>s. Done (Listing s))
            else case out_name of
              None \<Rightarrow> then_do (ir_interpret Ai fuel ctx (zeroed_tape (byte_alloc A)) input) (\<lambda>r. Done (Interpreted r))
            | Some None \<Rightarrow> Done Exit_failure
            | Some (Some mode) \<Rightarrow>
                then_do (of_option (write_elf_file Ai A ctx empty_file))
                  (\<lambda>(fp, _). Done (Wrote_elf (fbytes fp) (make_exe mode)))))"

text \<open>
  The whole of it: \<open>readable\<close> gives the contents of the files \<open>fopen\<close> can read, \<open>writable\<close> the
  permission bits of those it can create or truncate.
\<close>

definition main :: "ir_op_t allocator \<Rightarrow> elf_alloc \<Rightarrow> nat \<Rightarrow> (string \<Rightarrow> string option) \<Rightarrow> (string \<Rightarrow> u32 option)
    \<Rightarrow> string list \<Rightarrow> u8 list \<Rightarrow> main_result outcome" where
  "main Ai A fuel readable writable argv input =
     then_do (parse_options argv) (\<lambda>r. case r of
        None \<Rightarrow> Done Exit_failure
      | Some options \<Rightarrow> main_run Ai A fuel (dump_ir options) (map_option writable (output_name options))
          (Option.bind (input_name options) readable) input)"

section \<open>Chunked reading\<close>

text \<open>The characters the parser gets to see: all of them unless the file has NUL characters.\<close>

function source_text :: "string \<Rightarrow> string" where
  "source_text content =
     (if content = [] then [] else c_string (take BUFLEN content) @ source_text (drop BUFLEN content))"
  by pat_completeness auto
termination
  by (relation "measure size") (auto simp: BUFLEN_def)

declare source_text.simps [simp del]

lemma source_text_Nil [simp]: "source_text [] = []"
  by (simp add: source_text.simps)

lemma read_source_Nil: "read_source A ctx [] = map_option (\<lambda>(ret, c). (if ret \<noteq> 0 then 1 else 0, c)) (ir_ctx_parse A ctx [])"
  by (cases "ir_ctx_parse A ctx []") (auto simp: read_source.simps [of A ctx "[]"] c_string_def)

lemma c_string_id: "CHR 0x00 \<notin> set s \<Longrightarrow> c_string s = s"
  by (auto simp: c_string_def takeWhile_eq_all_conv)

lemma source_text_id: "CHR 0x00 \<notin> set content \<Longrightarrow> source_text content = content"
proof (induction content rule: source_text.induct)
  case (1 content)
  show ?case
  proof (cases "content = []")
    case False
    have "CHR 0x00 \<notin> set (take BUFLEN content)" "CHR 0x00 \<notin> set (drop BUFLEN content)"
      using "1.prems" in_set_takeD in_set_dropD by fast+
    then show ?thesis using 1 False by (simp add: source_text.simps [of content] c_string_id)
  qed (simp add: source_text.simps)
qed

lemma source_text_length: "length (source_text content) \<le> length content"
proof (induction content rule: source_text.induct)
  case (1 content)
  have "length (c_string (take BUFLEN content)) \<le> length (take BUFLEN content)"
    unfolding c_string_def by (rule length_takeWhile_le)
  then show ?case using 1 by (cases "content = []") (auto simp: source_text.simps [of content])
qed

text \<open>
  \<open>parsed src ctx\<close>: the context holds the operations of the text read so far.  One more
  call of \<open>ir_ctx_parse\<close> keeps it, wherever the text was cut.
\<close>

definition parsed :: "string \<Rightarrow> ir_ctx \<Rightarrow> bool" where
  "parsed src ctx \<longleftrightarrow> (\<exists>sz z. src_z [[]] src = Some sz \<and> levels (length src) sz z \<and> ctx_ok ctx
     \<and> vec_list ctx = zops z \<and> patch ctx = zpatch z \<and> vlength ctx \<le> length src
     \<and> cost (vec_list ctx) \<le> 19 * length src
     \<and> (single_reads src \<longrightarrow> (\<forall>x \<in> set (vec_list ctx). compiles_fully x)))"

lemma single_reads_append: "single_reads (a @ b) \<Longrightarrow> single_reads a \<and> single_reads b"
  by (auto simp: single_reads_def successively_append_iff)

lemma parsed_step:
  assumes p: "parsed src ctx" and A: "roomy A lim" and len: "length (src @ chunk) \<le> lim"
  shows "if src_z [[]] (src @ chunk) = None then \<exists>ctx'. ir_ctx_parse A ctx chunk = Some (1, ctx')
    else \<exists>ctx'. ir_ctx_parse A ctx chunk = Some (0, ctx') \<and> parsed (src @ chunk) ctx'"
proof -
  obtain sz z where z: "src_z [[]] src = Some sz" "levels (length src) sz z" "ctx_ok ctx"
      "vec_list ctx = zops z" "patch ctx = zpatch z" "vlength ctx \<le> length src"
      "cost (vec_list ctx) \<le> 19 * length src"
      "single_reads src \<longrightarrow> (\<forall>x \<in> set (vec_list ctx). compiles_fully x)"
    using p unfolding parsed_def by blast
  have "sz \<noteq> []" using src_z_nonempty [OF z(1)] .
  then obtain p ps q qs where e: "sz = p # ps" "z = q # qs"
    using z(2) by (cases sz; cases z) auto
  have n: "length src + length chunk < 2 ^ 63" using len roomy_lim [OF A] by simp
  have room: "vlength ctx + length chunk \<le> lim" using z(6) len by simp
  note run = ir_ctx_parse_list [OF z(3) A room]
  note sem = parse_levels [OF z(2) [unfolded e] n]
  have cat: "src_z [[]] (src @ chunk) = src_z (p # ps) chunk"
    using z(1) e by (simp add: src_z_append)
  show ?thesis
  proof (cases "parse_l (vec_list ctx) (patch ctx) chunk")
    case None
    then show ?thesis using run sem z(4,5) e cat by simp
  next
    case (Some x)
    obtain ops pt where x: "x = (ops, pt)" by fastforce
    note l = Some [unfolded x]
    obtain ctx' where c: "ir_ctx_parse A ctx chunk = Some (0, ctx')" "ctx_ok ctx'"
        "vec_list ctx' = ops" "patch ctx' = pt"
      using run l by auto
    obtain sz' z' where s: "src_z (p # ps) chunk = Some sz'" "levels (length (src @ chunk)) sz' z'"
        "ops = zops z'" "pt = zpatch z'"
      using sem l z(4,5) e by auto
    have "vlength ctx' = length ops" "vlength ctx = length (vec_list ctx)"
      using length_vec_list [of ctx'] length_vec_list [of ctx] c(2,3) z(3) by (simp_all add: ctx_ok_def)
    then have "vlength ctx' \<le> length (src @ chunk)"
      using parse_l_grows [OF l] z(6) by simp
    moreover have "cost ops \<le> 19 * length (src @ chunk)"
      using parse_l_cost [OF l] n z(7) by simp
    moreover have "single_reads (src @ chunk) \<longrightarrow> (\<forall>x \<in> set ops. compiles_fully x)"
      using parse_l_full [OF l] z(8) single_reads_append by blast
    ultimately have "parsed (src @ chunk) ctx'"
      unfolding parsed_def using c s cat by auto
    then show ?thesis using c(1) cat s(1) by simp
  qed
qed

lemma src_z_prefix_None: "src_z z s = None \<Longrightarrow> src_z z (s @ t) = None"
  by (simp add: src_z_append)

lemma read_source_parsed:
  assumes "parsed src ctx" and "roomy A lim" and "length src + length content \<le> lim"
  shows "if src_z [[]] (src @ source_text content) = None then \<exists>ctx'. read_source A ctx content = Some (1, ctx')
    else \<exists>ctx'. read_source A ctx content = Some (0, ctx') \<and> parsed (src @ source_text content) ctx'"
  using assms(1,3)
proof (induction content arbitrary: src ctx rule: source_text.induct)
  case (1 content)
  let ?chunk = "c_string (take BUFLEN content)"
  have cl: "length ?chunk \<le> length (take BUFLEN content)"
    unfolding c_string_def by (rule length_takeWhile_le)
  have "length (src @ ?chunk) \<le> lim" using "1.prems"(2) cl by simp
  note step = parsed_step [OF "1.prems"(1) assms(2) this]
  show ?case
  proof (cases "content = []")
    case True
    then show ?thesis
      using step by (auto simp: read_source_Nil c_string_def split: if_splits)
  next
    case False
    have st: "source_text content = ?chunk @ source_text (drop BUFLEN content)"
      using False by (simp add: source_text.simps [of content])
    show ?thesis
    proof (cases "src_z [[]] (src @ ?chunk) = None")
      case True
      then have "src_z [[]] (src @ source_text content) = None"
        using src_z_prefix_None [of "[[]]" "src @ ?chunk"] by (simp add: st)
      moreover obtain ctx' where "ir_ctx_parse A ctx ?chunk = Some (1, ctx')" using step True by auto
      then have "read_source A ctx content = Some (1, ctx')" by (subst read_source.simps) simp
      ultimately show ?thesis by simp
    next
      case ok: False
      then obtain ctx' where c: "ir_ctx_parse A ctx ?chunk = Some (0, ctx')" "parsed (src @ ?chunk) ctx'"
        using step by auto
      have "length (take BUFLEN content) + length (drop BUFLEN content) = length content" by simp
      then have "length (src @ ?chunk) + length (drop BUFLEN content) \<le> lim"
        using "1.prems"(2) cl unfolding length_append by linarith
      note IH = "1.IH" [OF False c(2) this]
      have r: "read_source A ctx content = read_source A ctx' (drop BUFLEN content)"
        by (subst read_source.simps) (simp add: c(1) False)
      show ?thesis using IH unfolding r st append_assoc .
    qed
  qed
qed

lemma parsed_reserved:
  assumes "0 < memsz A" and "BUFLEN * memsz A < size_max"
  shows "parsed [] (snd (vec_reserve A ir_ctx_init BUFLEN))"
proof -
  obtain r w where g: "vec_grow A 1 ir_ctx_init BUFLEN = (r, w)" by fastforce
  have "vec_ok ir_ctx_init" by (simp add: ir_ctx_init_def vec_ok_def)
  then have w: "vec_ok w" "vec_list w = []" "vlength w = 0" "patch w = []"
    using vec_grow_ok [OF _ assms _ g] patch_more [of w ir_ctx_init] by (simp_all add: ir_ctx_init_def vec_list_def)
  have "vec_reserve A ir_ctx_init BUFLEN = (r, w)"
    using g by (simp add: vec_reserve_def ir_ctx_init_def BUFLEN_def)
  moreover have "src_z [[]] [] = Some [[]]" by simp
  ultimately show ?thesis
    using w level_nil unfolding parsed_def
    by (intro exI [of _ "[[]]"]) (simp add: ctx_ok_def)
qed

lemma roomy_BUFLEN: "roomy A lim \<Longrightarrow> BUFLEN \<le> lim \<Longrightarrow> 0 < memsz A \<and> BUFLEN * memsz A < size_max"
  using roomy_avail [of A lim BUFLEN] roomy_memsz [of A lim] by simp

text \<open>The read buffer comes from the same heap as the operations.\<close>

lemma roomy_buffer: "roomy A lim \<Longrightarrow> BUFLEN \<le> lim \<Longrightarrow> avail A (Suc BUFLEN)"
proof -
  assume A: "roomy A lim" "BUFLEN \<le> lim"
  have "2 * BUFLEN * 1 \<le> 2 * lim * memsz A" using A by (intro mult_le_mono) (auto simp: roomy_def)
  then show ?thesis using A by (simp add: roomy_def BUFLEN_def)
qed

text \<open>The whole reading phase.\<close>

lemma read_all:
  assumes A: "roomy A lim" and len: "BUFLEN \<le> lim" "length content \<le> lim"
  defines "run \<equiv> read_source A (snd (vec_reserve A ir_ctx_init BUFLEN)) content"
  shows "if src_z [[]] (source_text content) = None then \<exists>ctx. run = Some (1, ctx)
    else \<exists>ctx. run = Some (0, ctx) \<and> parsed (source_text content) ctx"
proof -
  have "parsed [] (snd (vec_reserve A ir_ctx_init BUFLEN))"
    using roomy_BUFLEN [OF A len(1)] by (intro parsed_reserved) simp_all
  from read_source_parsed [OF this A, where content = content] show ?thesis
    using len(2) unfolding run_def by (simp del: One_nat_def split: if_splits)
qed

lemma parsed_syntax:
  assumes "parsed src ctx" and "bf_syntax src p"
  obtains q where "vec_list ctx = flat q" and "patch ctx = []" and "agrees bf_step p ir_step q"
    and "all_prims (fits (length src)) q" and "ctx_ok ctx" and "vlength ctx \<le> length src"
    and "cost (flat q) \<le> 19 * length src" and "single_reads src \<Longrightarrow> all_prims compiles_fully q"
proof -
  have z: "src_z [[]] src = Some [p]"
    using src_z_syntax [OF assms(2), of "[]" "[]" "[]"] by simp
  then obtain q where q: "level (length src) p q" "ctx_ok ctx" "vec_list ctx = flat q" "patch ctx = []"
      "vlength ctx \<le> length src" "cost (flat q) \<le> 19 * length src"
      "single_reads src \<longrightarrow> (\<forall>x \<in> set (flat q). compiles_fully x)"
    using assms(1) unfolding parsed_def by (auto simp: list_all2_Cons1)
  show ?thesis
    using q by (intro that [of q]) (auto simp: level_def intro: all_prims_flat)
qed

lemma read_syntax:
  assumes "bf_syntax (source_text content) p" and "roomy A lim" and "BUFLEN \<le> lim" "length content \<le> lim"
  shows "\<exists>ctx. read_source A (snd (vec_reserve A ir_ctx_init BUFLEN)) content = Some (0, ctx)
    \<and> parsed (source_text content) ctx"
  using read_all [OF assms(2-4)] src_z_syntax [OF assms(1), of "[]" "[]" "[]"] by simp


end
