(* ===== verification/Executable.thy ===== *)
theory Executable
  imports Driver
begin

text \<open>
  The executable: the bytes of its two segments, the file \<open>write_elf_file\<close> makes of them, the
  process a loader starts from that file, and what this process does.
\<close>

section \<open>Tables of headers\<close>

definition holds_table :: "'v map_t \<Rightarrow> nat \<Rightarrow> (string \<Rightarrow> 'v option) \<Rightarrow> bool" where
  "holds_table m n f \<longleftrightarrow> table_ok m \<and> counted m \<and> nnodes (base m) = n \<and> map_get m = f"

lemma holds_table_init: "holds_table map_init 0 (\<lambda>_. None)"
  by (simp add: holds_table_def map_init_ok)

lemma holds_table_set:
  assumes h: "holds_table m n f" and k: "f k = None" and n: "n < 1000" "j = n + 1" and A: "\<And>n. map_avail A n"
  obtains m' where "map_set A m k v = (True, m')" "holds_table m' j (f(k \<mapsto> v))"
proof -
  have t: "table_ok m" "counted m" "table_room m" "map_get m = f" using h n(1) by (simp_all add: holds_table_def)
  obtain m' where s: "map_set A m k v = (True, m')"
    using map_set_avail [OF A, of m k v] by (cases "map_set A m k v") auto
  have "counted m' \<longleftrightarrow> True"
    using map_set_counts [OF t(1,3,2) s] k t(4) by (simp add: counted_def)
  moreover have "nnodes (base m') = n + 1"
    using map_set_ok [OF t(1,3) conjunct1 [OF map_set_base [OF s]]] h k
    by (simp add: holds_table_def map_get_table' [OF t(1)])
  ultimately have "holds_table m' j (f(k \<mapsto> v))"
    using mt.put [OF t(1,3) s] t(4) n(2) by (simp add: holds_table_def)
  with s show thesis by (rule that)
qed

lemma holds_table_modify:
  assumes h: "holds_table m n f" and k: "f k \<noteq> None"
  obtains m' where "map_modify m k v = Some m'" "holds_table m' n (f(k \<mapsto> v))"
proof -
  have t: "table_ok m" "map_get m k \<noteq> None" using h k by (simp_all add: holds_table_def)
  obtain m' where m': "map_modify m k v = Some m'" "table_ok m'" "map_get m' = (map_get m)(k \<mapsto> v)"
      "count m' = count m" "nnodes (base m') = nnodes (base m)"
    using map_modify_ok [OF t] by blast
  then have "holds_table m' n (f(k \<mapsto> v))" using h by (simp add: holds_table_def counted_def)
  with m'(1) show thesis by (rule that)
qed

lemma holds_table_keys:
  assumes "holds_table m n f"
  shows "distinct (map_keys (base m))" "set (map_keys (base m)) = {k. f k \<noteq> None}" "length (map_keys (base m)) = n"
  using assms mt.keys [of m] map_keys_length [of "base m"] by (auto simp: holds_table_def)

text \<open>A table of two names lists them in one order or the other.\<close>

lemma holds_table_two:
  assumes h: "holds_table m 2 f" and f: "{k. f k \<noteq> None} = {a, b}" "a \<noteq> b"
  shows "map_keys (base m) = [a, b] \<or> map_keys (base m) = [b, a]"
proof -
  note k = holds_table_keys [OF h, unfolded f(1)]
  obtain x y where xy: "map_keys (base m) = [x, y]" using k(3) by (auto simp: length_Suc_conv numeral_2_eq_2)
  then show ?thesis using k(2) f(2) by (auto simp: doubleton_eq_iff)
qed

section \<open>The context \<open>write_elf_file\<close> builds\<close>

definition text_header :: elf32_phdr where
  "text_header = phdr_zero\<lparr>p_type := PT_LOAD, p_vaddr := text_vaddr, p_flags := PF_R OR PF_X, p_align := ucast PAGE_SIZE\<rparr>"

definition bss_header :: "u32 \<Rightarrow> elf32_phdr" where
  "bss_header addr = phdr_zero\<lparr>p_type := PT_LOAD, p_vaddr := addr, p_flags := PF_R OR PF_W, p_align := ucast PAGE_SIZE\<rparr>"

definition text_program :: "u8 vec \<Rightarrow> program_t" where
  "text_program code = \<lparr>pvec = code, phdr = text_header\<rparr>"

definition bss_program :: "u32 \<Rightarrow> program_t" where
  "bss_program addr = \<lparr>pvec = vec_init\<lparr>vlength := 30000\<rparr>, phdr = bss_header addr\<rparr>"

definition elf_serves :: "elf_alloc \<Rightarrow> nat \<Rightarrow> bool" where
  "elf_serves A lim \<longleftrightarrow> roomy (byte_alloc A) lim \<and> (\<forall>n. map_avail (seg_alloc A) n) \<and> (\<forall>n. map_avail (sec_alloc A) n)"

definition program_ctx :: "elf_gen_ctx \<Rightarrow> u8 vec \<Rightarrow> u32 \<Rightarrow> bool" where
  "program_ctx ctx text bss_addr \<longleftrightarrow>
     elf_header ctx = (elf_header elf_gen_ctx_init)\<lparr>e_entry := text_vaddr\<rparr>
   \<and> holds_table (segments ctx) 2 [''.text'' \<mapsto> text_program text, ''.bss'' \<mapsto> bss_program bss_addr]
   \<and> (\<exists>f. holds_table (smap (sections ctx)) 2 f \<and> {k. f k \<noteq> None} = {''.text'', ''.bss''}
        \<and> (\<forall>s \<in> ran f. svec s = vec_init))"

lemma write_elf_file_ctx:
  assumes A: "elf_serves A lim" and w: "write_text Ai (byte_alloc A) ir = Some (text, bss_addr, ir')"
  shows "\<exists>ctx. write_elf_file Ai A ir fp = map_option (\<lambda>(fp, _). (fp, ir')) (gen_elf_file A ctx fp)
    \<and> program_ctx ctx text bss_addr"
proof -
  have av: "\<And>n. map_avail (seg_alloc A) n" "\<And>n. map_avail (sec_alloc A) n" using A by (simp_all add: elf_serves_def)
  obtain code where e: "emit_text Ai (byte_alloc A) vec_init text_vaddr ir = Some (code, ir')"
      and b: "bss_addr = bss_address text_vaddr code" and p: "vec_set_each code 1 (le32 bss_addr) = Some text"
    using w by (auto simp: write_text_def bind_eq_Some_conv Let_def)
  let ?S = "seg_alloc A" and ?C = "sec_alloc A"
  let ?sec1 = "\<lparr>svec = vec_init, shdr = shdr_zero\<lparr>sh_type := SHT_PROGBITS, sh_flags := SHF_ALLOC OR SHF_EXECINSTR,
      sh_addr := text_vaddr, sh_addralign := ucast PAGE_SIZE\<rparr>\<rparr>"
  let ?sec2 = "\<lparr>svec = vec_init, shdr = shdr_zero\<lparr>sh_type := SHT_NOBITS, sh_flags := SHF_ALLOC OR SHF_WRITE,
      sh_addr := bss_addr, sh_addralign := ucast PAGE_SIZE\<rparr>\<rparr>"
  obtain s1 where s1: "map_set ?S map_init ''.text'' (text_program vec_init) = (True, s1)"
      "holds_table s1 1 [''.text'' \<mapsto> text_program vec_init]"
    using holds_table_set [OF holds_table_init _ _ _ av(1), where k = "''.text''" and j = 1 and v = "text_program vec_init"] by auto
  obtain c1 where c1: "map_set ?C map_init ''.text'' ?sec1 = (True, c1)" "holds_table c1 1 [''.text'' \<mapsto> ?sec1]"
    using holds_table_set [OF holds_table_init _ _ _ av(2), where k = "''.text''" and j = 1 and v = ?sec1] by auto
  obtain s2 where s2: "map_modify s1 ''.text'' (text_program code) = Some s2" "holds_table s2 1 [''.text'' \<mapsto> text_program code]"
    using holds_table_modify [OF s1(2), of "''.text''" "text_program code"] by auto
  let ?bss0 = "\<lparr>pvec = vec_init, phdr = bss_header bss_addr\<rparr>"
  obtain s3 where s3: "map_set ?S s2 ''.bss'' ?bss0 = (True, s3)"
      "holds_table s3 2 [''.text'' \<mapsto> text_program code, ''.bss'' \<mapsto> ?bss0]"
    using holds_table_set [OF s2(2) _ _ _ av(1), where k = "''.bss''" and j = 2 and v = ?bss0] by auto
  obtain s4 where s4: "map_modify s3 ''.bss'' (bss_program bss_addr) = Some s4"
      "holds_table s4 2 [''.text'' \<mapsto> text_program code, ''.bss'' \<mapsto> bss_program bss_addr]"
    using holds_table_modify [OF s3(2), of "''.bss''" "bss_program bss_addr"] by auto
  obtain c2 where c2: "map_set ?C c1 ''.bss'' ?sec2 = (True, c2)" "holds_table c2 2 [''.text'' \<mapsto> ?sec1, ''.bss'' \<mapsto> ?sec2]"
    using holds_table_set [OF c1(2) _ _ _ av(2), where k = "''.bss''" and j = 2 and v = ?sec2] by auto
  obtain s5 where s5: "map_modify s4 ''.text'' (text_program text) = Some s5"
      "holds_table s5 2 [''.text'' \<mapsto> text_program text, ''.bss'' \<mapsto> bss_program bss_addr]"
    using holds_table_modify [OF s4(2), of "''.text''" "text_program text"] by (auto simp: fun_upd_twist)
  let ?i = elf_gen_ctx_init and ?h = "(elf_header elf_gen_ctx_init)\<lparr>e_entry := text_vaddr\<rparr>"
  let ?t = "\<lambda>c. (sections elf_gen_ctx_init)\<lparr>smap := c\<rparr>"
  have g: "gen_program_header A ?i ''.text'' (phdr_zero\<lparr>p_type := PT_LOAD, p_vaddr := text_vaddr, p_flags := PF_R OR PF_X\<rparr>)
      = (?i\<lparr>segments := s1\<rparr>, Some (text_program vec_init))"
    using s1 by (simp add: gen_program_header_def text_program_def text_header_def elf_gen_ctx_init_def holds_table_def)
  have g1: "gen_section_header A (?i\<lparr>segments := s1\<rparr>) ''.text'' (shdr_zero\<lparr>sh_type := SHT_PROGBITS,
        sh_flags := SHF_ALLOC OR SHF_EXECINSTR, sh_addr := text_vaddr\<rparr>)
      = (?i\<lparr>segments := s1, sections := ?t c1\<rparr>, Some ?sec1)"
    using c1 by (simp add: gen_section_header_def elf_gen_ctx_init_def holds_table_def)
  have g2: "gen_program_header A (?i\<lparr>sections := ?t c1, elf_header := ?h, segments := s2\<rparr>) ''.bss''
        (phdr_zero\<lparr>p_type := PT_LOAD, p_vaddr := bss_addr, p_flags := PF_R OR PF_W\<rparr>)
      = (?i\<lparr>sections := ?t c1, elf_header := ?h, segments := s3\<rparr>, Some ?bss0)"
    using s3 by (simp add: gen_program_header_def bss_header_def elf_gen_ctx_init_def holds_table_def)
  have g3: "gen_section_header A (?i\<lparr>sections := ?t c1, elf_header := ?h, segments := s4\<rparr>) ''.bss''
        (shdr_zero\<lparr>sh_type := SHT_NOBITS, sh_flags := SHF_ALLOC OR SHF_WRITE, sh_addr := bss_addr\<rparr>)
      = (?i\<lparr>elf_header := ?h, segments := s4, sections := ?t c2\<rparr>, Some ?sec2)"
    using c2 by (simp add: gen_section_header_def elf_gen_ctx_init_def holds_table_def)
  let ?ctx = "?i\<lparr>elf_header := ?h, sections := ?t c2, segments := s5\<rparr>"
  have tp: "pvec (text_program v) = v" "p_vaddr (phdr (text_program v)) = text_vaddr"
      "(text_program v)\<lparr>pvec := u\<rparr> = text_program u" for u v
    by (simp_all add: text_program_def text_header_def)
  have bp: "p_vaddr (bss_header bss_addr) = bss_addr"
      "\<lparr>pvec = vec_init\<lparr>vlength := 30000\<rparr>, phdr = bss_header bss_addr\<rparr> = bss_program bss_addr"
    by (simp_all add: bss_header_def bss_program_def)
  have "write_elf_file Ai A ir fp = map_option (\<lambda>(fp, _). (fp, ir')) (gen_elf_file A ?ctx fp)"
    unfolding write_elf_file_def
    by (simp add: g g1 g2 g3 tp bp e s2(1) s4(1) s5(1) p b [symmetric] del: One_nat_def)
      (simp add: map_option_case split: option.split)
  moreover have "program_ctx ?ctx text bss_addr"
    unfolding program_ctx_def using s5(2) c2(2)
    by (auto simp: ran_def split: if_splits intro!: exI [of _ "[''.text'' \<mapsto> ?sec1, ''.bss'' \<mapsto> ?sec2]"])
  ultimately show ?thesis by blast
qed

lemma program_ctx_ready:
  assumes c: "program_ctx ctx text bss_addr" and A: "elf_serves A lim" "100 \<le> lim" "lim < 2 ^ 32"
    and tx: "vec_ok text" "vlength text < 2 ^ 31"
  shows "elf_ready A lim ctx" and "map_values (segments ctx) = [text_program text, bss_program bss_addr]
    \<or> map_values (segments ctx) = [bss_program bss_addr, text_program text]"
    and "set (map_keys (base (smap (sections ctx)))) = {''.text'', ''.bss''}"
proof -
  let ?t = "text_program text" and ?b = "bss_program bss_addr"
  have h: "elf_header ctx = (elf_header elf_gen_ctx_init)\<lparr>e_entry := text_vaddr\<rparr>"
      and S: "holds_table (segments ctx) 2 [''.text'' \<mapsto> ?t, ''.bss'' \<mapsto> ?b]"
    using c by (simp_all add: program_ctx_def)
  obtain f where C: "holds_table (smap (sections ctx)) 2 f" "{k. f k \<noteq> None} = {''.text'', ''.bss''}"
      "\<forall>s \<in> ran f. svec s = vec_init"
    using c by (auto simp: program_ctx_def)
  have g: "map_get (segments ctx) = [''.text'' \<mapsto> ?t, ''.bss'' \<mapsto> ?b]" "map_get (smap (sections ctx)) = f"
    using S C(1) by (simp_all add: holds_table_def)
  have "{k. [''.text'' \<mapsto> ?t, ''.bss'' \<mapsto> ?b] k \<noteq> None} = {''.text'', ''.bss''}" by auto
  note ks = holds_table_two [OF S this, simplified] and kc = holds_table_two [OF C(1,2), simplified]
  show mv: "map_values (segments ctx) = [?t, ?b] \<or> map_values (segments ctx) = [?b, ?t]" using ks g(1) by auto
  show "set (map_keys (base (smap (sections ctx)))) = {''.text'', ''.bss''}" using holds_table_keys(2) [OF C(1)] C(2) by simp
  have st: "sound (pvec ?t) \<and> vlength (pvec ?t) < 2 ^ 32 \<and> (\<not> has_data (pvec ?t) \<longrightarrow> p_filesz (phdr ?t) = 0)"
    using tx by (simp add: text_program_def sound_def text_header_def phdr_zero_def)
  have sb: "sound (pvec ?b) \<and> vlength (pvec ?b) < 2 ^ 32 \<and> (\<not> has_data (pvec ?b) \<longrightarrow> p_filesz (phdr ?b) = 0)"
    by (simp add: bss_program_def sound_def bss_header_def phdr_zero_def vec_init_def)
  have segs: "\<forall>p \<in> set (map_values (segments ctx)). sound (pvec p) \<and> vlength (pvec p) < 2 ^ 32
        \<and> (\<not> has_data (pvec p) \<longrightarrow> p_filesz (phdr p) = 0)"
  proof
    fix p assume "p \<in> set (map_values (segments ctx))"
    then have "p = ?t \<or> p = ?b" using mv by (elim disjE) (simp_all only: list.set insert_iff empty_iff, blast+)
    then show "sound (pvec p) \<and> vlength (pvec p) < 2 ^ 32 \<and> (\<not> has_data (pvec p) \<longrightarrow> p_filesz (phdr p) = 0)"
      using st sb by (elim disjE) (erule ssubst, assumption)+
  qed
  have "seg_need [?t, ?b] \<le> vlength text + 4096" "seg_need [?b, ?t] \<le> vlength text + 4096"
    by (simp_all add: seg_need_def has_data_def text_program_def bss_program_def vec_init_def)
  then have need: "4096 + seg_need (map_values (segments ctx)) < 2 ^ 32"
    using mv tx(2) by (elim disjE) (simp_all only:, simp_all)
  have bare: "\<forall>s \<in> set (map_values (smap (sections ctx))). vec_ok (svec s) \<and> bare s"
  proof
    fix s assume "s \<in> set (map_values (smap (sections ctx)))"
    then obtain k where "k \<in> {k. f k \<noteq> None}" "s = the (f k)"
      using holds_table_keys(2) [OF C(1)] g(2) by auto
    then have "s \<in> ran f" by (auto simp: ran_def)
    then have "svec s = vec_init" using C(3) by blast
    then show "vec_ok (svec s) \<and> bare s" by simp (simp add: vec_init_def)
  qed
  have names: "11 + names_size (map_keys (base (smap (sections ctx)))) \<le> lim"
    using kc A(2) by (auto simp: names_size_def)
  have "shstrtab_name \<notin> {k. f k \<noteq> None}" unfolding C(2) by (simp add: shstrtab_name_def)
  then have fresh: "map_get (smap (sections ctx)) shstrtab_name = None" using g(2) by simp
  have n: "nnodes (base (segments ctx)) = 2" "nnodes (base (smap (sections ctx))) = 2"
      and t: "table_ok (segments ctx)" "counted (segments ctx)" "table_ok (smap (sections ctx))" "counted (smap (sections ctx))"
    using S C(1) by (simp_all add: holds_table_def)
  have page: "EHDR_SIZE + PHDR_SIZE * nnodes (base (segments ctx))
        + SHDR_SIZE * (nnodes (base (smap (sections ctx))) + 2) \<le> 4096"
    unfolding n by (simp add: EHDR_SIZE_def PHDR_SIZE_def SHDR_SIZE_def)
  have al: "\<forall>n. map_avail (sec_alloc A) n" "roomy (byte_alloc A) lim" using A(1) by (simp_all add: elf_serves_def)
  have hd: "\<exists>e. elf_header ctx = (elf_header elf_gen_ctx_init)\<lparr>e_entry := e\<rparr>" using h by blast
  show "elf_ready A lim ctx"
    unfolding elf_ready_def by (intro conjI hd t fresh al segs bare page need names A(3))
qed

text \<open>The two segments as a loader sees them.\<close>

definition text_seg :: "u8 vec \<Rightarrow> elf_seg" where
  "text_seg text = \<lparr>seg_type = 1, seg_vaddr = unat text_vaddr, seg_flags = 5, seg_bytes = vec_list text,
     seg_memsz = vlength text\<rparr>"

definition bss_seg :: "u32 \<Rightarrow> elf_seg" where
  "bss_seg addr = \<lparr>seg_type = 1, seg_vaddr = unat addr, seg_flags = 6, seg_bytes = [], seg_memsz = 30000\<rparr>"

lemma seg_of_program:
  assumes "vec_ok text" and "vlength text \<noteq> 0"
  shows "seg_of (text_program text) = text_seg text" "seg_of (bss_program addr) = bss_seg addr"
proof -
  have "has_data text" using assms by (simp add: has_data_def vec_ok_def)
  then show "seg_of (text_program text) = text_seg text"
    using assms(2) by (simp add: seg_of_def text_program_def text_header_def text_seg_def phdr_zero_def PT_LOAD_def
        PF_R_def PF_X_def)
  show "seg_of (bss_program addr) = bss_seg addr"
    by (simp add: seg_of_def bss_program_def bss_header_def bss_seg_def phdr_zero_def PT_LOAD_def
        PF_R_def PF_W_def has_data_def vec_init_def)
qed

lemma write_elf_file_loads:
  assumes A: "elf_serves A lim" "100 \<le> lim" "lim < 2 ^ 32"
    and w: "write_text Ai (byte_alloc A) ir = Some (text, bss_addr, ir')"
    and tx: "vec_ok text" "vlength text \<noteq> 0" "vlength text < 2 ^ 31"
  shows "\<exists>fp segs. write_elf_file Ai A ir empty_file = Some (fp, ir') \<and> elf_load (fbytes fp) = Some (unat text_vaddr, segs)
    \<and> (segs = [text_seg text, bss_seg bss_addr] \<or> segs = [bss_seg bss_addr, text_seg text])
    \<and> set (elf_section_names (fbytes fp)) = {[], ''.text'', ''.bss'', ''.shstrtab''}"
proof -
  obtain ctx where c: "write_elf_file Ai A ir empty_file = map_option (\<lambda>(fp, _). (fp, ir')) (gen_elf_file A ctx empty_file)"
      "program_ctx ctx text bss_addr"
    using write_elf_file_ctx [OF A(1) w] by blast
  note r = program_ctx_ready [OF c(2) A tx(1,3)]
  have e: "e_entry (elf_header ctx) = text_vaddr" using c(2) by (simp add: program_ctx_def)
  have nul: "\<forall>k \<in> set (map_keys (base (smap (sections ctx)))). CHR 0x00 \<notin> set k" unfolding r(3) by simp
  obtain fp ctx' ks where f: "gen_elf_file A ctx empty_file = Some (fp, ctx')"
      "elf_load (fbytes fp) = Some (unat text_vaddr, map seg_of (map_values (segments ctx)))"
      "elf_section_names (fbytes fp) = [] # ks" "set ks = insert shstrtab_name {''.text'', ''.bss''}"
    using segments_read_back_aux [OF r(1)] nul unfolding e r(3) by blast
  have "write_elf_file Ai A ir empty_file = Some (fp, ir')" using c(1) f(1) by simp
  moreover have "map seg_of (map_values (segments ctx)) = [text_seg text, bss_seg bss_addr]
      \<or> map seg_of (map_values (segments ctx)) = [bss_seg bss_addr, text_seg text]"
    using r(2) seg_of_program [OF tx(1,2)] by (elim disjE) (simp_all only: list.map simp_thms)
  moreover have "set (elf_section_names (fbytes fp)) = {[], ''.text'', ''.bss'', ''.shstrtab''}"
    unfolding f(3) list.set f(4) by (auto simp: shstrtab_name_def)
  ultimately show ?thesis
    by (intro exI [of _ fp] exI [of _ "map seg_of (map_values (segments ctx))"] conjI f(2))
qed

section \<open>The process started from a file\<close>

text \<open>The process the executable describes: text and data segment, any register contents.\<close>

definition loaded_image :: "u8 vec \<Rightarrow> u32 \<Rightarrow> image" where
  "loaded_image text bss_addr = \<lparr>text_base = text_vaddr, text_bytes = vec_list text, bss_base = bss_addr\<rparr>"

definition started :: "(nat \<Rightarrow> u32) \<Rightarrow> u8 list \<Rightarrow> cpu" where
  "started g input = \<lparr>eip = text_vaddr, regs = g, zf = False, bss = replicate 30000 0, stack = [],
     sin = input, sout = []\<rparr>"

text \<open>
  A loader: a file with one segment to be read and executed, wholly present, and one to be read
  and written, filled up with zeros; execution starts at the entry point.
\<close>

definition process :: "u8 list \<Rightarrow> (nat \<Rightarrow> u32) \<Rightarrow> u8 list \<Rightarrow> (image \<times> cpu) option" where
  "process file g input =
     (case elf_load file of
        None \<Rightarrow> None
      | Some (start, segs) \<Rightarrow>
          (case (filter (\<lambda>s. seg_type s = 1 \<and> seg_flags s = 5) segs, filter (\<lambda>s. seg_type s = 1 \<and> seg_flags s = 6) segs) of
             ([t], [d]) \<Rightarrow>
               if seg_memsz t = length (seg_bytes t) then
                 Some (\<lparr>text_base = of_nat (seg_vaddr t), text_bytes = seg_bytes t, bss_base = of_nat (seg_vaddr d)\<rparr>,
                       \<lparr>eip = of_nat start, regs = g, zf = False,
                        bss = seg_bytes d @ replicate (seg_memsz d - length (seg_bytes d)) 0, stack = [],
                        sin = input, sout = []\<rparr>)
               else None
           | _ \<Rightarrow> None))"

lemma process_of_segments:
  assumes "elf_load file = Some (unat text_vaddr, segs)" and "vec_ok text"
    and "segs = [text_seg text, bss_seg bss_addr] \<or> segs = [bss_seg bss_addr, text_seg text]"
  shows "process file g input = Some (loaded_image text bss_addr, started g input)"
proof -
  let ?t = "text_seg text" and ?d = "bss_seg bss_addr"
  have t: "seg_type ?t = 1" "seg_flags ?t = 5" "seg_memsz ?t = length (seg_bytes ?t)" "of_nat (seg_vaddr ?t) = text_vaddr"
      "seg_bytes ?t = vec_list text"
    using length_vec_list [OF assms(2)] by (simp_all add: text_seg_def)
  have d: "seg_type ?d = 1" "seg_flags ?d = 6" "seg_memsz ?d = 30000" "of_nat (seg_vaddr ?d) = bss_addr" "seg_bytes ?d = []"
    by (simp_all add: bss_seg_def)
  have ft: "filter (\<lambda>s. seg_type s = 1 \<and> seg_flags s = 5) segs = [?t]"
    using assms(3) by (elim disjE) (simp_all add: t(1,2) d(1,2))
  have fd: "filter (\<lambda>s. seg_type s = 1 \<and> seg_flags s = 6) segs = [?d]"
    using assms(3) by (elim disjE) (simp_all add: t(1,2) d(1,2))
  have e: "of_nat (unat text_vaddr) = text_vaddr" by simp
  have "replicate (30000 - length ([] :: u8 list)) (0 :: u8) = replicate 30000 0" by (simp only: list.size diff_zero)
  then show ?thesis
    unfolding process_def assms(1) option.case prod.case ft fd list.case t(3-5) d(3-5) if_P [OF refl] e
      loaded_image_def started_def append_Nil by (simp only:)
qed

end
