(* ===== verification/Whole_Run.thy ===== *)
theory Whole_Run
  imports Executable
begin

text \<open>
  Whole runs of the driver after the options: interpreting a source, compiling it and running
  the process started from the file written, rejecting it.
\<close>

section \<open>Interpreting\<close>

lemma zeroed_tape_ok:
  assumes "roomy A lim" and "30000 \<le> lim"
  shows "tape_ok (zeroed_tape A)" and "vdata (zeroed_tape A) = replicate 30000 0"
proof -
  have A: "0 < memsz A" "30000 * memsz A < size_max" "avail A (30000 * memsz A)"
    using roomy_avail [OF assms(1), of 30000] roomy_memsz [OF assms(1)] assms(2) by simp_all
  have init: "vec_ok (vec_init :: u8 vec)" by simp
  obtain r w where g: "vec_grow A 1 vec_init 30000 = (r, w)" by fastforce
  have "vec_reserve A vec_init 30000 = (r, w)" using g by (simp add: vec_reserve_def vec_init_def)
  moreover have "vcapacity w = 30000"
    using vec_grow_ok [OF init A(1,2) _ g] A(3) by (simp add: vec_init_def split: if_splits)
  ultimately have "zeroed_tape A = w\<lparr>vdata := replicate 30000 0\<rparr>" "vcapacity w = 30000"
    by (simp_all add: zeroed_tape_def Let_def)
  then show "tape_ok (zeroed_tape A)" "vdata (zeroed_tape A) = replicate 30000 0"
    by (simp_all add: tape_ok_def)
qed

abbreviation start_state :: "u8 list \<Rightarrow> bf_state" where
  "start_state \<equiv> fresh_state (replicate 30000 0)"

lemma main_interprets:
  assumes src: "bf_syntax (source_text content) p" and Ai: "roomy Ai ilim" "BUFLEN \<le> ilim" "length content < ilim"
    and A: "roomy (byte_alloc A) lim" "30000 \<le> lim"
  shows "eval bf_step f p (start_state input) = Done t \<Longrightarrow>
      \<exists>n r. (\<forall>k. main_run Ai A (n + k) False None (Some content) input = Done (Interpreted r))
        \<and> stdout r = out t \<and> stdin r = inp t \<and> vdata (ictx r) = cells t \<and> sp r = of_nat (ptr t)"
    and "eval bf_step f p (start_state input) = Timeout \<Longrightarrow>
      \<forall>n \<le> f. main_run Ai A n False None (Some content) input = Timeout"
proof -
  obtain ctx where c: "read_source Ai (snd (vec_reserve Ai ir_ctx_init BUFLEN)) content = Some (0, ctx)"
      "parsed (source_text content) ctx"
    using read_syntax [OF src Ai(1,2)] Ai(3) by auto
  obtain q where q: "vec_list ctx = flat q" "agrees bf_step p ir_step q" "ctx_ok ctx"
      "vlength ctx \<le> length (source_text content)"
    using parsed_syntax [OF c(2) src] by blast
  have len: "vlength ctx < ilim"
    using q(4) source_text_length [of content] Ai(3) by linarith
  note tape = zeroed_tape_ok [OF A]
  have run: "main_run Ai A n False None (Some content) input
      = then_do (ir_interpret Ai n ctx (zeroed_tape (byte_alloc A)) input) (\<lambda>r. Done (Interpreted r))" for n
    by (simp add: main_run_def c(1) roomy_buffer [OF Ai(1,2)])
  have s: "on_tape (start_state input)" by (simp add: fresh_state_def on_tape_def)
  have e: "eval bf_step f p (start_state input) \<noteq> Crash \<Longrightarrow>
      eval ir_step f q (start_state input) = eval bf_step f p (start_state input)"
    using q(2) s by (simp add: agrees_def)
  note flat = interpret_flat [OF q(3,1) Ai(1) len tape(1), of f input, unfolded tape(2)]
  show "\<exists>n r. (\<forall>k. main_run Ai A (n + k) False None (Some content) input = Done (Interpreted r))
        \<and> stdout r = out t \<and> stdin r = inp t \<and> vdata (ictx r) = cells t \<and> sp r = of_nat (ptr t)"
    if d: "eval bf_step f p (start_state input) = Done t"
  proof -
    have "eval ir_step f q (start_state input) = Done t" using e d by simp
    from flat(1) [OF this] obtain n r where r: "\<forall>k. ir_interpret Ai (n + k) ctx (zeroed_tape (byte_alloc A)) input = Done r
        \<and> stdout r = out t \<and> stdin r = inp t \<and> vdata (ictx r) = cells t \<and> sp r = of_nat (ptr t)"
      by blast
    then have "\<forall>k. main_run Ai A (n + k) False None (Some content) input = Done (Interpreted r)"
      unfolding run by simp
    then show ?thesis using r by blast
  qed
  show "\<forall>n \<le> f. main_run Ai A n False None (Some content) input = Timeout"
    if d: "eval bf_step f p (start_state input) = Timeout"
  proof (intro allI impI)
    fix n assume n: "n \<le> f"
    obtain m where m: "f \<le> m" "ir_interpret Ai m ctx (zeroed_tape (byte_alloc A)) input = Timeout"
      using flat(2) e d by auto
    have "ir_interpret Ai n ctx (zeroed_tape (byte_alloc A)) input = Timeout"
      using ir_interpret_mono [of Ai n ctx "zeroed_tape (byte_alloc A)" input "m - n"] m n
      by (cases "ir_interpret Ai n ctx (zeroed_tape (byte_alloc A)) input") auto
    then show "main_run Ai A n False None (Some content) input = Timeout" by (simp add: run)
  qed
qed

section \<open>Compiling\<close>

text \<open>The segment written: prologue, program, and the address of the data behind it.\<close>

lemma write_text_flat:
  assumes ir: "vec_ok ir" "vec_list ir = flat q" and Ai: "roomy Ai ilim" "vlength ir < ilim"
    and A: "roomy A lim" "vlength ir < lim" "5 + length (program_bytes q) \<le> lim"
    and q: "all_prims plain_op q" "length (code_bytes q) < 2 ^ 31 - 9"
  shows "\<exists>text bss_addr ir'. write_text Ai A ir = Some (text, bss_addr, ir') \<and> vec_ok text
    \<and> vec_list text = 0xBF # le32 bss_addr @ program_bytes q
    \<and> unat text_vaddr + vlength text \<le> unat bss_addr \<and> unat bss_addr < unat text_vaddr + vlength text + 4096
    \<and> unat bss_addr mod 4096 = 0"
proof -
  have v0: "vec_ok (vec_init :: u8 vec)" "vec_list (vec_init :: u8 vec) = []" "vlength (vec_init :: u8 vec) = 0"
    by (simp_all add: vec_init_def)  (simp_all add: vec_ok_def vec_list_def)
  obtain c0 where c0: "ctx_push_code A vec_init [0xb8 + SP_REG] = Some c0" "vec_ok c0" "vec_list c0 = [0xBF]"
    using vec_pusharr_roomy [OF v0(1) A(1), of "[0xBF]"] v0(2,3) A(3) by (auto simp: ctx_push_code_def reg_simps)
  have l0: "vlength c0 = 1" using length_vec_list [OF c0(2)] c0(3) by simp
  obtain c1 where c1: "push_as_bytes A c0 text_vaddr = Some c1" "vec_ok c1"
      "vec_list c1 = 0xBF # le32 text_vaddr"
    using vec_pusharr_roomy [OF c0(2) A(1), of "le32 text_vaddr"] c0(3) l0 A(3)
    by (auto simp: push_as_bytes_def)
  have l1: "vlength c1 = 5" using length_vec_list [OF c1(2)] c1(3) by simp
  obtain c2 ir' where c2: "ir_ctx_compile Ai A c1 ir = Some (True, c2, ir')" "vec_ok c2"
      "vec_list c2 = vec_list c1 @ program_bytes q"
    using ir_ctx_compile_flat [OF ir Ai A(1,2) c1(2) _ q] A(3) l1 by auto
  have l2: "vlength c2 = 5 + length (program_bytes q)"
    using length_vec_list [OF c2(2)] c2(3) c1(3) by simp
  have small: "vlength c2 < 2 ^ 31 + 10"
    using q(2) unfolding l2 by (simp add: program_bytes_def exit_bytes_def)
  define val where "val = (ucast text_vaddr + of_nat (vlength c2) :: u64)"
  define bss_addr where "bss_addr = (ucast (align_to val 0x1000) :: u32)"
  have "val = of_nat (134512640 + vlength c2)" by (simp add: val_def text_vaddr_def)
  then have uv: "unat val = 134512640 + vlength c2"
    using small by (simp only:) (rule unat_of_nat_small, simp)
  have tv: "unat text_vaddr = 134512640" by (simp add: text_vaddr_def)
  have "unat val + 4095 < 2 ^ 64" using small uv by simp
  note al = align_to_spec [OF this]
  have "unat (align_to val 0x1000) < 2 ^ 32" using al(3) small uv by simp
  then have ub: "unat bss_addr = unat (align_to val 0x1000)"
    by (simp add: bss_addr_def unsigned_ucast_eq take_bit_nat_eq_self)
  have "1 + length (le32 bss_addr) \<le> vlength c2" using l2 by simp
  then obtain c3 where c3: "vec_set_each c2 1 (le32 bss_addr) = Some c3" "vec_ok c3" "vlength c3 = vlength c2"
      "vec_list c3 = take 1 (vec_list c2) @ le32 bss_addr @ drop (1 + length (le32 bss_addr)) (vec_list c2)"
    using vec_set_each_ok [OF c2(2), of 1 "le32 bss_addr"] by auto
  have "write_text Ai A ir = Some (c3, bss_addr, ir')"
    using c0(1) c1(1) c2(1) c3(1) unfolding write_text_def emit_text_def bss_address_def bss_addr_def val_def by simp
  moreover have "vec_list c3 = 0xBF # le32 bss_addr @ program_bytes q"
    using c3(4) c2(3) c1(3) by (simp add: le32_def)
  ultimately show ?thesis using c3(2,3) ub al tv uv by auto
qed

text \<open>A process started on it.\<close>

lemma process_start:
  assumes seg: "vec_list text = 0xBF # le32 bss_addr @ program_bytes q" and len: "length (vec_list text) < 2 ^ 31"
  shows "\<exists>m. reaches (loaded_image text bss_addr) 1 (started g input) m
    \<and> x86_at (loaded_image text bss_addr) 5 (start_state input) m"
    and "code_at (loaded_image text bss_addr) 5 (program_bytes q)"
proof -
  let ?im = "loaded_image text bss_addr" and ?m = "started g input"
  let ?m' = "?m\<lparr>eip := text_base ?im + of_nat (0 + 5), regs := g(7 := bss_addr)\<rparr>"
  have d: "decode (drop 0 (text_bytes ?im)) = Some (MovRegImm 7 bss_addr, 5)"
    by (simp add: loaded_image_def seg decode.simps imm32_le32)
  have "exec_instr ?im (MovRegImm 7 bss_addr) (?m\<lparr>eip := text_base ?im + of_nat (0 + 5)\<rparr>) = Some (Inr ?m')"
    by (simp add: started_def)
  then have "reaches ?im 1 ?m ?m'"
    by (intro reaches_step [OF _ _ d]) (simp_all add: started_def loaded_image_def)
  moreover have "x86_at ?im 5 (start_state input) ?m'"
    by (simp add: x86_at_def started_def loaded_image_def fresh_state_def on_tape_def)
  ultimately show "\<exists>m. reaches ?im 1 ?m m \<and> x86_at ?im 5 (start_state input) m" by blast
  show "code_at ?im 5 (program_bytes q)"
    using code_atI [of ?im "0xBF # le32 bss_addr" "program_bytes q" "[]"] len
    by (simp add: loaded_image_def seg)
qed

lemma process_runs:
  assumes seg: "vec_list text = 0xBF # le32 bss_addr @ program_bytes q" and len: "length (vec_list text) < 2 ^ 31"
    and ag: "agrees bf_step p code_step q"
  shows "eval bf_step f p (start_state input) = Done t \<Longrightarrow>
      \<exists>n m. (\<forall>k. x86_run (loaded_image text bss_addr) (n + k) (started g input) = Done m)
        \<and> sout m = out t \<and> sin m = inp t \<and> bss m = cells t \<and> regs m 3 = 0"
    and "eval bf_step f p (start_state input) = Timeout \<Longrightarrow>
      \<forall>n \<le> f. x86_run (loaded_image text bss_addr) n (started g input) = Timeout"
proof -
  let ?im = "loaded_image text bss_addr" and ?m = "started g input"
  obtain m where m: "reaches ?im 1 ?m m" "x86_at ?im 5 (start_state input) m"
    using process_start(1) [OF seg len] by blast
  note run = x86_run_program [OF m(2) process_start(2) [OF seg len], of f]
  have s: "on_tape (start_state input)" by (simp add: fresh_state_def on_tape_def)
  have e: "eval bf_step f p (start_state input) \<noteq> Crash \<Longrightarrow>
      eval code_step f q (start_state input) = eval bf_step f p (start_state input)"
    using ag s by (simp add: agrees_def)
  have go: "x86_run ?im (1 + n) ?m = x86_run ?im n m" for n
    using m(1) by (simp add: reaches_def)
  show "\<exists>n m. (\<forall>k. x86_run ?im (n + k) ?m = Done m)
        \<and> sout m = out t \<and> sin m = inp t \<and> bss m = cells t \<and> regs m 3 = 0"
    if d: "eval bf_step f p (start_state input) = Done t"
  proof -
    have "eval code_step f q (start_state input) = Done t" using e d by simp
    from run(1) [OF this] obtain n m' where r: "\<forall>k. x86_run ?im (n + k) m = Done m'" "sout m' = out t"
        "sin m' = inp t" "bss m' = cells t" "regs m' 3 = 0" by blast
    have "x86_run ?im ((1 + n) + k) ?m = Done m'" for k
      using go [of "n + k"] r(1) by (simp add: add.assoc)
    then show ?thesis using r by blast
  qed
  show "\<forall>n \<le> f. x86_run ?im n ?m = Timeout" if d: "eval bf_step f p (start_state input) = Timeout"
  proof (intro allI impI)
    fix n assume n: "n \<le> f"
    have "eval code_step f q (start_state input) = Timeout" using e d by simp
    from run(2) [OF this] obtain k where k: "f \<le> k" "x86_run ?im (1 + k) ?m = Timeout"
      using go by auto
    then show "x86_run ?im n ?m = Timeout"
      using x86_run_mono [of ?im n ?m "1 + k - n"] n by (cases "x86_run ?im n ?m") auto
  qed
qed

lemma main_compiles:
  assumes src: "bf_syntax (source_text content) p" "single_reads (source_text content)"
    and Ai: "roomy Ai ilim" "BUFLEN \<le> ilim" "length content < ilim"
    and A: "elf_serves A lim" "19 * length content + 100 \<le> lim" "lim < 2 ^ 32" and small: "length content \<le> 10 ^ 8"
  shows "\<exists>file text bss_addr q.
      (\<forall>n mode input. main_run Ai A n False (Some (Some mode)) (Some content) input = Done (Wrote_elf file (make_exe mode)))
    \<and> (\<forall>g input. process file g input = Some (loaded_image text bss_addr, started g input))
    \<and> vec_list text = 0xBF # le32 bss_addr @ program_bytes q
    \<and> length (vec_list text) \<le> 19 * length content + 19
    \<and> unat text_vaddr + length (vec_list text) \<le> unat bss_addr \<and> unat bss_addr mod 4096 = 0
    \<and> unat bss_addr < unat text_vaddr + length (vec_list text) + 4096
    \<and> agrees bf_step p code_step q
    \<and> set (elf_section_names file) = {[], ''.text'', ''.bss'', ''.shstrtab''}"
proof -
  obtain ctx where c: "read_source Ai (snd (vec_reserve Ai ir_ctx_init BUFLEN)) content = Some (0, ctx)"
      "parsed (source_text content) ctx"
    using read_syntax [OF src(1) Ai(1,2)] Ai(3) by auto
  obtain q where q: "vec_list ctx = flat q" "agrees bf_step p ir_step q" "ctx_ok ctx"
      "all_prims (fits (length (source_text content))) q"
      "vlength ctx \<le> length (source_text content)" "cost (flat q) \<le> 19 * length (source_text content)"
      "all_prims compiles_fully q"
    using parsed_syntax [OF c(2) src(1)] src(2) by metis
  note st = source_text_length [of content]
  have v: "vec_ok ctx" using q(3) by (simp add: ctx_ok_def)
  have code: "length (code_bytes q) \<le> 19 * length content"
    using length_code_bytes [of q] q(6) st by linarith
  have pl: "length (program_bytes q) = length (code_bytes q) + 14"
    by (simp add: program_bytes_def exit_bytes_def)
  have plain: "all_prims plain_op q"
    using st small by (intro all_prims_mono [OF q(4)] fits_plain [of "length (source_text content)"]) simp_all
  have ba: "roomy (byte_alloc A) lim" using A(1) by (simp add: elf_serves_def)
  have "\<exists>text bss_addr ir'. write_text Ai (byte_alloc A) ctx = Some (text, bss_addr, ir') \<and> vec_ok text
    \<and> vec_list text = 0xBF # le32 bss_addr @ program_bytes q
    \<and> unat text_vaddr + vlength text \<le> unat bss_addr \<and> unat bss_addr < unat text_vaddr + vlength text + 4096
    \<and> unat bss_addr mod 4096 = 0"
    using q(5) st Ai(3) A(2) code pl small
    by (intro write_text_flat [OF v q(1) Ai(1) _ ba _ _ plain]) simp_all
  then obtain tx bss_addr ir' where w: "write_text Ai (byte_alloc A) ctx = Some (tx, bss_addr, ir')" "vec_ok tx"
      "vec_list tx = 0xBF # le32 bss_addr @ program_bytes q"
      "unat text_vaddr + vlength tx \<le> unat bss_addr"
      "unat bss_addr < unat text_vaddr + vlength tx + 4096" "unat bss_addr mod 4096 = 0"
    by (elim exE conjE) (rule that)
  have len: "length (vec_list tx) \<le> 19 * length content + 19" using w(3) pl code by simp
  have vl: "vlength tx = length (vec_list tx)" using length_vec_list [OF w(2)] by simp
  have tl: "vlength tx \<noteq> 0" "vlength tx < 2 ^ 31" using vl w(3) len small by simp_all
  have "100 \<le> lim" using A(2) by simp
  from write_elf_file_loads [OF A(1) this A(3) w(1,2) tl] obtain fp segs where
      f: "write_elf_file Ai A ctx empty_file = Some (fp, ir')"
      "elf_load (fbytes fp) = Some (unat text_vaddr, segs)"
      "segs = [text_seg tx, bss_seg bss_addr] \<or> segs = [bss_seg bss_addr, text_seg tx]"
      "set (elf_section_names (fbytes fp)) = {[], ''.text'', ''.bss'', ''.shstrtab''}"
    by (elim exE conjE) (rule that)
  have r: "\<forall>n mode input. main_run Ai A n False (Some (Some mode)) (Some content) input
      = Done (Wrote_elf (fbytes fp) (make_exe mode))"
    by (simp add: main_run_def c(1) f(1) roomy_buffer [OF Ai(1,2)])
  have p: "\<forall>g input. process (fbytes fp) g input = Some (loaded_image tx bss_addr, started g input)"
    using process_of_segments [OF f(2) w(2) f(3)] by blast
  have "eval code_step f q s = eval ir_step f q s" for f s
    by (rule eval_cong_prims [OF q(7)]) (rule code_step_full)
  then have "agrees bf_step p code_step q" using q(2) by (simp add: agrees_def)
  then show ?thesis
    by (intro exI [of _ "fbytes fp"] exI [of _ tx] exI [of _ bss_addr] exI [of _ q] conjI
        r p w(3) len w(4,5,6) [unfolded vl] f(4))
qed

lemma main_rejects:
  assumes A: "roomy Ai lim" "BUFLEN \<le> lim" "length content \<le> lim"
    and bad: "k \<le> length (source_text content)"
      "count_list (take k (source_text content)) (CHR ''['') < count_list (take k (source_text content)) (CHR '']'')"
  shows "main_run Ai A n dump out_name (Some content) input = Done Exit_failure"
proof -
  have "src_z [[]] (source_text content) = None"
    using bad by (auto simp: src_z_None_iff)
  then obtain ctx where "read_source Ai (snd (vec_reserve Ai ir_ctx_init BUFLEN)) content = Some (1, ctx)"
    using read_all [OF A] by auto
  then show ?thesis by (simp add: main_run_def roomy_buffer [OF A(1,2)])
qed

text \<open>Nothing else makes a run with an openable output fail.\<close>

lemma main_accepts:
  assumes A: "roomy Ai lim" "BUFLEN \<le> lim" "length content \<le> lim" and out: "out_name \<noteq> Some None"
    and fail: "main_run Ai A n dump out_name (Some content) input = Done Exit_failure"
  shows "src_z [[]] (source_text content) = None"
proof (rule ccontr)
  assume "src_z [[]] (source_text content) \<noteq> None"
  then obtain ctx where "read_source Ai (snd (vec_reserve Ai ir_ctx_init BUFLEN)) content = Some (0, ctx)"
    using read_all [OF A] by auto
  then show False
    using fail out by (cases out_name) (auto simp: main_run_def then_do_eq_Done split: if_splits)
qed

section \<open>A compilation error\<close>

lemma compile_from_error:
  assumes "vec_get ir i = Some x" and "i < vlength ir" and "too_big (arg x)"
    and "kind x = IR_OP_TAPE \<or> kind x = IR_OP_CELL \<or> kind x = IR_OP_WRITE \<or> kind x = IR_OP_READ"
  shows "compile_from A v ir i = Some (COMPILE_OPERAND_SIZE, v)"
proof -
  have "sint (arg x) \<noteq> 0" using assms(3) by (auto simp: too_big_def)
  then have "code_fn (kind x) A v ir i = Some (COMPILE_OPERAND_SIZE, v)"
    using assms by (auto simp: emit_code_tape_def emit_code_cell_def emit_code_write_def
        emit_code_read_def emit_add_sub_def)
  then show ?thesis using assms by (subst compile_from.simps) auto
qed

lemma write_text_error:
  assumes ir: "vec_ok ir" "vec_list ir = flat q @ x # rest"
    and x: "too_big (arg x)" "kind x = IR_OP_TAPE \<or> kind x = IR_OP_CELL \<or> kind x = IR_OP_WRITE \<or> kind x = IR_OP_READ"
    and Ai: "roomy Ai ilim" "vlength ir < ilim"
    and A: "roomy A lim" "7 + length (code_bytes q) \<le> lim" "vlength ir < lim"
    and q: "all_prims plain_op q" "length (code_bytes q) < 2 ^ 31 - 9"
  shows "\<exists>text bss_addr ir'. write_text Ai A ir = Some (text, bss_addr, ir')
    \<and> vec_ok text \<and> vec_list text = 0xBF # le32 bss_addr @ [0xFF, 0xF7] @ code_bytes q"
proof -
  obtain ir' where ir': "vec_push Ai ir (mk_op IR_OP_MAX 0) = Some (RC_OK, ir')" "vec_ok ir'"
      "vec_list ir' = vec_list ir @ [mk_op IR_OP_MAX 0]"
    using vec_push_roomy [OF ir(1) Ai] by blast
  have l: "vlength ir' = vlength ir + 1" "vlength ir = length (flat q) + 1 + length rest"
    using length_vec_list [OF ir'(2)] length_vec_list [OF ir(1)] ir'(3) ir(2) by simp_all
  have code: "vec_list ir' = [] @ flat q @ (x # rest @ [mk_op IR_OP_MAX 0])" using ir'(3) ir(2) by simp
  have get: "length (flat q) < vlength ir'" "vec_get ir' (length (flat q)) = Some x"
    using l ir'(2) code by (simp_all add: vec_get_ok)
  have v0: "vec_ok (vec_init :: u8 vec)" "vec_list (vec_init :: u8 vec) = []" by simp_all
  obtain c0 where c0: "ctx_push_code A vec_init [0xb8 + SP_REG] = Some c0" "vec_ok c0" "vec_list c0 = [0xBF]"
    using vec_pusharr_roomy [OF v0(1) A(1), of "[0xBF]"] v0 length_vec_list [OF v0(1)] A(2)
    by (auto simp: ctx_push_code_def reg_simps)
  obtain c1 where c1: "push_as_bytes A c0 text_vaddr = Some c1" "vec_ok c1" "vec_list c1 = 0xBF # le32 text_vaddr"
    using vec_pusharr_roomy [OF c0(2) A(1), of "le32 text_vaddr"] length_vec_list [OF c0(2)] c0(3) A(2)
    by (auto simp: push_as_bytes_def)
  obtain c2 where c2: "ctx_push_code A c1 [0xFF, mod_rm MODE_REG_DIRECT 6 SP_REG] = Some c2" "vec_ok c2"
      "vec_list c2 = 0xBF # le32 text_vaddr @ [0xFF, 0xF7]"
    using vec_pusharr_roomy [OF c1(2) A(1), of "[0xFF, 0xF7]"] length_vec_list [OF c1(2)] c1(3) A(2)
    by (auto simp: ctx_push_code_def reg_simps)
  have l2: "vlength c2 = 7" using length_vec_list [OF c2(2)] c2(3) by simp
  have "vlength ir' \<le> lim" "vlength c2 + length (code_bytes q) \<le> lim" using l(1) l2 A(2,3) by simp_all
  from compile_from_flat [OF ir'(2) this(1) A(1) q c2(2) this(2) code] obtain c3 where
      c3: "compile_from A c2 ir' 0 = compile_from A c3 ir' (length (flat q))" "vec_ok c3"
      "vec_list c3 = vec_list c2 @ code_bytes q" by auto
  have comp: "ir_ctx_compile Ai A c1 ir = Some (False, c3, ir')"
    using ir'(1) c2(1) c3(1) compile_from_error [OF get(2,1) x] by (simp add: ir_ctx_compile_def)
  define bss_addr where "bss_addr = (ucast (align_to (ucast text_vaddr + of_nat (vlength c3)) 0x1000) :: u32)"
  have "1 + length (le32 bss_addr) \<le> vlength c3"
    using length_vec_list [OF c3(2)] c3(3) c2(3) by simp
  then obtain c4 where c4: "vec_set_each c3 1 (le32 bss_addr) = Some c4" "vec_ok c4"
      "vec_list c4 = take 1 (vec_list c3) @ le32 bss_addr @ drop (1 + length (le32 bss_addr)) (vec_list c3)"
    using vec_set_each_ok [OF c3(2), of 1 "le32 bss_addr"] by auto
  have "write_text Ai A ir = Some (c4, bss_addr, ir')"
    using c0(1) c1(1) comp c4(1) unfolding write_text_def emit_text_def bss_address_def bss_addr_def by simp
  moreover have "vec_list c4 = 0xBF # le32 bss_addr @ [0xFF, 0xF7] @ code_bytes q"
    using c4(3) c3(3) c2(3) by (simp add: le32_def)
  ultimately show ?thesis using c4(2) by blast
qed

end
