(* ===== verification/Cleanup.thy ===== *)
theory Cleanup
  imports Driver
begin

text \<open>
  Work at the end of a scope: the macros of \<open>csrc/include/defer.h\<close>, and \<open>main\<close> and \<open>write_elf_file\<close>
  of \<open>csrc/src/main.c\<close> with the declarations that use them.  A scope is run on a log of the
  resources acquired and released; its cleanup runs when control leaves it by a \<open>return\<close> or at its
  end, innermost first, and not at all when the program hangs, faults or calls \<open>exit\<close>.
  \<open>parse_options\<close> of \<open>csrc/src/options.c\<close> is run on the same log, with the copies of names it makes:
  each \<open>-o\<close> makes one, and the pointer keeps the last.
\<close>

section \<open>The macros\<close>

text \<open>The copies of output names are numbered in the order they are made.\<close>

datatype resource = Input_name | Output_name nat | Buffer | Operations | In_file | Tape | Out_file | Elf_ctx

datatype event = Acquired resource | Released resource

type_synonym 'a scope = "event list \<Rightarrow> 'a outcome \<times> event list"

definition plain :: "'a outcome \<Rightarrow> 'a scope" where
  "plain r w = (r, w)"

text \<open>The rest of a scope behind a value.\<close>

definition scope_do :: "'a outcome \<Rightarrow> ('a \<Rightarrow> 'b scope) \<Rightarrow> 'b scope" where
  "scope_do r k w = (case r of Done x \<Rightarrow> k x w | Crash \<Rightarrow> (Crash, w) | Timeout \<Rightarrow> (Timeout, w))"

text \<open>The condition is evaluated when the scope is left.\<close>

definition defer_if :: "(event list \<Rightarrow> bool) \<Rightarrow> (event list \<Rightarrow> event list) \<Rightarrow> 'a scope \<Rightarrow> 'a scope" where
  "defer_if cond dtor body w =
     (case body w of
        (Done x, w') \<Rightarrow> (Done x, if cond w' then dtor w' else w')
      | r \<Rightarrow> r)"

definition defer_always :: "(event list \<Rightarrow> event list) \<Rightarrow> 'a scope \<Rightarrow> 'a scope" where
  "defer_always = defer_if (\<lambda>_. True)"

text \<open>The attribute \<open>cleanup(fn)\<close> on a variable, here with the value it keeps.\<close>

definition defer_var :: "('p \<Rightarrow> event list \<Rightarrow> event list) \<Rightarrow> 'p \<Rightarrow> 'a scope \<Rightarrow> 'a scope" where
  "defer_var fn p = defer_always (fn p)"

text \<open>\<open>fn\<close> of a pointer that is not null.\<close>

definition auto_fn :: "(resource \<Rightarrow> event list \<Rightarrow> event list) \<Rightarrow> resource option \<Rightarrow> event list \<Rightarrow> event list" where
  "auto_fn fn p w = (case p of None \<Rightarrow> w | Some r \<Rightarrow> fn r w)"

definition acquire :: "resource \<Rightarrow> event list \<Rightarrow> event list" where
  "acquire r w = w @ [Acquired r]"

definition release :: "resource \<Rightarrow> event list \<Rightarrow> event list" where
  "release r w = w @ [Released r]"

section \<open>The functions of the driver\<close>

definition write_elf_scoped :: "ir_op_t allocator \<Rightarrow> elf_alloc \<Rightarrow> ir_ctx \<Rightarrow> cfile \<Rightarrow> cfile scope" where
  "write_elf_scoped Ai A ir fp w =
     defer_always (release Elf_ctx) (plain (then_do (of_option (write_elf_file Ai A ir fp)) (\<lambda>(fp', _). Done fp')))
       (acquire Elf_ctx w)"

definition run_scoped :: "ir_op_t allocator \<Rightarrow> elf_alloc \<Rightarrow> nat \<Rightarrow> options_t \<Rightarrow> (string \<Rightarrow> u32 option) \<Rightarrow> ir_ctx
    \<Rightarrow> u8 list \<Rightarrow> main_result scope" where
  "run_scoped Ai A fuel options writable ctx input w =
     (case output_name options of
        None \<Rightarrow>
          defer_always (release Tape)
            (plain (then_do (ir_interpret Ai fuel ctx (zeroed_tape (byte_alloc A)) input) (\<lambda>r. Done (Interpreted r))))
            (acquire Tape w)
      | Some name \<Rightarrow>
          (case writable name of
             None \<Rightarrow> defer_var (auto_fn release) None (plain (Done Exit_failure)) w
           | Some mode \<Rightarrow>
               defer_var (auto_fn release) (Some Out_file)
                 (\<lambda>w. case write_elf_scoped Ai A ctx empty_file w of
                    (r, w') \<Rightarrow> (then_do r (\<lambda>fp. Done (Wrote_elf (fbytes fp) (make_exe mode))), w'))
                 (acquire Out_file w)))"

text \<open>The code behind \<open>error_ret\<close>, and the first \<open>defer\<close> of \<open>main\<close>.\<close>

definition free_names :: "nat option \<Rightarrow> bool \<Rightarrow> event list \<Rightarrow> event list" where
  "free_names output input w =
     (let w1 = (case output of None \<Rightarrow> w | Some k \<Rightarrow> release (Output_name k) w)
      in if input then release Input_name w1 else w1)"

text \<open>\<open>parse_loop\<close> with the copy \<open>output_name\<close> points to, and the log.\<close>

definition fresh :: "nat option \<Rightarrow> nat" where
  "fresh output = (case output of None \<Rightarrow> 0 | Some k \<Rightarrow> Suc k)"

function parse_loop_scoped :: "bool \<Rightarrow> options_t \<Rightarrow> nat option \<Rightarrow> getopt_state \<Rightarrow> event list
    \<Rightarrow> (bool \<times> options_t \<times> string list) option \<times> nat option \<times> event list" where
  "parse_loop_scoped compiling options output st w =
     (case getopt_long st of
        (None, _, _, ops) \<Rightarrow> (Some (compiling, options, ops), output, w)
      | (Some c, st') \<Rightarrow>
          (case c of
             Opt_c \<Rightarrow> parse_loop_scoped True options output st' w
           | Opt_d \<Rightarrow> parse_loop_scoped compiling (options\<lparr>dump_ir := True\<rparr>) output st' w
           | Opt_o optarg \<Rightarrow>
               parse_loop_scoped compiling (options\<lparr>output_name := Some optarg\<rparr>) (Some (fresh output)) st'
                 (acquire (Output_name (fresh output)) w)
           | Opt_error \<Rightarrow> (None, output, w)))"
  by pat_completeness auto
termination
  by (relation "measure (\<lambda>(_, _, _, st, _). args_left st)") (auto dest: getopt_long_less [OF sym])

declare parse_loop_scoped.simps [simp del]

definition parse_options_scoped :: "string list \<Rightarrow> (options_t \<times> nat option) option scope" where
  "parse_options_scoped argv w =
     (case parse_loop_scoped False options_init None ([], tl argv, []) w of
        (None, output, w) \<Rightarrow> (Done None, free_names output False w)
      | (Some (compiling, options, ops), output, w) \<Rightarrow>
          (case ops of
             [] \<Rightarrow> (Done None, free_names output False w)
           | name # extra \<Rightarrow>
               let options = options\<lparr>input_name := Some name\<rparr>; w = acquire Input_name w in
               (case if compiling \<and> output_name options = None
                     then map_option (\<lambda>n. (options\<lparr>output_name := Some n\<rparr>, Some (fresh output),
                            acquire (Output_name (fresh output)) w)) (derived_name name)
                     else Some (options, output, w) of
                  None \<Rightarrow> (Crash, w)
                | Some (options, output, w) \<Rightarrow>
                    if extra = [] then (Done (Some (options, output)), w)
                    else (Done None, free_names output True w))))"

text \<open>\<open>main\<close> from the buffer on.  What \<open>calloc\<close> returns is not looked at before \<open>fread\<close> writes there.\<close>

definition files_scoped :: "ir_op_t allocator \<Rightarrow> elf_alloc \<Rightarrow> nat \<Rightarrow> (string \<Rightarrow> string option) \<Rightarrow> (string \<Rightarrow> u32 option)
    \<Rightarrow> options_t \<Rightarrow> u8 list \<Rightarrow> main_result scope" where
  "files_scoped Ai A fuel readable writable options input w =
     (let buffer = (if avail Ai (BUFLEN + 1) then Some Buffer else None) in
      defer_var (auto_fn release) buffer (\<lambda>w.
        defer_var release Operations (\<lambda>w.
          case Option.bind (input_name options) readable of
            None \<Rightarrow> defer_var (auto_fn release) None (plain (Done Exit_failure)) w
          | Some src \<Rightarrow>
              defer_var (auto_fn release) (Some In_file)
                (if buffer = None then plain Crash
                 else scope_do (of_option (read_source Ai (snd (vec_reserve Ai ir_ctx_init BUFLEN)) src)) (\<lambda>(ret, ctx).
                   if ret \<noteq> 0 then plain (Done Exit_failure)
                   else if dump_ir options
                   then plain (then_do (of_option (ir_ctx_dump_ir ctx)) (\<lambda>s. Done (Listing s)))
                   else run_scoped Ai A fuel options writable ctx input))
                (acquire In_file w))
          (acquire Operations w))
        (auto_fn acquire buffer w))"

definition main_scoped :: "ir_op_t allocator \<Rightarrow> elf_alloc \<Rightarrow> nat \<Rightarrow> (string \<Rightarrow> string option) \<Rightarrow> (string \<Rightarrow> u32 option)
    \<Rightarrow> string list \<Rightarrow> u8 list \<Rightarrow> main_result scope" where
  "main_scoped Ai A fuel readable writable argv input w =
     (case parse_options_scoped argv w of (r, w) \<Rightarrow>
        scope_do r (\<lambda>r. case r of
            None \<Rightarrow> plain (Done Exit_failure)
          | Some (options, output) \<Rightarrow>
              defer_always (free_names output (input_name options \<noteq> None))
                (files_scoped Ai A fuel readable writable options input)) w)"

section \<open>What a scope leaves behind\<close>

text \<open>The resources held after a log; \<open>None\<close> when one is acquired twice or released without being held.\<close>

fun held :: "resource list \<Rightarrow> event list \<Rightarrow> resource list option" where
  "held rs [] = Some rs"
| "held rs (Acquired r # es) = (if r \<in> set rs then None else held (r # rs) es)"
| "held rs (Released r # es) = (if r \<in> set rs then held (remove1 r rs) es else None)"

lemmas scope_defs = scope_do_def defer_if_def defer_always_def defer_var_def auto_fn_def plain_def acquire_def release_def

text \<open>What \<open>write_elf_file\<close> and the branches behind the listing add to the log.\<close>

lemma write_elf_scoped_eq:
  "write_elf_scoped Ai A ir fp w =
     (let r = then_do (of_option (write_elf_file Ai A ir fp)) (\<lambda>(fp', _). Done fp')
      in (r, w @ Acquired Elf_ctx # (case r of Done _ \<Rightarrow> [Released Elf_ctx] | _ \<Rightarrow> [])))"
  by (simp add: write_elf_scoped_def scope_defs Let_def split: outcome.split)

definition run_result :: "ir_op_t allocator \<Rightarrow> elf_alloc \<Rightarrow> nat \<Rightarrow> options_t \<Rightarrow> (string \<Rightarrow> u32 option) \<Rightarrow> ir_ctx
    \<Rightarrow> u8 list \<Rightarrow> main_result outcome" where
  "run_result Ai A fuel options writable ctx input =
     (case map_option writable (output_name options) of
        None \<Rightarrow> then_do (ir_interpret Ai fuel ctx (zeroed_tape (byte_alloc A)) input) (\<lambda>r. Done (Interpreted r))
      | Some None \<Rightarrow> Done Exit_failure
      | Some (Some mode) \<Rightarrow>
          then_do (of_option (write_elf_file Ai A ctx empty_file)) (\<lambda>(fp, _). Done (Wrote_elf (fbytes fp) (make_exe mode))))"

lemma run_scoped_eq:
  "\<exists>xs. run_scoped Ai A fuel options writable ctx input w
      = (run_result Ai A fuel options writable ctx input,
         w @ map Acquired xs @ (case run_result Ai A fuel options writable ctx input of
           Done _ \<Rightarrow> map Released (rev xs) | _ \<Rightarrow> []))
    \<and> set xs \<subseteq> {Tape, Out_file, Elf_ctx} \<and> distinct xs"
proof (cases "output_name options")
  case None
  then show ?thesis
    by (intro exI [of _ "[Tape]"])
      (cases "ir_interpret Ai fuel ctx (zeroed_tape (byte_alloc A)) input"; simp add: run_scoped_def run_result_def scope_defs)
next
  case name: (Some name)
  show ?thesis
  proof (cases "writable name")
    case None
    then show ?thesis using name by (intro exI [of _ "[]"]) (simp add: run_scoped_def run_result_def scope_defs)
  next
    case (Some mode)
    then show ?thesis using name
      by (intro exI [of _ "[Out_file, Elf_ctx]"])
        (cases "write_elf_file Ai A ctx empty_file"; auto simp: run_scoped_def run_result_def write_elf_scoped_eq scope_defs Let_def)
  qed
qed

text \<open>
  Where control comes back, the rest of a log releases what it acquired; where it does not, it
  releases nothing.
\<close>

definition inner_resources :: "resource set" where
  "inner_resources = {Buffer, Operations, In_file, Tape, Out_file, Elf_ctx}"

definition balanced :: "'a outcome \<Rightarrow> event list \<Rightarrow> bool" where
  "balanced r es \<longleftrightarrow> (case r of
      Done _ \<Rightarrow> (\<forall>rs. set rs \<inter> inner_resources = {} \<longrightarrow> held rs es = Some rs)
    | _ \<Rightarrow> (\<forall>x. Released x \<notin> set es))"

lemma held_append: "held rs (xs @ ys) = Option.bind (held rs xs) (\<lambda>rs'. held rs' ys)"
proof (induction xs arbitrary: rs)
  case (Cons e xs)
  then show ?case by (cases e) simp_all
qed simp

lemma held_acquired:
  "set xs \<inter> set rs = {} \<Longrightarrow> distinct xs \<Longrightarrow> held rs (map Acquired xs) = Some (rev xs @ rs)"
proof (induction xs arbitrary: rs)
  case (Cons x xs)
  then show ?case using Cons.IH [of "x # rs"] by auto
qed simp

lemma held_nested:
  "set xs \<inter> set rs = {} \<Longrightarrow> distinct xs \<Longrightarrow> held rs (map Acquired xs @ map Released (rev xs) @ es) = held rs es"
proof (induction xs arbitrary: rs es)
  case (Cons x xs)
  have "held (x # rs) (map Acquired xs @ map Released (rev xs) @ Released x # es) = held (x # rs) (Released x # es)"
    using Cons.prems by (intro Cons.IH) auto
  then show ?case using Cons.prems by simp
qed simp

lemma balanced_nested:
  "set xs \<subseteq> inner_resources \<Longrightarrow> distinct xs \<Longrightarrow> balanced (Done x) (map Acquired xs @ map Released (rev xs))"
  using held_nested [of xs _ "[]"] by (fastforce simp: balanced_def)

lemma balanced_failed: "r = Crash \<or> r = Timeout \<Longrightarrow> balanced r (map Acquired xs)"
  by (auto simp: balanced_def)

text \<open>\<open>main\<close> behind the options.\<close>

lemma main_run_readable:
  "avail Ai (Suc BUFLEN) \<Longrightarrow>
   main_run Ai A fuel dump (map_option writable (output_name options)) (Some src) input
    = then_do (of_option (read_source Ai (snd (vec_reserve Ai ir_ctx_init BUFLEN)) src)) (\<lambda>(ret, ctx).
        if ret \<noteq> 0 then Done Exit_failure
        else if dump then then_do (of_option (ir_ctx_dump_ir ctx)) (\<lambda>s. Done (Listing s))
        else run_result Ai A fuel options writable ctx input)"
  by (simp add: main_run_def run_result_def cong: if_cong)

lemma files_scoped_eq:
  "\<exists>xs. files_scoped Ai A fuel readable writable options input w
      = (main_run Ai A fuel (dump_ir options) (map_option writable (output_name options))
           (Option.bind (input_name options) readable) input,
         w @ map Acquired xs @ (case main_run Ai A fuel (dump_ir options) (map_option writable (output_name options))
           (Option.bind (input_name options) readable) input of Done _ \<Rightarrow> map Released (rev xs) | _ \<Rightarrow> []))
    \<and> set xs \<subseteq> inner_resources \<and> distinct xs"
proof (cases "Option.bind (input_name options) readable")
  case None
  then show ?thesis
    by (intro exI [of _ "(if avail Ai (Suc BUFLEN) then [Buffer] else []) @ [Operations]"])
      (simp add: files_scoped_def main_run_def scope_defs inner_resources_def)
next
  case src: (Some src)
  show ?thesis
  proof (cases "avail Ai (Suc BUFLEN)")
    case False
    then show ?thesis
      by (intro exI [of _ "[Operations, In_file]"])
        (simp add: src files_scoped_def main_run_def scope_defs inner_resources_def)
  next
    case room: True
    let ?read = "read_source Ai (snd (vec_reserve Ai ir_ctx_init BUFLEN)) src"
    let ?base = "[Buffer, Operations, In_file]"
    show ?thesis
    proof (cases "\<exists>ctx. ?read = Some (0, ctx) \<and> \<not> dump_ir options")
      case False
      then consider "?read = None" | ret ctx where "?read = Some (ret, ctx)" "0 < ret"
        | ctx where "?read = Some (0, ctx)" "dump_ir options"
        by (cases ?read) auto
      then show ?thesis
      proof cases
        case (3 ctx)
        then show ?thesis
          by (intro exI [of _ ?base], cases "ir_ctx_dump_ir ctx")
            (simp_all add: src room files_scoped_def main_run_readable scope_defs inner_resources_def)
      qed (intro exI [of _ ?base];
           simp add: src room files_scoped_def main_run_readable scope_defs inner_resources_def)+
    next
      case True
      then obtain ctx where p: "?read = Some (0, ctx)" "\<not> dump_ir options" by blast
      obtain xs where xs: "run_scoped Ai A fuel options writable ctx input (w @ map Acquired ?base)
          = (run_result Ai A fuel options writable ctx input,
             (w @ map Acquired ?base) @ map Acquired xs @ (case run_result Ai A fuel options writable ctx input of
               Done _ \<Rightarrow> map Released (rev xs) | _ \<Rightarrow> []))" "set xs \<subseteq> {Tape, Out_file, Elf_ctx}" "distinct xs"
        using run_scoped_eq by blast
      show ?thesis
        by (intro exI [of _ "?base @ xs"], cases "run_result Ai A fuel options writable ctx input")
          (use xs in \<open>auto simp: p src room files_scoped_def main_run_readable scope_defs inner_resources_def\<close>)
    qed
  qed
qed

lemma files_scoped_log:
  obtains es where "files_scoped Ai A fuel readable writable options input w
      = (main_run Ai A fuel (dump_ir options) (map_option writable (output_name options))
           (Option.bind (input_name options) readable) input, w @ es)"
    and "balanced (fst (files_scoped Ai A fuel readable writable options input w)) es"
proof -
  define r where "r = main_run Ai A fuel (dump_ir options) (map_option writable (output_name options))
    (Option.bind (input_name options) readable) input"
  obtain xs where xs: "files_scoped Ai A fuel readable writable options input w
      = (r, w @ map Acquired xs @ (case r of Done _ \<Rightarrow> map Released (rev xs) | _ \<Rightarrow> []))"
      "set xs \<subseteq> inner_resources" "distinct xs"
    using files_scoped_eq [of Ai A fuel readable writable options input w] unfolding r_def by blast
  have "balanced r (map Acquired xs @ (case r of Done _ \<Rightarrow> map Released (rev xs) | _ \<Rightarrow> []))"
    using balanced_nested [OF xs(2,3)] balanced_failed by (cases r) auto
  then show ?thesis using that xs(1) by (simp add: r_def)
qed

section \<open>The copies of names\<close>

text \<open>The arguments of \<open>-o\<close> that \<open>getopt_long\<close> reports before the end or the first error.\<close>

function out_args :: "getopt_state \<Rightarrow> string list" where
  "out_args st =
     (case getopt_long st of
        (Some (Opt_o n), st') \<Rightarrow> n # out_args st'
      | (Some Opt_error, _) \<Rightarrow> []
      | (Some e, st') \<Rightarrow> out_args st'
      | (None, _) \<Rightarrow> [])"
  by pat_completeness auto
termination
  by (relation "measure args_left") (auto dest: getopt_long_less [OF sym])

declare out_args.simps [simp del]

lemma parse_loop_scoped_eq:
  "parse_loop_scoped c opts p st w =
     (parse_loop c opts st,
      if out_args st = [] then p else Some (fresh p + length (out_args st) - 1),
      w @ map (\<lambda>k. Acquired (Output_name k)) [fresh p..<fresh p + length (out_args st)])"
proof (induction c opts p st w rule: parse_loop_scoped.induct)
  case (1 c opts p st w)
  note unf = parse_loop_scoped.simps [of c opts p st w] parse_loop.simps [of c opts st] out_args.simps [of st]
  obtain e st' where "getopt_long st = (e, st')" by (rule prod.exhaust)
  then show ?case
    using 1 by (cases e; cases st'; cases "the e")
      (auto simp: unf acquire_def fresh_def upt_conv_Cons simp del: upt_Suc)
qed

lemma parse_loop_no_output:
  "parse_loop c opts st = Some (c', opts', ops) \<Longrightarrow> output_name opts' = None \<Longrightarrow> output_name opts = None \<and> out_args st = []"
proof (induction c opts st rule: parse_loop.induct)
  case (1 c opts st)
  obtain e st' where "getopt_long st = (e, st')" by (rule prod.exhaust)
  then show ?case
    using 1 by (cases e; cases st'; cases "the e")
      (fastforce simp: parse_loop.simps [of c opts st] out_args.simps [of st])+
qed

text \<open>Every copy but the last.\<close>

definition leaked :: "string list \<Rightarrow> resource set" where
  "leaked argv = Output_name ` {k. Suc k < length (out_args ([], tl argv, []))}"

definition freed :: "nat option \<Rightarrow> bool \<Rightarrow> resource set" where
  "freed p b = Output_name ` set_option p \<union> (if b then {Input_name} else {})"

lemma free_names_append: "free_names p b w = w @ free_names p b []"
  by (simp add: free_names_def release_def Let_def split: option.split)

lemma free_names_held:
  "freed p b \<subseteq> set rs \<Longrightarrow> distinct rs \<Longrightarrow> map_option set (held rs (free_names p b [])) = Some (set rs - freed p b)"
  by (cases p) (auto simp: freed_def free_names_def release_def Let_def)

text \<open>The copies \<open>xs\<close> made by the options, of which \<open>p\<close> and \<open>b\<close> tell those still pointed to.\<close>

definition names_made :: "string list \<Rightarrow> resource list \<Rightarrow> nat option \<Rightarrow> bool \<Rightarrow> bool" where
  "names_made argv xs p b \<longleftrightarrow> distinct xs \<and> set xs \<inter> inner_resources = {} \<and> freed p b \<subseteq> set xs
     \<and> set xs - freed p b = leaked argv"

lemma names_made_copies:
  fixes argv :: "string list"
  defines "n \<equiv> length (out_args ([], tl argv, []))"
  defines "xs \<equiv> map Output_name [0..<n]" and "p \<equiv> if n = 0 then None else Some (n - 1)"
  shows "names_made argv xs p False" and "names_made argv (xs @ [Input_name]) p True"
    and "n = 0 \<Longrightarrow> names_made argv (xs @ [Input_name, Output_name 0]) (Some 0) True"
proof -
  have d: "distinct xs" by (simp add: xs_def distinct_map inj_on_def)
  have l: "leaked argv = Output_name ` {k. Suc k < n}" by (simp add: leaked_def n_def)
  show "names_made argv xs p False" "names_made argv (xs @ [Input_name]) p True"
      "n = 0 \<Longrightarrow> names_made argv (xs @ [Input_name, Output_name 0]) (Some 0) True"
    unfolding names_made_def l using d
    by (auto simp: xs_def p_def freed_def inner_resources_def)
qed

lemma parse_options_scoped_log:
  obtains xs p b where "names_made argv xs p b"
    and "parse_options_scoped argv [] =
      (case parse_options argv of
         Done (Some options) \<Rightarrow> (Done (Some (options, p)), map Acquired xs)
       | Done None \<Rightarrow> (Done None, free_names p b (map Acquired xs))
       | Crash \<Rightarrow> (Crash, map Acquired xs) | Timeout \<Rightarrow> (Timeout, map Acquired xs))"
    and "\<And>options. parse_options argv = Done (Some options) \<Longrightarrow> b \<longleftrightarrow> input_name options \<noteq> None"
proof -
  define n where "n = length (out_args ([], tl argv, []))"
  define q where "q = (if n = 0 then None else Some (n - 1))"
  note made = names_made_copies [of argv, folded n_def, folded q_def]
  have run: "parse_loop_scoped False options_init None ([], tl argv, []) []
      = (parse_loop False options_init ([], tl argv, []), q, map Acquired (map Output_name [0..<n]))"
    by (simp add: parse_loop_scoped_eq n_def q_def fresh_def)
  note defs = parse_options_scoped_def parse_options_def run acquire_def
  show ?thesis
  proof (cases "parse_loop False options_init ([], tl argv, [])")
    case None
    then show ?thesis by (intro that [OF made(1)]) (simp_all add: defs)
  next
    case (Some x)
    obtain c opts ops where x: "x = (c, opts, ops)" by (rule prod_cases3)
    show ?thesis
    proof (cases ops)
      case Nil
      then show ?thesis using Some x by (intro that [OF made(1)]) (simp_all add: defs)
    next
      case (Cons name extra)
      show ?thesis
      proof (cases "c \<and> output_name opts = None")
        case False
        then show ?thesis using Some x Cons
          by (intro that [OF made(2)]) (auto simp: defs Let_def split: if_splits)
      next
        case True
        then have n: "n = 0" using parse_loop_no_output [OF Some [unfolded x]] by (simp add: n_def)
        then have f: "fresh q = 0" by (simp add: q_def fresh_def)
        show ?thesis
        proof (cases "derived_name name")
          case None
          then show ?thesis using True Some x Cons by (intro that [OF made(2)]) (auto simp: defs Let_def)
        next
          case (Some nm)
          then show ?thesis using True \<open>parse_loop _ _ _ = _\<close> x Cons n f
            by (intro that [OF made(3) [OF n]]) (auto simp: defs Let_def split: if_splits)
        qed
      qed
    qed
  qed
qed

lemma repeated_output_leaks:
  "leaked [''bfcomp'', ''-o'', ''a'', ''life.bf'', ''--output=b''] = {Output_name 0}"
  by (simp add: leaked_def out_args.simps getopt_short_def getopt_name_def find_long_def long_options_def Collect_conv_if
      flip: less_Suc_eq_le)

section \<open>Everything but the earlier copies\<close>

text \<open>What is left of a log.\<close>

definition settled :: "resource set \<Rightarrow> 'a outcome \<Rightarrow> event list \<Rightarrow> bool" where
  "settled kept r es \<longleftrightarrow> (case r of Done _ \<Rightarrow> map_option set (held [] es) = Some kept | _ \<Rightarrow> (\<forall>x. Released x \<notin> set es))"

text \<open>
  C9: \<open>main\<close> with its scopes and their cleanups does what \<open>main\<close> does.  On every path on
  which it returns or leaves by \<open>exit\<close> (options rejected, a file that cannot be opened, a syntax
  error, the listing, the interpreter, the executable) no resource has been acquired twice or
  released without being held, and those still held are exactly the copies that the options \<open>-o\<close>
  before the last made of their arguments: a repeated option leaks them.  Everything else has been
  released exactly once.  Where \<open>main\<close> hangs or faults (also on a read buffer that was refused) no
  cleanup has run.
\<close>
theorem main_releases_all:
  "fst (main_scoped Ai A fuel readable writable argv input []) = main Ai A fuel readable writable argv input
   \<and> settled (leaked argv) (main Ai A fuel readable writable argv input)
       (snd (main_scoped Ai A fuel readable writable argv input []))"
proof -
  obtain xs p b where n: "names_made argv xs p b"
    and log: "parse_options_scoped argv [] =
      (case parse_options argv of
         Done (Some options) \<Rightarrow> (Done (Some (options, p)), map Acquired xs)
       | Done None \<Rightarrow> (Done None, free_names p b (map Acquired xs))
       | Crash \<Rightarrow> (Crash, map Acquired xs) | Timeout \<Rightarrow> (Timeout, map Acquired xs))"
    and b: "\<And>options. parse_options argv = Done (Some options) \<Longrightarrow> b \<longleftrightarrow> input_name options \<noteq> None"
    by (rule parse_options_scoped_log) blast
  have xs: "distinct xs" "set (rev xs) \<inter> inner_resources = {}" "freed p b \<subseteq> set (rev xs)"
      "set (rev xs) - freed p b = leaked argv"
    using n by (simp_all add: names_made_def)
  have held: "held [] (map Acquired xs) = Some (rev xs)" using held_acquired [of xs "[]"] xs(1) by simp
  have free: "map_option set (held (rev xs) (free_names p b [])) = Some (leaked argv)"
    using free_names_held [OF xs(3)] xs(1,4) by simp
  show ?thesis
  proof (cases "\<exists>options. parse_options argv = Done (Some options)")
    case False
    then show ?thesis
      using log held free by (cases "parse_options argv")
        (auto simp: main_scoped_def main_def scope_defs settled_def free_names_append [of p b "map Acquired xs"]
           held_append split: option.splits)
  next
    case True
    then obtain options where o': "parse_options argv = Done (Some options)" by blast
    have "main Ai A fuel readable writable argv input = main_run Ai A fuel (dump_ir options)
        (map_option writable (output_name options)) (Option.bind (input_name options) readable) input"
      by (simp add: main_def o')
    then obtain es where es: "files_scoped Ai A fuel readable writable options input (map Acquired xs)
          = (main Ai A fuel readable writable argv input, map Acquired xs @ es)"
        "balanced (main Ai A fuel readable writable argv input) es"
      using files_scoped_log [of Ai A fuel readable writable options input "map Acquired xs"] by (metis fst_conv)
    show ?thesis
      using log es(2) xs(2) held free b [OF o']
      by (cases "main Ai A fuel readable writable argv input")
        (auto simp: main_scoped_def o' es(1) scope_defs settled_def balanced_def held_append
           free_names_append [of p _ "map Acquired xs @ es"])
  qed
qed

end
