(* ===== verification/Ir_Asm.thy ===== *)
theory Ir_Asm
  imports Ir_Dump Ir_Compile
begin

text \<open>
  The debugging listing of the code generator, \<open>ir_compile_dump_asm\<close> of \<open>csrc/src/ir_compile.c\<close>,
  and the room both listings need in the buffers \<open>sprintf\<close> writes to.
\<close>

section \<open>The listing\<close>

fun reg_name :: "reg_t \<Rightarrow> string" where
  "reg_name REG_EAX = ''eax''"
| "reg_name REG_ECX = ''ecx''"
| "reg_name REG_EDX = ''edx''"
| "reg_name REG_EBX = ''ebx''"
| "reg_name REG_ESP = ''esp''"
| "reg_name REG_EBP = ''ebp''"
| "reg_name REG_ESI = ''esi''"
| "reg_name REG_EDI = ''edi''"

text \<open>\<open>%02lx\<close>.\<close>

definition fmt_02lx :: "i64 \<Rightarrow> string" where
  "fmt_02lx w = (let s = hex_digits (unat w) in replicate (2 - length s) (CHR ''0'') @ s)"

definition ir_compile_dump_asm :: "ir_op_t \<Rightarrow> string" where
  "ir_compile_dump_asm x =
     (let sp = reg_name REG_EDI
      in case kind x of
        IR_OP_READ \<Rightarrow> ''<read>''
      | IR_OP_WRITE \<Rightarrow> ''<write>''
      | IR_OP_CELL \<Rightarrow>
          (if sint (arg x) > 0
           then if arg x = 1 then ''inc ('' @ sp @ '')''
                else ''addl $'' @ fmt_02lx (arg x) @ '',('' @ sp @ '')''
           else if arg x = - 1 then ''dec ('' @ sp @ '')''
           else ''sub $'' @ fmt_02lx (- arg x) @ '',('' @ sp @ '')'')
      | IR_OP_TAPE \<Rightarrow>
          (if sint (arg x) > 0
           then if arg x = 1 then ''inc '' @ sp
                else ''addl $'' @ fmt_02lx (arg x) @ '','' @ sp
           else if arg x = - 1 then ''dec '' @ sp
           else ''sub $'' @ fmt_02lx (- arg x) @ '','' @ sp)
      | IR_OP_LOOP_START \<Rightarrow> ''je '' @ fmt_ld (arg x)
      | IR_OP_LOOP_END \<Rightarrow> ''jne '' @ fmt_ld (arg x)
      | IR_OP_MAX \<Rightarrow> ''<exit>''
      | IR_OP_SET \<Rightarrow> ''invalid * '' @ fmt_ld (arg x))"

section \<open>Hexadecimal numbers read back\<close>

definition hex_value :: "string \<Rightarrow> nat" where
  "hex_value s = foldl (\<lambda>a c. 16 * a + (if of_char c < (97 :: nat) then of_char c - 48 else of_char c - 87)) 0 s"

lemma less_16_cases: "(n :: nat) < 16 \<Longrightarrow> n \<in> {0, 1, 2, 3, 4, 5, 6, 7, 8, 9, 10, 11, 12, 13, 14, 15}"
  by (simp only: insert_iff empty_iff) presburger

lemma hex_digit_value: "d < 16 \<Longrightarrow> hex_value (s @ [''0123456789abcdef'' ! d]) = 16 * hex_value s + d"
  by (drule less_16_cases) (auto simp: hex_value_def)

lemma hex_digit_first: "d < 16 \<Longrightarrow> hex_value [''0123456789abcdef'' ! d] = d"
  using hex_digit_value [of d "[]"] by (simp add: hex_value_def)

lemma hex_value_digits: "hex_value (hex_digits n) = n"
proof (induction n rule: hex_digits.induct)
  case (1 n)
  then show ?case
    using hex_digit_value [of "n mod 16" "hex_digits (n div 16)"] hex_digit_first [of n]
    by (subst hex_digits.simps) auto
qed

lemma hex_digits_chars: "c \<in> set (hex_digits n) \<Longrightarrow> c \<noteq> CHR '',''"
proof (induction n rule: hex_digits.induct)
  case (1 n)
  have "''0123456789abcdef'' ! d \<noteq> CHR '',''" if "d < 16" for d
    using less_16_cases [OF that] by auto
  from this [of n] this [of "n mod 16"] show ?case
    using "1.prems" "1.IH" by (subst (asm) hex_digits.simps) (auto split: if_splits)
qed

lemma hex_value_zeros: "hex_value (replicate k (CHR ''0'') @ s) = hex_value s"
proof -
  have "hex_value (CHR ''0'' # s) = hex_value s" for s by (simp add: hex_value_def)
  then show ?thesis by (induction k) simp_all
qed

lemma fmt_02lx_inj: "fmt_02lx a = fmt_02lx b \<longleftrightarrow> a = b"
proof
  assume "fmt_02lx a = fmt_02lx b"
  then have "hex_value (fmt_02lx a) = hex_value (fmt_02lx b)" by simp
  then have "unat a = unat b" by (simp add: fmt_02lx_def Let_def hex_value_zeros hex_value_digits)
  then show "a = b" by (rule unsigned_word_eqI)
qed simp

lemma fmt_02lx_chars: "c \<in> set (fmt_02lx w) \<Longrightarrow> c \<noteq> CHR '',''"
  using hex_digits_chars [of c "unat w"] by (auto simp: fmt_02lx_def Let_def)

lemma comma_split:
  "CHR '','' \<notin> set a \<Longrightarrow> CHR '','' \<notin> set b \<Longrightarrow> a @ CHR '','' # s = b @ CHR '','' # t \<longleftrightarrow> a = b \<and> s = t"
proof (induction a arbitrary: b)
  case Nil
  then show ?case by (cases b) auto
next
  case (Cons c a)
  then show ?case by (cases b) auto
qed

section \<open>Lengths\<close>

lemma length_fmt_ld: "length (fmt_ld w) \<le> 21"
proof -
  have "- (2 ^ 63) \<le> sint w" "sint w < 2 ^ 63" using sint_range_size [of w] by (simp_all add: word_size)
  then have "nat (sint w) < 10 ^ Suc 19" "nat (- sint w) < 10 ^ Suc 19" by simp_all
  from this [THEN length_dec_digits] show ?thesis by (simp add: fmt_ld_def)
qed

lemma length_fmt_02lx: "length (fmt_02lx w) \<le> 16"
proof -
  have "unat w < 2 ^ LENGTH(64)" by (rule unsigned_less)
  then have "unat w < 16 ^ Suc 15" by simp
  from length_hex_digits [OF this] show ?thesis by (simp add: fmt_02lx_def Let_def)
qed

section \<open>Properties\<close>

text \<open>
  \<open>sprintf\<close> stays inside the buffer of 1024 characters both listings are given, whatever the
  operation: every line of either takes at most 40 of them, its terminator included.
\<close>
theorem listings_fit_buffer:
  "length (ir_fmt_op x) + 1 \<le> 40 \<and> length (ir_compile_dump_asm x) + 1 \<le> 40"
  using length_fmt_ld [of "arg x"] length_fmt_ld [of "- arg x"] length_fmt_02lx [of "arg x"] length_fmt_02lx [of "- arg x"]
  by (cases "kind x") (auto simp: ir_fmt_op_def ir_compile_dump_asm_def Let_def)

text \<open>
  C16: A line of either listing determines the operation it prints, up to the operands that are
  not printed: that of the halt operation, and in the assembler listing those of reads and writes.
\<close>
theorem listings_injective:
  "(ir_fmt_op x = ir_fmt_op y \<longleftrightarrow> kind x = kind y \<and> (arg x = arg y \<or> kind x = IR_OP_MAX))
   \<and> (ir_compile_dump_asm x = ir_compile_dump_asm y \<longleftrightarrow>
        kind x = kind y \<and> (arg x = arg y \<or> kind x \<in> {IR_OP_MAX, IR_OP_READ, IR_OP_WRITE}))"
proof
  show "ir_fmt_op x = ir_fmt_op y \<longleftrightarrow> kind x = kind y \<and> (arg x = arg y \<or> kind x = IR_OP_MAX)"
    using fmt_op_inj [of x y] by (cases "kind y") (auto simp: ir_fmt_op_def)
  have "CHR '','' \<notin> set (fmt_02lx w)" for w using fmt_02lx_chars by blast
  note c = comma_split [OF this this]
  have s: "sint (arg x) > 0 \<longleftrightarrow> sint (arg y) > 0" if "arg x = arg y" using that by simp
  show "ir_compile_dump_asm x = ir_compile_dump_asm y \<longleftrightarrow>
        kind x = kind y \<and> (arg x = arg y \<or> kind x \<in> {IR_OP_MAX, IR_OP_READ, IR_OP_WRITE})"
    by (cases "kind x"; cases "kind y") (auto simp: ir_compile_dump_asm_def Let_def fmt_ld_inj fmt_02lx_inj c)
qed

end
