(* ===== verification/Vec_For.thy ===== *)
theory Vec_For
  imports Vec_Ops "HOL-Library.Multiset"
begin

text \<open>
  The iteration macros of \<open>csrc/include/rxi/vec.h\<close> and its calls of the C library's \<open>qsort\<close> and
  \<open>bsearch\<close>.  The body of a loop may change the vector it runs over: the bound and the data
  are read again in every turn.  A loop upwards need not end, so it takes fuel, one unit a turn;
  a loop downwards counts to zero.  Bodies leave the iterator alone and do not \<open>break\<close>.
\<close>

section \<open>Loops\<close>

type_synonym ('a, 's) turn = "nat \<Rightarrow> 'a vec \<Rightarrow> 's \<Rightarrow> ('a vec \<times> 's) outcome"

text \<open>The variable of the loop is the element, or a pointer to it, given by its index.\<close>

definition with_element :: "nat \<Rightarrow> ('a \<Rightarrow> ('a, 's) turn) \<Rightarrow> ('a, 's) turn" where
  "with_element back body i v s =
     (case load (vdata v) (i - back) of None \<Rightarrow> Crash | Some x \<Rightarrow> body x i v s)"

fun loop_up :: "nat \<Rightarrow> ('a, 's) turn \<Rightarrow> nat \<Rightarrow> 'a vec \<Rightarrow> 's \<Rightarrow> ('a vec \<times> 's) outcome" where
  "loop_up f turn i v s =
     (if i < vlength v
      then case f of
             0 \<Rightarrow> Timeout
           | Suc f' \<Rightarrow> then_do (turn i v s) (\<lambda>(v', s'). loop_up f' turn (i + 1) v' s')
      else Done (v, s))"

declare loop_up.simps [simp del]

fun loop_down :: "('a, 's) turn \<Rightarrow> nat \<Rightarrow> 'a vec \<Rightarrow> 's \<Rightarrow> ('a vec \<times> 's) outcome" where
  "loop_down turn 0 v s = Done (v, s)"
| "loop_down turn (Suc i) v s = then_do (turn (Suc i) v s) (\<lambda>(v', s'). loop_down turn i v' s')"

definition vec_for :: "nat \<Rightarrow> 'a vec \<Rightarrow> ('a \<Rightarrow> ('a, 's) turn) \<Rightarrow> 's \<Rightarrow> ('a vec \<times> 's) outcome" where
  "vec_for f v body s = (if vlength v > 0 then loop_up f (with_element 0 body) 0 v s else Done (v, s))"

definition vec_for_ptr :: "nat \<Rightarrow> 'a vec \<Rightarrow> (nat \<Rightarrow> ('a, 's) turn) \<Rightarrow> 's \<Rightarrow> ('a vec \<times> 's) outcome" where
  "vec_for_ptr f v body s = (if vlength v > 0 then loop_up f (\<lambda>i. body i i) 0 v s else Done (v, s))"

text \<open>Downwards the iterator's \<open>i\<close> is one more than the index of the element.\<close>

definition vec_for_rev :: "'a vec \<Rightarrow> ('a \<Rightarrow> ('a, 's) turn) \<Rightarrow> 's \<Rightarrow> ('a vec \<times> 's) outcome" where
  "vec_for_rev v body s =
     (if vlength v > 0 then loop_down (with_element 1 body) (vlength v) v s else Done (v, s))"

definition vec_for_rev_ptr :: "'a vec \<Rightarrow> (nat \<Rightarrow> ('a, 's) turn) \<Rightarrow> 's \<Rightarrow> ('a vec \<times> 's) outcome" where
  "vec_for_rev_ptr v body s =
     (if vlength v > 0 then loop_down (\<lambda>i. body (i - 1) i) (vlength v) v s else Done (v, s))"

section \<open>Loops that leave the vector alone\<close>

fun fold_do :: "('a \<Rightarrow> nat \<Rightarrow> 's \<Rightarrow> 's outcome) \<Rightarrow> nat \<Rightarrow> 'a list \<Rightarrow> 's \<Rightarrow> 's outcome" where
  "fold_do g i [] s = Done s"
| "fold_do g i (x # xs) s = then_do (g x i s) (fold_do g (i + 1) xs)"

lemma load_vec_list: "vec_ok v \<Longrightarrow> i < vlength v \<Longrightarrow> load (vdata v) i = Some (vec_list v ! i)"
  using vec_get_ok [of v i] by (simp add: vec_get_def)

lemma loop_up_reads:
  assumes "vec_ok v" and "vlength v - i \<le> f" and "i \<le> vlength v"
  shows "loop_up f (with_element 0 (\<lambda>x i v s. then_do (g x i s) (\<lambda>s'. Done (v, s')))) i v s
    = then_do (fold_do g i (drop i (vec_list v)) s) (\<lambda>s'. Done (v, s'))"
  using assms
proof (induction f arbitrary: i s)
  case (Suc f)
  show ?case
  proof (cases "i < vlength v")
    case True
    then have "drop i (vec_list v) = vec_list v ! i # drop (i + 1) (vec_list v)"
      using Suc.prems(1) by (simp add: Cons_nth_drop_Suc length_vec_list)
    then show ?thesis using Suc True
      by (cases "g (vec_list v ! i) i s") (simp_all add: loop_up.simps with_element_def load_vec_list)
  qed (use Suc.prems in \<open>simp add: loop_up.simps length_vec_list\<close>)
qed (simp add: loop_up.simps length_vec_list)

lemma vec_for_reads:
  assumes "vec_ok v" and "vlength v \<le> f"
  shows "vec_for f v (\<lambda>x i v s. then_do (g x i s) (\<lambda>s'. Done (v, s'))) s
    = then_do (fold_do g 0 (vec_list v) s) (\<lambda>s'. Done (v, s'))"
proof (cases "vlength v = 0")
  case True
  then have "vec_list v = []" using length_vec_list [OF assms(1)] by simp
  then show ?thesis using True by (simp add: vec_for_def)
qed (use loop_up_reads [OF assms(1), of 0 f g s] assms(2) in \<open>simp add: vec_for_def\<close>)

section \<open>Loops that write through the pointer\<close>

definition write_turn :: "('a \<Rightarrow> 'a) \<Rightarrow> nat \<Rightarrow> ('a, unit) turn" where
  "write_turn g p i v s = of_option (do { x \<leftarrow> vec_get v p; v' \<leftarrow> vec_set v p (g x); Some (v', ()) })"

lemma write_turn_ok:
  assumes "vec_ok v" and "p < vlength v"
  shows "\<exists>v'. write_turn g p i v s = Done (v', ()) \<and> vec_ok v' \<and> vlength v' = vlength v
    \<and> vec_list v' = (vec_list v)[p := g (vec_list v ! p)]"
proof -
  obtain v' where v': "vec_set v p (g (vec_list v ! p)) = Some v'" "vec_ok v'"
      "vec_list v' = (vec_list v)[p := g (vec_list v ! p)]"
    using vec_set_ok [OF assms, of "g (vec_list v ! p)"] by blast
  then have "vlength v' = vlength v" using length_vec_list [OF assms(1)] length_vec_list [OF v'(2)] by simp
  then show ?thesis using v' assms by (simp add: write_turn_def vec_get_ok)
qed

lemma loop_up_writes:
  assumes "vec_ok v" and "vlength v - i \<le> f" and "i \<le> vlength v"
  shows "\<exists>v'. loop_up f (\<lambda>i. write_turn g i i) i v () = Done (v', ()) \<and> vec_ok v'
    \<and> vec_list v' = take i (vec_list v) @ map g (drop i (vec_list v))"
  using assms
proof (induction f arbitrary: i v)
  case (Suc f)
  show ?case
  proof (cases "i < vlength v")
    case True
    obtain w where w: "write_turn g i i v () = Done (w, ())" "vec_ok w" "vlength w = vlength v"
        "vec_list w = (vec_list v)[i := g (vec_list v ! i)]"
      using write_turn_ok [OF Suc.prems(1) True] by blast
    have len: "i < length (vec_list v)" using True length_vec_list [OF Suc.prems(1)] by simp
    have "vlength w - (i + 1) \<le> f" "i + 1 \<le> vlength w" using Suc.prems(2) True w(3) by simp_all
    from Suc.IH [OF w(2) this] obtain v' where v': "loop_up f (\<lambda>i. write_turn g i i) (i + 1) w () = Done (v', ())" "vec_ok v'"
        "vec_list v' = take (i + 1) (vec_list w) @ map g (drop (i + 1) (vec_list w))"
      by blast
    have "take i (vec_list v) @ map g (drop i (vec_list v)) = take (i + 1) (vec_list w) @ map g (drop (i + 1) (vec_list w))"
      using len by (simp add: w(4) take_update_append Cons_nth_drop_Suc [symmetric])
    then show ?thesis using True w(1) v' by (simp add: loop_up.simps)
  qed (use Suc.prems in \<open>simp add: loop_up.simps length_vec_list\<close>)
qed (simp add: loop_up.simps length_vec_list)

section \<open>Loops that remove elements\<close>

text \<open>A turn that splices the current element out, at index \<open>i - back\<close>, when \<open>P\<close> holds of it, and records it.\<close>

definition remove_turn :: "nat \<Rightarrow> ('a \<Rightarrow> bool) \<Rightarrow> 'a \<Rightarrow> ('a, 'a list) turn" where
  "remove_turn back P x i v s =
     (if P x then then_do (of_option (vec_splice v (i - back) 1)) (\<lambda>v'. Done (v', s @ [x])) else Done (v, s))"

lemma remove_turn_ok:
  assumes "vec_ok v" and "p < vlength v" and "p = i - back"
  shows "\<exists>v'. with_element back (remove_turn back P) i v s
      = Done (v', if P (vec_list v ! p) then s @ [vec_list v ! p] else s)
    \<and> vec_ok v' \<and> vec_list v' = (if P (vec_list v ! p) then take p (vec_list v) @ drop (p + 1) (vec_list v) else vec_list v)"
  using vec_splice_ok [OF assms(1), of p 1] assms
  by (auto simp: with_element_def remove_turn_def load_vec_list)

lemma loop_down_removes:
  assumes "vec_ok v" and "i \<le> vlength v"
  shows "\<exists>v'. loop_down (with_element 1 (remove_turn 1 P)) i v s = Done (v', s @ filter P (rev (take i (vec_list v))))
    \<and> vec_ok v' \<and> vec_list v' = filter (\<lambda>x. \<not> P x) (take i (vec_list v)) @ drop i (vec_list v)"
  using assms
proof (induction i arbitrary: v s)
  case (Suc i)
  let ?x = "vec_list v ! i"
  have len: "i < length (vec_list v)" using Suc.prems length_vec_list by fastforce
  obtain w where w: "with_element 1 (remove_turn 1 P) (Suc i) v s = Done (w, if P ?x then s @ [?x] else s)" "vec_ok w"
      "vec_list w = (if P ?x then take i (vec_list v) @ drop (i + 1) (vec_list v) else vec_list v)"
    using remove_turn_ok [OF Suc.prems(1), of i "Suc i" 1 P s] Suc.prems(2) by auto
  have "i \<le> vlength w" using w(2,3) len by (auto simp: length_vec_list [symmetric])
  from Suc.IH [OF w(2) this] obtain v' where
      v': "loop_down (with_element 1 (remove_turn 1 P)) i w (if P ?x then s @ [?x] else s)
        = Done (v', (if P ?x then s @ [?x] else s) @ filter P (rev (take i (vec_list w))))" "vec_ok v'"
      "vec_list v' = filter (\<lambda>x. \<not> P x) (take i (vec_list w)) @ drop i (vec_list w)"
    by blast
  have t: "take i (vec_list w) = take i (vec_list v)" using w(3) len by auto
  have d: "drop i (vec_list w) = (if P ?x then drop (Suc i) (vec_list v) else ?x # drop (Suc i) (vec_list v))"
    using w(3) len by (simp add: Cons_nth_drop_Suc)
  show ?case using w(1) v' len unfolding t d by (simp add: take_Suc_conv_app_nth)
qed simp

text \<open>What a removing loop upwards leaves: the element behind a removed one is never looked at.\<close>

fun skipping :: "('a \<Rightarrow> bool) \<Rightarrow> 'a list \<Rightarrow> 'a list" where
  "skipping P [] = []"
| "skipping P (x # xs) =
     (if P x then (case xs of [] \<Rightarrow> [] | y # ys \<Rightarrow> y # skipping P ys) else x # skipping P xs)"

lemma loop_up_removes:
  assumes "vec_ok v" and "vlength v - i \<le> f" and "i \<le> vlength v"
  shows "\<exists>v' s'. loop_up f (with_element 0 (remove_turn 0 P)) i v s = Done (v', s') \<and> vec_ok v'
    \<and> vec_list v' = take i (vec_list v) @ skipping P (drop i (vec_list v))"
  using assms
proof (induction f arbitrary: i v s)
  case (Suc f)
  show ?case
  proof (cases "i < vlength v")
    case True
    let ?x = "vec_list v ! i"
    have len: "i < length (vec_list v)" using True length_vec_list [OF Suc.prems(1)] by simp
    obtain w where w: "with_element 0 (remove_turn 0 P) i v s = Done (w, if P ?x then s @ [?x] else s)" "vec_ok w"
        "vec_list w = (if P ?x then take i (vec_list v) @ drop (i + 1) (vec_list v) else vec_list v)"
      using remove_turn_ok [OF Suc.prems(1) True, of i 0 P s] by auto
    have d: "drop i (vec_list v) = ?x # drop (i + 1) (vec_list v)" using len by (simp add: Cons_nth_drop_Suc)
    show ?thesis
    proof (cases "i + 1 \<le> vlength w")
      case inside: True
      have "vlength w - (i + 1) \<le> f"
        using w(2,3) len Suc.prems(1,2) by (auto simp: length_vec_list [symmetric])
      from Suc.IH [OF w(2) this inside] obtain v' s' where
        v': "loop_up f (with_element 0 (remove_turn 0 P)) (i + 1) w (if P ?x then s @ [?x] else s) = Done (v', s')" "vec_ok v'"
          "vec_list v' = take (i + 1) (vec_list w) @ skipping P (drop (i + 1) (vec_list w))"
        by blast
      have "vec_list v' = take i (vec_list v) @ skipping P (drop i (vec_list v))"
      proof (cases "P ?x")
        case True
        then have "vec_list w = take i (vec_list v) @ drop (i + 1) (vec_list v)" using w(3) by simp
        moreover obtain y ys where "drop (i + 1) (vec_list v) = y # ys"
          using inside w(2) calculation len by (cases "drop (i + 1) (vec_list v)") (auto simp: length_vec_list [symmetric])
        ultimately show ?thesis unfolding v'(3) d using True len by simp
      next
        case False
        then show ?thesis unfolding v'(3) d using w(3) len by (simp add: take_Suc_conv_app_nth)
      qed
      then show ?thesis using True w(1) v'(1,2) by (simp add: loop_up.simps)
    next
      case False
      then have last: "drop (i + 1) (vec_list v) = []" "P ?x"
        using w(2,3) len by (auto simp: length_vec_list [symmetric] split: if_splits)
      have "loop_up f (with_element 0 (remove_turn 0 P)) (i + 1) w (if P ?x then s @ [?x] else s)
          = Done (w, if P ?x then s @ [?x] else s)"
        using False by (simp add: loop_up.simps)
      then show ?thesis using True w last unfolding d by (simp add: loop_up.simps)
    qed
  qed (use Suc.prems in \<open>simp add: loop_up.simps length_vec_list\<close>)
qed (simp add: loop_up.simps length_vec_list)

section \<open>Sorting and searching\<close>

text \<open>
  The functions of the C library are arguments.  What is documented of them: with a consistent
  comparison \<open>qsort\<close> permutes the elements into ascending order, and \<open>bsearch\<close> gives the index of
  an element of an ascending array that compares equal to the key, if there is one.
\<close>

type_synonym 'a comparison = "'a \<Rightarrow> 'a \<Rightarrow> int"

definition ascending :: "'a comparison \<Rightarrow> 'a list \<Rightarrow> bool" where
  "ascending cmp = sorted_wrt (\<lambda>x y. cmp x y \<le> 0)"

definition consistent :: "'a comparison \<Rightarrow> bool" where
  "consistent cmp \<longleftrightarrow> (\<forall>x y. sgn (cmp x y) = - sgn (cmp y x))
     \<and> (\<forall>x y z. cmp x y \<le> 0 \<longrightarrow> cmp y z \<le> 0 \<longrightarrow> cmp x z \<le> 0)"

definition qsort_sorts :: "('a comparison \<Rightarrow> 'a list \<Rightarrow> 'a list) \<Rightarrow> bool" where
  "qsort_sorts qsort \<longleftrightarrow>
     (\<forall>cmp xs. consistent cmp \<longrightarrow> mset (qsort cmp xs) = mset xs \<and> ascending cmp (qsort cmp xs))"

definition bsearch_finds :: "('a comparison \<Rightarrow> 'a \<Rightarrow> 'a list \<Rightarrow> nat option) \<Rightarrow> bool" where
  "bsearch_finds bsearch \<longleftrightarrow> (\<forall>cmp key xs. consistent cmp \<and> ascending cmp xs \<longrightarrow>
     (case bsearch cmp key xs of
        None \<Rightarrow> \<forall>x \<in> set xs. cmp key x \<noteq> 0
      | Some i \<Rightarrow> i < length xs \<and> cmp key (xs ! i) = 0))"

definition vec_sort :: "('a comparison \<Rightarrow> 'a list \<Rightarrow> 'a list) \<Rightarrow> 'a vec \<Rightarrow> 'a comparison \<Rightarrow> 'a vec option" where
  "vec_sort qsort v fn =
     (if vlength v \<le> length (vdata v)
      then Some (v\<lparr>vdata := qsort fn (take (vlength v) (vdata v)) @ drop (vlength v) (vdata v)\<rparr>) else None)"

definition vec_bsearch :: "('a comparison \<Rightarrow> 'a \<Rightarrow> 'a list \<Rightarrow> nat option) \<Rightarrow> 'a vec \<Rightarrow> 'a \<Rightarrow> 'a comparison \<Rightarrow> int option" where
  "vec_bsearch bsearch v key fn =
     (if vlength v \<le> length (vdata v)
      then Some (case bsearch fn key (take (vlength v) (vdata v)) of Some i \<Rightarrow> int i | None \<Rightarrow> - 1) else None)"

lemma sort_then_search:
  assumes v: "vec_ok v" and q: "qsort_sorts qsort" and b: "bsearch_finds bsearch" and c: "consistent cmp"
  shows "\<exists>v' i. vec_sort qsort v cmp = Some v' \<and> vec_ok v' \<and> mset (vec_list v') = mset (vec_list v)
    \<and> ascending cmp (vec_list v') \<and> drop (vlength v) (vdata v') = drop (vlength v) (vdata v)
    \<and> vec_bsearch bsearch v' key cmp = Some i \<and> (i = - 1 \<longleftrightarrow> (\<forall>x \<in> set (vec_list v). cmp key x \<noteq> 0))
    \<and> (i \<noteq> - 1 \<longrightarrow> 0 \<le> i \<and> nat i < vlength v \<and> cmp key (vec_list v' ! nat i) = 0)"
proof -
  let ?l = "qsort cmp (vec_list v)" and ?v = "v\<lparr>vdata := qsort cmp (vec_list v) @ drop (vlength v) (vdata v)\<rparr>"
  have le: "vlength v \<le> length (vdata v)" using v by (simp add: vec_ok_def)
  have s: "mset ?l = mset (vec_list v)" "ascending cmp ?l" using q c by (simp_all add: qsort_sorts_def)
  have len: "length ?l = vlength v" using mset_eq_length [OF s(1)] length_vec_list [OF v] by simp
  have l: "vec_list ?v = ?l" using len by (simp add: vec_list_def)
  have sort: "vec_sort qsort v cmp = Some ?v" using le by (simp add: vec_sort_def vec_list_def)
  have f: "case bsearch cmp key ?l of None \<Rightarrow> \<forall>x \<in> set ?l. cmp key x \<noteq> 0 | Some i \<Rightarrow> i < length ?l \<and> cmp key (?l ! i) = 0"
    using b c s(2) by (simp add: bsearch_finds_def)
  let ?i = "case bsearch cmp key ?l of Some i \<Rightarrow> int i | None \<Rightarrow> - 1"
  have "vec_bsearch bsearch ?v key cmp = Some ?i" using len by (simp add: vec_bsearch_def)
  moreover have "?i = - 1 \<longleftrightarrow> (\<forall>x \<in> set (vec_list v). cmp key x \<noteq> 0)"
    using f mset_eq_setD [OF s(1)] by (auto split: option.splits)
  moreover have "?i \<noteq> - 1 \<longrightarrow> 0 \<le> ?i \<and> nat ?i < vlength v \<and> cmp key (vec_list ?v ! nat ?i) = 0"
    using f len unfolding l by (auto split: option.splits)
  moreover have "vec_ok ?v" using v len by (simp add: vec_ok_def)
  ultimately show ?thesis using sort s l len by (intro exI [of _ ?v] exI [of _ ?i]) simp
qed

section \<open>Properties\<close>

text \<open>
  C28: Elements may be removed from the vector a loop runs over when it runs downwards: the loop
  removes exactly the elements for which the test holds, each seen once, last first.  Upwards
  the same loop ends too, but the element behind each removed one is skipped and stays.
\<close>
theorem removing_while_iterating:
  assumes "vec_ok v" and "vlength v \<le> f"
  shows "(\<exists>v'. vec_for_rev v (remove_turn 1 P) [] = Done (v', filter P (rev (vec_list v)))
        \<and> vec_list v' = filter (\<lambda>x. \<not> P x) (vec_list v))
    \<and> (\<exists>v' s. vec_for f v (remove_turn 0 P) [] = Done (v', s) \<and> vec_list v' = skipping P (vec_list v))"
proof (cases "vlength v = 0")
  case True
  then have "vec_list v = []" using length_vec_list [OF assms(1)] by simp
  then show ?thesis using True by (simp add: vec_for_rev_def vec_for_def)
next
  case False
  then show ?thesis
    using loop_down_removes [OF assms(1), of "vlength v" P "[]"] loop_up_removes [OF assms(1), of 0 f P "[]"] assms(2)
      length_vec_list [OF assms(1)]
    by (auto simp: vec_for_rev_def vec_for_def)
qed

theorem removing_while_iterating_witness:
  "(\<exists>v. vec_for_rev sample (remove_turn 1 (\<lambda>x. 11 \<le> x)) [] = Done (v, [14, 13, 12, 11]) \<and> vec_list v = [10])
   \<and> (\<exists>v s. vec_for 5 sample (remove_turn 0 (\<lambda>x. 11 \<le> x)) [] = Done (v, s) \<and> vec_list v = [10, 12, 14])"
  using removing_while_iterating [OF sample_ok(1), of 5 "\<lambda>x. 11 \<le> x"] unfolding sample_ok(2) by simp

text \<open>
  A loop whose body leaves the vector alone is a fold over its elements with their indices,
  and one that writes through the pointer maps the elements in place; both end after one turn
  an element.
\<close>
theorem loops_visit_all:
  assumes "vec_ok v" and "vlength v \<le> f"
  shows "vec_for f v (\<lambda>x i v s. then_do (g x i s) (\<lambda>s'. Done (v, s'))) s
      = then_do (fold_do g 0 (vec_list v) s) (\<lambda>s'. Done (v, s'))
    \<and> (\<exists>v'. vec_for_ptr f v (write_turn h) () = Done (v', ()) \<and> vec_list v' = map h (vec_list v))"
proof (cases "vlength v = 0")
  case True
  then have "vec_list v = []" using length_vec_list [OF assms(1)] by simp
  then show ?thesis using True by (simp add: vec_for_def vec_for_ptr_def)
next
  case False
  then show ?thesis using vec_for_reads [OF assms] loop_up_writes [OF assms(1), of 0 f h] assms(2)
    by (auto simp: vec_for_ptr_def)
qed

theorem loops_visit_all_witness:
  "vec_for 5 sample (\<lambda>x i v s. then_do (Done (s + i * x)) (\<lambda>s'. Done (v, s'))) 0 = Done (sample, 130)
   \<and> (\<exists>v'. vec_for_ptr 5 sample (write_turn Suc) () = Done (v', ()) \<and> vec_list v' = [11, 12, 13, 14, 15])"
  using loops_visit_all [OF sample_ok(1), of 5 "\<lambda>x i s. Done (s + i * x)" 0 Suc] unfolding sample_ok(2)
  by simp

end
