(* ===== verification/Vec_View.thy ===== *)
theory Vec_View
  imports Vec
begin

text \<open>
  The vectors of \<open>csrc/include/rxi/vec.h\<close> over an explicit store of memory blocks, where two of
  them may share one: slices, vectors over static or stack memory, and vectors in blocks of
  their own.  \<open>data\<close> is a block with an offset, or \<open>None\<close> for the null pointer.  A growing
  vector refines the operations of \<open>Vec\<close>, which carry the contents with them, and touches no
  other block; a slice writes through to the vector it was taken from until it grows.
\<close>

section \<open>Store and views\<close>

text \<open>Blocks in use, by number, and the first number never used.\<close>

record 'a store =
  blocks :: "nat \<Rightarrow> 'a list option"
  fresh :: nat

record view =
  wborrowed :: bool
  wlength :: nat
  wcapacity :: nat
  wdata :: "(nat \<times> nat) option"

text \<open>The memory from \<open>data\<close> on; nothing behind the null pointer.\<close>

definition behind :: "'a store \<Rightarrow> (nat \<times> nat) option \<Rightarrow> 'a list option" where
  "behind h p =
     (case p of
        None \<Rightarrow> Some []
      | Some (b, off) \<Rightarrow> Option.bind (blocks h b) (\<lambda>d. if off \<le> length d then Some (drop off d) else None))"

definition view_get :: "'a store \<Rightarrow> view \<Rightarrow> nat \<Rightarrow> 'a option" where
  "view_get h w i = Option.bind (behind h (wdata w)) (\<lambda>d. load d i)"

definition view_set :: "'a store \<Rightarrow> view \<Rightarrow> nat \<Rightarrow> 'a \<Rightarrow> 'a store option" where
  "view_set h w i x =
     (case wdata w of
        None \<Rightarrow> None
      | Some (b, off) \<Rightarrow> do {
          d \<leftarrow> blocks h b;
          d' \<leftarrow> store d (off + i) x;
          Some (h\<lparr>blocks := (blocks h)(b \<mapsto> d')\<rparr>) })"

definition new_block :: "'a store \<Rightarrow> 'a list \<Rightarrow> nat \<times> 'a store" where
  "new_block h d = (fresh h, \<lparr>blocks = (blocks h)(fresh h \<mapsto> d), fresh = fresh h + 1\<rparr>)"

text \<open>\<open>VEC_FREE\<close>: of the null pointer, or of the start of a block.\<close>

definition free_block :: "'a store \<Rightarrow> (nat \<times> nat) option \<Rightarrow> 'a store option" where
  "free_block h p =
     (case p of
        None \<Rightarrow> Some h
      | Some (b, off) \<Rightarrow>
          if off = 0 \<and> blocks h b \<noteq> None then Some (h\<lparr>blocks := (blocks h)(b := None)\<rparr>) else None)"

section \<open>Initialisers\<close>

definition view_init :: view where
  "view_init = \<lparr>wborrowed = False, wlength = 0, wcapacity = 0, wdata = None\<rparr>"

text \<open>A difference of \<open>size_t\<close> values.\<close>

definition size_minus :: "nat \<Rightarrow> nat \<Rightarrow> nat" where
  "size_minus a b = (if b \<le> a then a - b else (size_max + a - b) mod size_max)"

definition view_slice :: "view \<Rightarrow> nat \<Rightarrow> nat \<Rightarrow> view" where
  "view_slice v start stop =
     (let n = size_minus stop start
      in \<lparr>wborrowed = True, wlength = n, wcapacity = n,
          wdata = (if n \<le> wcapacity v then map_option (\<lambda>(b, off). (b, off + start)) (wdata v) else None)\<rparr>)"

text \<open>
  The macros for memory of the caller, here block \<open>b\<close>: the static ones take \<open>sizeof\<close>, the
  number of bytes of its \<open>n\<close> elements.
\<close>

definition view_borrowed :: "nat \<Rightarrow> nat \<Rightarrow> nat \<Rightarrow> view" where
  "view_borrowed b len cap = \<lparr>wborrowed = True, wlength = len, wcapacity = cap, wdata = Some (b, 0)\<rparr>"

definition view_static :: "'a allocator \<Rightarrow> nat \<Rightarrow> nat \<Rightarrow> view" where
  "view_static A b n = view_borrowed b (n * memsz A) (n * memsz A)"

definition view_borrowed_static :: "'a allocator \<Rightarrow> nat \<Rightarrow> nat \<Rightarrow> view" where
  "view_borrowed_static A b n = view_borrowed b 0 (n * memsz A)"

definition view_alloca :: "'a allocator \<Rightarrow> 'a store \<Rightarrow> nat \<Rightarrow> view \<times> 'a store" where
  "view_alloca A h len =
     (let (b, h') = new_block h (map (junk A) [0..<len]) in (view_borrowed b 0 len, h'))"

section \<open>Growing and appending\<close>

text \<open>
  An owned block is reallocated: what it held is moved to a new block and pointers into the old
  one are dead.  A borrowed one is left as it is and \<open>length\<close> bytes are copied.
\<close>

definition view_grow :: "'a allocator \<Rightarrow> 'a store \<Rightarrow> view \<Rightarrow> nat \<Rightarrow> (rc \<times> 'a store \<times> view) option" where
  "view_grow A h w n =
     (let bytes = (n * memsz A) mod size_max; m = bytes div memsz A
      in if \<not> avail A bytes then Some (RC_ERR, h, w)
         else do {
           d \<leftarrow> behind h (wdata w);
           let old = (if wborrowed w then take (wlength w div memsz A) d else d);
           h' \<leftarrow> (if wborrowed w then Some h else free_block h (wdata w));
           let (b, h'') = new_block h' (take m old @ map (junk A) [length old..<m]);
           Some (RC_OK, h'', w\<lparr>wdata := Some (b, 0), wcapacity := n, wborrowed := False\<rparr>) })"

definition view_expand :: "'a allocator \<Rightarrow> 'a store \<Rightarrow> view \<Rightarrow> (rc \<times> 'a store \<times> view) option" where
  "view_expand A h w =
     (if wlength w + 1 > wcapacity w
      then view_grow A h w (if wcapacity w = 0 then 1 else (2 * wcapacity w) mod size_max)
      else Some (RC_OK, h, w))"

definition view_reserve :: "'a allocator \<Rightarrow> 'a store \<Rightarrow> view \<Rightarrow> nat \<Rightarrow> (rc \<times> 'a store \<times> view) option" where
  "view_reserve A h w n = (if n > wcapacity w then view_grow A h w n else Some (RC_OK, h, w))"

definition view_push :: "'a allocator \<Rightarrow> 'a store \<Rightarrow> view \<Rightarrow> 'a \<Rightarrow> (rc \<times> 'a store \<times> view) option" where
  "view_push A h w x = do {
     (r, h', w') \<leftarrow> view_expand A h w;
     if r = RC_ERR then Some (RC_ERR, h', w')
     else do { h'' \<leftarrow> view_set h' w' (wlength w') x; Some (RC_OK, h'', w'\<lparr>wlength := wlength w' + 1\<rparr>) } }"

definition view_clear :: "view \<Rightarrow> view" where
  "view_clear w = w\<lparr>wlength := 0\<rparr>"

definition view_deinit :: "'a store \<Rightarrow> view \<Rightarrow> ('a store \<times> view) option" where
  "view_deinit h w =
     (if wborrowed w then Some (h, view_init) else map_option (\<lambda>h'. (h', view_init)) (free_block h (wdata w)))"

text \<open>A client that appends a list with \<open>vec_push\<close>, stopping at an error.\<close>

fun view_push_list :: "'a allocator \<Rightarrow> 'a store \<Rightarrow> view \<Rightarrow> 'a list \<Rightarrow> (rc \<times> 'a store \<times> view) option" where
  "view_push_list A h w [] = Some (RC_OK, h, w)"
| "view_push_list A h w (x # xs) = do {
     (r, h', w') \<leftarrow> view_push A h w x;
     if r = RC_ERR then Some (RC_ERR, h', w') else view_push_list A h' w' xs }"

section \<open>Abstraction to a vector with its contents\<close>

definition vec_of :: "'a store \<Rightarrow> view \<Rightarrow> 'a vec" where
  "vec_of h w = \<lparr>borrowed = wborrowed w, vlength = wlength w, vcapacity = wcapacity w,
     vdata = the (behind h (wdata w))\<rparr>"

text \<open>A pointer to live memory; an owned one to the start of its block.\<close>

definition view_ok :: "'a store \<Rightarrow> view \<Rightarrow> bool" where
  "view_ok h w \<longleftrightarrow> behind h (wdata w) \<noteq> None \<and> (\<forall>b \<ge> fresh h. blocks h b = None)
     \<and> (\<not> wborrowed w \<longrightarrow> (case wdata w of None \<Rightarrow> True | Some (b, off) \<Rightarrow> off = 0))"

definition view_block :: "view \<Rightarrow> nat set" where
  "view_block w = (case wdata w of None \<Rightarrow> {} | Some (b, _) \<Rightarrow> {b})"

text \<open>What a step does to the store: blocks of others stay, and a block of its own is not one of theirs.\<close>

definition others_kept :: "'a store \<Rightarrow> view \<Rightarrow> 'a store \<Rightarrow> view \<Rightarrow> bool" where
  "others_kept h w h' w' \<longleftrightarrow> (\<forall>b. b \<notin> view_block w \<and> blocks h b \<noteq> None \<longrightarrow> blocks h' b = blocks h b)
     \<and> (\<forall>b \<in> view_block w'. b \<in> view_block w \<or> blocks h b = None)"

lemma others_kept_refl [simp]: "others_kept h w h w"
  by (simp add: others_kept_def)

lemma view_ok_cases:
  assumes "view_ok h w"
  obtains "wdata w = None" | b off d where "wdata w = Some (b, off)" "blocks h b = Some d" "off \<le> length d" "b < fresh h"
    "\<not> wborrowed w \<Longrightarrow> off = 0"
proof (cases "wdata w")
  case (Some p)
  obtain b off where p: "wdata w = Some (b, off)" using Some by (cases p) auto
  then obtain d where d: "blocks h b = Some d" "off \<le> length d"
    using assms by (auto simp: view_ok_def behind_def bind_eq_None_conv split: if_splits)
  moreover have "b < fresh h" using assms d(1) by (auto simp: view_ok_def not_less [symmetric])
  moreover have "\<not> wborrowed w \<Longrightarrow> off = 0" using assms p by (simp add: view_ok_def)
  ultimately show thesis using that(2) p by blast
qed (use that in simp)

lemma view_grow_refines:
  assumes ok: "view_ok h w"
  shows "\<exists>r h' w'. view_grow A h w n = Some (r, h', w') \<and> view_ok h' w' \<and> others_kept h w h' w'
    \<and> vec_grow A 1 (vec_of h w) n = (r, vec_of h' w')
    \<and> (wborrowed w \<longrightarrow> (\<forall>b. blocks h b \<noteq> None \<longrightarrow> blocks h' b = blocks h b))"
proof -
  let ?bytes = "(n * memsz A) mod size_max"
  have free: "blocks h b = None" if "fresh h \<le> b" for b using ok that by (simp add: view_ok_def)
  show ?thesis
  proof (cases "avail A ?bytes")
    case av: True
    from ok show ?thesis
    proof (cases rule: view_ok_cases)
      case 1
      then show ?thesis using av free
        by (auto simp: view_grow_def vec_grow_def Let_def behind_def free_block_def new_block_def vec_of_def view_ok_def
            others_kept_def view_block_def)
    next
      case (2 b off d)
      then show ?thesis using av free
        by (cases "wborrowed w") (auto simp: view_grow_def vec_grow_def Let_def behind_def free_block_def new_block_def
            vec_of_def view_ok_def others_kept_def view_block_def)
    qed
  qed (use ok in \<open>simp add: view_grow_def vec_grow_def Let_def\<close>)
qed

lemma view_set_refines:
  assumes ok: "view_ok h w"
  shows "vec_set (vec_of h w) i x = map_option (\<lambda>h'. vec_of h' w) (view_set h w i x)"
    and "view_set h w i x = Some h' \<Longrightarrow> view_ok h' w \<and> others_kept h w h' w \<and> fresh h' = fresh h"
proof -
  from ok show "vec_set (vec_of h w) i x = map_option (\<lambda>h'. vec_of h' w) (view_set h w i x)"
  proof (cases rule: view_ok_cases)
    case (2 b off d)
    then show ?thesis
      by (auto simp: vec_set_def view_set_def vec_of_def behind_def store_def drop_update_swap)
  qed (simp add: vec_set_def view_set_def vec_of_def behind_def store_def)
  show "view_ok h' w \<and> others_kept h w h' w \<and> fresh h' = fresh h" if "view_set h w i x = Some h'"
    using ok
  proof (cases rule: view_ok_cases)
    case (2 b off d)
    then show ?thesis using that ok
      by (auto simp: view_set_def store_def view_ok_def behind_def others_kept_def view_block_def split: if_splits)
  qed (use that in \<open>simp add: view_set_def\<close>)
qed

lemma others_kept_trans:
  assumes a: "others_kept h w h1 w1" and b: "others_kept h1 w1 h2 w2"
  shows "others_kept h w h2 w2"
proof -
  have "blocks h2 b = blocks h b" if "b \<notin> view_block w" "blocks h b \<noteq> None" for b
  proof -
    have "blocks h1 b = blocks h b" "b \<notin> view_block w1" using a that by (auto simp: others_kept_def)
    then show ?thesis using b that(2) by (simp add: others_kept_def)
  qed
  moreover have "b \<in> view_block w \<or> blocks h b = None" if "b \<in> view_block w2" for b
    using a b that unfolding others_kept_def by metis
  ultimately show ?thesis by (simp add: others_kept_def)
qed

lemma view_expand_refines:
  assumes ok: "view_ok h w"
  shows "\<exists>r h' w'. view_expand A h w = Some (r, h', w') \<and> view_ok h' w' \<and> others_kept h w h' w'
    \<and> vec_expand A 1 (vec_of h w) = (r, vec_of h' w')"
proof -
  have v: "vlength (vec_of h w) = wlength w" "vcapacity (vec_of h w) = wcapacity w" by (simp_all add: vec_of_def)
  show ?thesis
  proof (cases "wlength w + 1 > wcapacity w")
    case True
    obtain r h' w' where "view_grow A h w (if wcapacity w = 0 then 1 else (2 * wcapacity w) mod size_max) = Some (r, h', w')"
        "view_ok h' w'" "others_kept h w h' w'"
        "vec_grow A 1 (vec_of h w) (if wcapacity w = 0 then 1 else (2 * wcapacity w) mod size_max) = (r, vec_of h' w')"
      using view_grow_refines [OF ok] by blast
    then show ?thesis using True
      by (intro exI [of _ r] exI [of _ h'] exI [of _ w']) (simp only: view_expand_def vec_expand_def v if_True simp_thms)
  next
    case False
    then show ?thesis using ok by (simp add: view_expand_def vec_expand_def v)
  qed
qed

lemma view_push_refines:
  assumes ok: "view_ok h w"
  shows "vec_push A (vec_of h w) x = map_option (\<lambda>(r, h', w'). (r, vec_of h' w')) (view_push A h w x)"
    and "view_push A h w x = Some (r, h', w') \<Longrightarrow> view_ok h' w' \<and> others_kept h w h' w'"
proof -
  obtain r1 h1 w1 where e: "view_expand A h w = Some (r1, h1, w1)" "view_ok h1 w1" "others_kept h w h1 w1"
      "vec_expand A 1 (vec_of h w) = (r1, vec_of h1 w1)"
    using view_expand_refines [OF ok] by blast
  have l: "vlength (vec_of h1 w1) = wlength w1" by (simp add: vec_of_def)
  have s: "vec_append1 (vec_of h1 w1) x
      = map_option (\<lambda>h'. vec_of h' (w1\<lparr>wlength := wlength w1 + 1\<rparr>)) (view_set h1 w1 (wlength w1) x)"
    using view_set_refines(1) [OF e(2), of "wlength w1" x] unfolding vec_append1_def vec_set_def l
    by (cases "store (vdata (vec_of h1 w1)) (wlength w1) x"; cases "view_set h1 w1 (wlength w1) x") (auto simp: vec_of_def)
  show "vec_push A (vec_of h w) x = map_option (\<lambda>(r, h', w'). (r, vec_of h' w')) (view_push A h w x)"
    by (cases r1; cases "view_set h1 w1 (wlength w1) x") (simp_all add: vec_push_def view_push_def e(1,4) s del: One_nat_def)
  show "view_ok h' w' \<and> others_kept h w h' w'" if p: "view_push A h w x = Some (r, h', w')"
  proof (cases "r1 = RC_ERR")
    case True
    then show ?thesis using p e(1-3) by (simp add: view_push_def)
  next
    case False
    then obtain h2 where h2: "view_set h1 w1 (wlength w1) x = Some h2" "h' = h2" "w' = w1\<lparr>wlength := wlength w1 + 1\<rparr>"
      using p e(1) by (auto simp: view_push_def bind_eq_Some_conv)
    note k = view_set_refines(2) [OF e(2) h2(1)]
    have "view_ok h' w'" "others_kept h1 w1 h' w'"
      using k by (simp_all add: h2(2,3) view_ok_def others_kept_def view_block_def)
    then show ?thesis using others_kept_trans [OF e(3)] by blast
  qed
qed

section \<open>Appending inside the capacity\<close>

lemma view_push_in_place:
  assumes "wdata w = Some (b, off)" and "blocks h b = Some d" and "off + wcapacity w \<le> length d"
    and "wlength w < wcapacity w"
  shows "view_push A h w x = Some (RC_OK, h\<lparr>blocks := (blocks h)(b \<mapsto> d[off + wlength w := x])\<rparr>, w\<lparr>wlength := wlength w + 1\<rparr>)"
  using assms by (simp add: view_push_def view_expand_def view_set_def store_def)

lemma view_push_list_in_place:
  assumes "wdata w = Some (b, off)" and "blocks h b = Some d" and "off + wcapacity w \<le> length d"
    and "wlength w + length xs \<le> wcapacity w"
  shows "view_push_list A h w xs = Some (RC_OK,
      h\<lparr>blocks := (blocks h)(b \<mapsto> take (off + wlength w) d @ xs @ drop (off + wlength w + length xs) d)\<rparr>,
      w\<lparr>wlength := wlength w + length xs\<rparr>)"
  using assms
proof (induction xs arbitrary: h w d)
  case Nil
  then have "(blocks h)(b \<mapsto> d) = blocks h" by (simp add: fun_upd_idem)
  then show ?case by (simp del: fun_upd_apply)
next
  case (Cons x xs)
  let ?i = "off + wlength w" and ?h = "h\<lparr>blocks := (blocks h)(b \<mapsto> d[off + wlength w := x])\<rparr>"
  let ?w = "w\<lparr>wlength := wlength w + 1\<rparr>"
  have i: "?i < length d" using Cons.prems(3,4) by simp
  have p: "view_push A h w x = Some (RC_OK, ?h, ?w)"
    using Cons.prems by (intro view_push_in_place) simp_all
  have "view_push_list A ?h ?w xs = Some (RC_OK,
      ?h\<lparr>blocks := (blocks ?h)(b \<mapsto> take (off + wlength ?w) (d[?i := x]) @ xs @ drop (off + wlength ?w + length xs) (d[?i := x]))\<rparr>,
      ?w\<lparr>wlength := wlength ?w + length xs\<rparr>)"
    using Cons.prems by (intro Cons.IH) simp_all
  moreover have "take (off + wlength ?w) (d[?i := x]) = take ?i d @ [x]"
    using take_update_append [OF i, of x] by simp
  ultimately show ?case using p by (simp del: fun_upd_apply)
qed

section \<open>Slices\<close>

text \<open>An owned vector with its block.\<close>

definition owns :: "'a store \<Rightarrow> view \<Rightarrow> nat \<Rightarrow> 'a list \<Rightarrow> bool" where
  "owns h v b d \<longleftrightarrow> view_ok h v \<and> \<not> wborrowed v \<and> wdata v = Some (b, 0) \<and> blocks h b = Some d
     \<and> wcapacity v = length d \<and> wlength v \<le> length d"

lemma vec_of_owns: "owns h v b d \<Longrightarrow> vec_of h v = \<lparr>borrowed = False, vlength = wlength v, vcapacity = length d, vdata = d\<rparr>"
  by (simp add: owns_def vec_of_def behind_def)

lemma slice_pointer:
  assumes "owns h v b d" and "start \<le> stop" and "stop \<le> wlength v"
  shows "view_slice v start stop
    = \<lparr>wborrowed = True, wlength = stop - start, wcapacity = stop - start, wdata = Some (b, start)\<rparr>"
  using assms by (auto simp: view_slice_def size_minus_def owns_def Let_def)

lemma slice_ok:
  assumes "owns h v b d" and "start \<le> stop" and "stop \<le> wlength v"
  shows "view_ok h (view_slice v start stop)"
    and "vec_of h (view_slice v start stop)
      = \<lparr>borrowed = True, vlength = stop - start, vcapacity = stop - start, vdata = drop start d\<rparr>"
  unfolding slice_pointer [OF assms] using assms by (auto simp: owns_def view_ok_def behind_def vec_of_def)

lemma slice_shares:
  assumes v: "owns h v b d" and s: "start \<le> stop" "stop \<le> wlength v"
  shows "length xs \<le> stop - start \<Longrightarrow>
      \<exists>h' w. view_push_list A h (view_clear (view_slice v start stop)) xs = Some (RC_OK, h', w)
        \<and> vec_list (vec_of h' w) = xs
        \<and> vec_list (vec_of h' v) = take start (vec_list (vec_of h v)) @ xs @ drop (start + length xs) (vec_list (vec_of h v))"
    and "start < stop \<Longrightarrow> 0 < memsz A \<Longrightarrow> 2 * (stop - start) * memsz A < size_max \<Longrightarrow> avail A (2 * (stop - start) * memsz A) \<Longrightarrow>
      \<exists>h' w. view_push A h (view_slice v start stop) x = Some (RC_OK, h', w)
        \<and> vec_list (vec_of h' v) = vec_list (vec_of h v)
        \<and> vec_list (vec_of h' w) = take ((stop - start) div memsz A) (drop start (vec_list (vec_of h v)))
            @ map (junk A) [(stop - start) div memsz A..<stop - start] @ [x]"
proof -
  note sl = slice_pointer [OF v s]
  have o: "\<not> wborrowed v" "wdata v = Some (b, 0)" "blocks h b = Some d" "wcapacity v = length d" "wlength v \<le> length d"
      "view_ok h v"
    using v by (simp_all add: owns_def)
  have lv: "vec_list (vec_of h v) = take (wlength v) d" by (simp add: vec_of_owns [OF v] vec_list_def)
  let ?n = "stop - start"
  show "\<exists>h' w. view_push_list A h (view_clear (view_slice v start stop)) xs = Some (RC_OK, h', w)
        \<and> vec_list (vec_of h' w) = xs
        \<and> vec_list (vec_of h' v) = take start (vec_list (vec_of h v)) @ xs @ drop (start + length xs) (vec_list (vec_of h v))"
    if len: "length xs \<le> ?n"
  proof -
    let ?w = "view_clear (view_slice v start stop)" and ?d = "take start d @ xs @ drop (start + length xs) d"
    have "view_push_list A h ?w xs = Some (RC_OK,
        h\<lparr>blocks := (blocks h)(b \<mapsto> take (start + wlength ?w) d @ xs @ drop (start + wlength ?w + length xs) d)\<rparr>,
        ?w\<lparr>wlength := wlength ?w + length xs\<rparr>)"
      by (rule view_push_list_in_place) (use o s len in \<open>simp_all add: sl view_clear_def\<close>)
    then have p: "view_push_list A h ?w xs = Some (RC_OK, h\<lparr>blocks := (blocks h)(b \<mapsto> ?d)\<rparr>, ?w\<lparr>wlength := length xs\<rparr>)"
      by (simp add: sl view_clear_def del: fun_upd_apply)
    have l: "start + length xs \<le> wlength v" using len s by simp
    have "vec_list (vec_of (h\<lparr>blocks := (blocks h)(b \<mapsto> ?d)\<rparr>) (?w\<lparr>wlength := length xs\<rparr>)) = xs"
      using o(5) l by (simp add: vec_list_def vec_of_def behind_def sl view_clear_def)
    moreover have "vec_list (vec_of (h\<lparr>blocks := (blocks h)(b \<mapsto> ?d)\<rparr>) v)
        = take start (vec_list (vec_of h v)) @ xs @ drop (start + length xs) (vec_list (vec_of h v))"
      unfolding lv using o(2,5) l by (simp add: vec_list_def vec_of_def behind_def drop_take min.absorb1 min.absorb2)
    ultimately show ?thesis using p by blast
  qed
  show "\<exists>h' w. view_push A h (view_slice v start stop) x = Some (RC_OK, h', w)
        \<and> vec_list (vec_of h' v) = vec_list (vec_of h v)
        \<and> vec_list (vec_of h' w) = take (?n div memsz A) (drop start (vec_list (vec_of h v)))
            @ map (junk A) [?n div memsz A..<?n] @ [x]"
    if a: "start < stop" "0 < memsz A" "2 * ?n * memsz A < size_max" "avail A (2 * ?n * memsz A)"
  proof -
    let ?w = "view_slice v start stop" and ?k = "?n div memsz A"
    let ?e = "take ?k (drop start d) @ map (junk A) [?k..<2 * ?n]"
    have "2 * ?n \<le> 2 * ?n * memsz A" using a(2) by simp
    then have m: "2 * ?n < size_max" using a(3) by linarith
    have k: "?k \<le> ?n" "?k \<le> length d - start" using s o(5) div_le_dividend [of ?n "memsz A"] by linarith+
    have kn: "\<not> 2 * ?n \<le> ?k" using k(1) a(1) by linarith
    let ?h = "\<lparr>blocks = (blocks h)(fresh h \<mapsto> ?e), fresh = fresh h + 1\<rparr>"
    have g: "view_expand A h ?w = Some (RC_OK, ?h, ?w\<lparr>wdata := Some (fresh h, 0), wcapacity := 2 * ?n, wborrowed := False\<rparr>)"
      using a m k kn o(3,5) s by (simp add: view_expand_def view_grow_def sl Let_def behind_def new_block_def min_def mult.commute)
    have le: "length ?e = 2 * ?n" using k kn by (simp add: min_def)
    have nb: "blocks h (fresh h) = None" using o(6) by (simp add: view_ok_def)
    let ?h' = "\<lparr>blocks = (blocks h)(fresh h \<mapsto> ?e[?n := x]), fresh = fresh h + 1\<rparr>"
    let ?w' = "\<lparr>wborrowed = False, wlength = ?n + 1, wcapacity = 2 * ?n, wdata = Some (fresh h, 0)\<rparr>"
    have p: "view_push A h ?w x = Some (RC_OK, ?h', ?w')"
      using a(1) le unfolding view_push_def g by (simp add: sl view_set_def store_def del: One_nat_def)
    have bn: "b \<noteq> fresh h" using nb o(3) by auto
    have "vec_list (vec_of ?h' v) = vec_list (vec_of h v)"
      unfolding lv using o(2,3) bn by (simp add: vec_list_def vec_of_def behind_def)
    moreover have "take (Suc ?n) (?e[?n := x]) = take ?n ?e @ [x]"
      by (rule take_update_append) (use le a(1) in simp)
    then have "vec_list (vec_of ?h' ?w') = take ?n ?e @ [x]"
      by (simp add: vec_list_def vec_of_def behind_def)
    moreover have "take ?n ?e = take ?k (drop start (vec_list (vec_of h v))) @ map (junk A) [?k..<?n]"
    proof -
      have lk: "length (take ?k (drop start d)) = ?k" using k(2) by simp
      have t1: "take ?n (take ?k (drop start d)) = take ?k (drop start d)" using k(1) by (simp add: min.absorb2)
      have t2: "take (?n - ?k) (map (junk A) [?k..<2 * ?n]) = map (junk A) [?k..<?n]"
      proof -
        have "?k + (?n - ?k) \<le> 2 * ?n" "?k + (?n - ?k) = ?n" using k(1) by linarith+
        from take_upt [OF this(1)] this(2) show ?thesis unfolding take_map by (simp only:)
      qed
      have "?k \<le> wlength v - start" using k(1) s by linarith
      then have t3: "take ?k (drop start (take (wlength v) d)) = take ?k (drop start d)"
        by (simp add: drop_take min.absorb1)
      show ?thesis unfolding lv take_append lk t1 t2 t3 ..
    qed
    ultimately show ?thesis using p by (intro exI [of _ ?h'] exI [of _ ?w']) (simp only: append_assoc simp_thms)
  qed
qed

section \<open>Properties\<close>

text \<open>
  C26: \<open>vec_push\<close> on memory blocks, which may be shared, computes what the operation on
  vectors with their contents computes, and it touches no block but the vector's own: the block
  it leaves the vector with is that one or a new one, and every other block is kept.
\<close>
theorem push_refines_vec:
  assumes "view_ok h w"
  shows "vec_push A (vec_of h w) x = map_option (\<lambda>(r, h', w'). (r, vec_of h' w')) (view_push A h w x)
    \<and> (\<forall>r h' w'. view_push A h w x = Some (r, h', w') \<longrightarrow> view_ok h' w' \<and> others_kept h w h' w')"
  using view_push_refines [OF assms] by blast

definition sample_store :: "nat store" where
  "sample_store = \<lparr>blocks = [0 \<mapsto> [10, 11, 12]], fresh = 1\<rparr>"

definition sample_owner :: view where
  "sample_owner = \<lparr>wborrowed = False, wlength = 3, wcapacity = 3, wdata = Some (0, 0)\<rparr>"

lemma sample_owns: "owns sample_store sample_owner 0 [10, 11, 12]"
  by (simp add: owns_def view_ok_def behind_def sample_store_def sample_owner_def)

theorem push_refines_vec_witness:
  "\<exists>h w. view_push (heap_of 0 1) sample_store sample_owner 13 = Some (RC_OK, h, w)
    \<and> vec_list (vec_of h w) = [10, 11, 12, 13] \<and> others_kept sample_store sample_owner h w"
proof -
  have ok: "view_ok sample_store sample_owner" using sample_owns by (simp add: owns_def)
  have e: "vec_of sample_store sample_owner = \<lparr>borrowed = False, vlength = 3, vcapacity = 3, vdata = [10, 11, 12]\<rparr>"
    unfolding vec_of_owns [OF sample_owns] by (simp add: sample_owner_def)
  have "vec_push (heap_of 0 1) (vec_of sample_store sample_owner) 13
      = Some (RC_OK, \<lparr>borrowed = False, vlength = 4, vcapacity = 6, vdata = [10, 11, 12, 13, 0, 0]\<rparr>)"
    unfolding e by (simp add: vec_push_def vec_expand_def vec_grow_def vec_append1_def heap_of_def store_def upt_rec)
  then obtain h w where p: "view_push (heap_of 0 1) sample_store sample_owner 13 = Some (RC_OK, h, w)"
      "vec_of h w = \<lparr>borrowed = False, vlength = 4, vcapacity = 6, vdata = [10, 11, 12, 13, 0, 0]\<rparr>"
    using conjunct1 [OF push_refines_vec [OF ok, of "heap_of 0 1" 13]]
    by (cases "view_push (heap_of 0 1) sample_store sample_owner 13") auto
  moreover have "others_kept sample_store sample_owner h w" using push_refines_vec [OF ok] p(1) by blast
  ultimately show ?thesis by (simp add: vec_list_def)
qed

text \<open>
  C27: A slice shares memory with the vector it was taken from: what is appended to the cleared
  slice overwrites that part of the vector, in place and up to the length of the slice.  Appending
  to a full slice moves it to a block of its own and leaves the vector alone, but of the
  slice's elements only one in \<open>sizeof\<close> is copied, and the rest is whatever the new block holds.
\<close>
theorem slice_shares_until_it_grows:
  assumes "owns h v b d" and "start \<le> stop" "stop \<le> wlength v"
    and "0 < memsz A" and "2 * (stop - start) * memsz A < size_max" and "avail A (2 * (stop - start) * memsz A)"
  shows "(\<forall>xs. length xs \<le> stop - start \<longrightarrow>
      (\<exists>h' w. view_push_list A h (view_clear (view_slice v start stop)) xs = Some (RC_OK, h', w)
        \<and> vec_list (vec_of h' w) = xs
        \<and> vec_list (vec_of h' v) = take start (vec_list (vec_of h v)) @ xs @ drop (start + length xs) (vec_list (vec_of h v))))
    \<and> (start < stop \<longrightarrow>
      (\<exists>h' w. view_push A h (view_slice v start stop) x = Some (RC_OK, h', w)
        \<and> vec_list (vec_of h' v) = vec_list (vec_of h v)
        \<and> vec_list (vec_of h' w) = take ((stop - start) div memsz A) (drop start (vec_list (vec_of h v)))
            @ map (junk A) [(stop - start) div memsz A..<stop - start] @ [x]))"
  using slice_shares(1) [OF assms(1-3)] slice_shares(2) [OF assms(1-3) _ assms(4-6)] by blast

theorem slice_shares_until_it_grows_witness:
  "(\<exists>h w. view_push_list (heap_of 0 2) sample_store (view_clear (view_slice sample_owner 0 2)) [5] = Some (RC_OK, h, w)
      \<and> vec_list (vec_of h sample_owner) = [5, 11, 12])
   \<and> (\<exists>h w. view_push (heap_of 0 2) sample_store (view_slice sample_owner 0 2) 7 = Some (RC_OK, h, w)
      \<and> vec_list (vec_of h sample_owner) = [10, 11, 12] \<and> vec_list (vec_of h w) = [10, 0, 7])"
proof -
  have l: "vec_list (vec_of sample_store sample_owner) = [10, 11, 12]"
    unfolding vec_of_owns [OF sample_owns] by (simp add: vec_list_def sample_owner_def)
  have h: "(0 :: nat) \<le> 2" "2 \<le> wlength sample_owner" "0 < memsz (heap_of (0 :: nat) 2)"
      "2 * (2 - 0) * memsz (heap_of (0 :: nat) 2) < size_max" "avail (heap_of (0 :: nat) 2) (2 * (2 - 0) * memsz (heap_of (0 :: nat) 2))"
    by (simp_all add: sample_owner_def heap_of_def)
  note t = slice_shares_until_it_grows [OF sample_owns h, where x = 7]
  have j: "map (junk (heap_of (0 :: nat) 2)) [(2 - 0) div memsz (heap_of (0 :: nat) 2)..<2 - 0] = [0]"
    by (simp add: heap_of_def upt_rec)
  have a: "length [5 :: nat] \<le> 2 - 0" "(0 :: nat) < 2" by simp_all
  show ?thesis
    using conjunct1 [OF t, THEN spec, of "[5]"] conjunct2 [OF t] a unfolding l j by (auto simp: heap_of_def)
qed

end
