(* ===== verification/Map_Ex.thy ===== *)
theory Map_Ex
  imports Rxi_Map
begin

text \<open>
  The macros of \<open>csrc/include/rxi/map.h\<close> for keys with a size of their own, and the functions
  behind them for such keys: a key is memory of which the first \<open>ksize\<close> bytes are hashed and
  stored, while \<open>map_getref\<close> compares by \<open>strcmp\<close>.  For strings with \<open>strlen + 1\<close> they are the
  operations of \<open>Rxi_Map\<close>; keys with NUL bytes may be taken for each other.
\<close>

section \<open>State and keys\<close>

text \<open>A node with the \<open>ksize\<close> bytes behind its header.\<close>

record 'v ex_node =
  xhash :: u64
  xkey :: "u8 list"
  xvalue :: 'v

record 'v ex_base =
  xbuckets :: "'v ex_node list list"
  xnodes :: nat

record 'v ex_map =
  xbase :: "'v ex_base"
  xcount :: u64

text \<open>\<open>strcmp\<close> compared with 0; \<open>None\<close> when it reads past the end of either memory.\<close>

fun same_string :: "u8 list \<Rightarrow> u8 list \<Rightarrow> bool option" where
  "same_string (a # as) (b # bs) =
     (if a \<noteq> b then Some False else if a = 0 then Some True else same_string as bs)"
| "same_string _ _ = None"

definition hash_ex :: "u8 list \<Rightarrow> nat \<Rightarrow> u64 option" where
  "hash_ex key ksize = (if ksize \<le> length key then Some (map_hash_from 5381 (take ksize key)) else None)"

definition newnode_ex :: "map_alloc \<Rightarrow> u8 list \<Rightarrow> nat \<Rightarrow> 'v \<Rightarrow> 'v ex_node option option" where
  "newnode_ex A key ksize v = do {
     h \<leftarrow> hash_ex key ksize;
     let voffset = ksize + (size_max + 8 - ksize) mod size_max mod 8;
     Some (if map_avail A ((24 + voffset + vsize A) mod size_max)
           then Some \<lparr>xhash = h, xkey = take ksize key, xvalue = v\<rparr> else None) }"

section \<open>Buckets\<close>

definition bucketidx_ex :: "'v ex_base \<Rightarrow> u64 \<Rightarrow> nat" where
  "bucketidx_ex m h = unat (h AND (of_nat (length (xbuckets m)) - 1))"

definition addnode_ex :: "'v ex_base \<Rightarrow> 'v ex_node \<Rightarrow> 'v ex_base" where
  "addnode_ex m x =
     (let n = bucketidx_ex m (xhash x) in m\<lparr>xbuckets := (xbuckets m)[n := x # xbuckets m ! n]\<rparr>)"

fun chain_bucket_ex :: "'v ex_node list \<Rightarrow> 'v ex_node list \<Rightarrow> 'v ex_node list" where
  "chain_bucket_ex nodes [] = nodes"
| "chain_bucket_ex nodes (x # xs) = chain_bucket_ex (x # nodes) xs"

fun chain_from_ex :: "'v ex_base \<Rightarrow> nat \<Rightarrow> 'v ex_node list \<Rightarrow> 'v ex_node list" where
  "chain_from_ex m 0 nodes = nodes"
| "chain_from_ex m (Suc i) nodes = chain_from_ex m i (chain_bucket_ex nodes (xbuckets m ! i))"

fun add_nodes_ex :: "'v ex_base \<Rightarrow> 'v ex_node list \<Rightarrow> 'v ex_base" where
  "add_nodes_ex m [] = m"
| "add_nodes_ex m (x # xs) = add_nodes_ex (addnode_ex m x) xs"

definition resize_ex :: "map_alloc \<Rightarrow> 'v ex_base \<Rightarrow> nat \<Rightarrow> bool \<times> 'v ex_base" where
  "resize_ex A m n =
     (let nodes = chain_from_ex m (length (xbuckets m)) [];
          ok = map_avail A ((8 * n) mod size_max);
          m' = m\<lparr>xbuckets := replicate (if ok then n else length (xbuckets m)) []\<rparr>
      in (ok, add_nodes_ex m' nodes))"

section \<open>Lookup, insertion, removal\<close>

fun find_ex :: "u64 \<Rightarrow> u8 list \<Rightarrow> 'v ex_node list \<Rightarrow> nat option option" where
  "find_ex h key [] = Some None"
| "find_ex h key (x # xs) =
     (if xhash x = h
      then do { same \<leftarrow> same_string (xkey x) key;
                if same then Some (Some 0) else map_option (map_option Suc) (find_ex h key xs) }
      else map_option (map_option Suc) (find_ex h key xs))"

definition getref_ex :: "'v ex_base \<Rightarrow> u8 list \<Rightarrow> nat \<Rightarrow> (nat \<times> nat) option option" where
  "getref_ex m key ksize = do {
     h \<leftarrow> hash_ex key ksize;
     if length (xbuckets m) > 0
     then let n = bucketidx_ex m h in map_option (map_option (Pair n)) (find_ex h key (xbuckets m ! n))
     else Some None }"

definition base_get_ex :: "'v ex_base \<Rightarrow> u8 list \<Rightarrow> nat \<Rightarrow> 'v option option" where
  "base_get_ex m key ksize =
     map_option (map_option (\<lambda>(n, i). xvalue (xbuckets m ! n ! i))) (getref_ex m key ksize)"

definition base_set_ex :: "map_alloc \<Rightarrow> 'v ex_base \<Rightarrow> u8 list \<Rightarrow> nat \<Rightarrow> 'v \<Rightarrow> (bool \<times> 'v ex_base) option" where
  "base_set_ex A m key ksize v = do {
     ref \<leftarrow> getref_ex m key ksize;
     (case ref of
        Some (n, i) \<Rightarrow>
          Some (True, m\<lparr>xbuckets := (xbuckets m)[n := (xbuckets m ! n)[i := (xbuckets m ! n ! i)\<lparr>xvalue := v\<rparr>]]\<rparr>)
      | None \<Rightarrow> do {
          new \<leftarrow> newnode_ex A key ksize v;
          Some (case new of
             None \<Rightarrow> (False, m)
           | Some x \<Rightarrow>
               let (ok, m1) =
                 (if xnodes m \<ge> length (xbuckets m)
                  then resize_ex A m (if length (xbuckets m) > 0 then (2 * length (xbuckets m)) mod size_max else 1)
                  else (True, m))
               in if ok then (True, (addnode_ex m1 x)\<lparr>xnodes := xnodes m1 + 1\<rparr>) else (False, m1)) }) }"

definition base_remove_ex :: "'v ex_base \<Rightarrow> u8 list \<Rightarrow> nat \<Rightarrow> 'v ex_base option" where
  "base_remove_ex m key ksize =
     map_option (\<lambda>ref. case ref of
        Some (n, i) \<Rightarrow>
          let b = xbuckets m ! n
          in m\<lparr>xbuckets := (xbuckets m)[n := take i b @ drop (i + 1) b], xnodes := xnodes m - 1\<rparr>
      | None \<Rightarrow> m) (getref_ex m key ksize)"

definition map_get_ex :: "'v ex_map \<Rightarrow> u8 list \<Rightarrow> nat \<Rightarrow> 'v option option" where
  "map_get_ex m key ksize = base_get_ex (xbase m) key ksize"

definition map_set_ex :: "map_alloc \<Rightarrow> 'v ex_map \<Rightarrow> u8 list \<Rightarrow> nat \<Rightarrow> 'v \<Rightarrow> (bool \<times> 'v ex_map) option" where
  "map_set_ex A m key ksize v =
     map_option (\<lambda>(ok, b). (ok, m\<lparr>xcount := xcount m + 1, xbase := b\<rparr>)) (base_set_ex A (xbase m) key ksize v)"

definition map_remove_ex :: "'v ex_map \<Rightarrow> u8 list \<Rightarrow> nat \<Rightarrow> 'v ex_map option" where
  "map_remove_ex m key ksize =
     map_option (\<lambda>b. m\<lparr>xcount := xcount m - 1, xbase := b\<rparr>) (base_remove_ex (xbase m) key ksize)"

section \<open>Strings as keys\<close>

text \<open>A map of \<open>Rxi_Map\<close> as its nodes lie in memory.\<close>

definition node_ex :: "'v map_node \<Rightarrow> 'v ex_node" where
  "node_ex x = \<lparr>xhash = nhash x, xkey = key_bytes (nkey x), xvalue = nvalue x\<rparr>"

definition base_ex :: "'v map_base \<Rightarrow> 'v ex_base" where
  "base_ex m = \<lparr>xbuckets = map (map node_ex) (buckets m), xnodes = nnodes m\<rparr>"

definition of_map :: "'v map_t \<Rightarrow> 'v ex_map" where
  "of_map m = \<lparr>xbase = base_ex (base m), xcount = count m\<rparr>"

lemma base_ex_simps [simp]: "xbuckets (base_ex m) = map (map node_ex) (buckets m)" "xnodes (base_ex m) = nnodes m"
    "xhash (node_ex x) = nhash x" "xkey (node_ex x) = key_bytes (nkey x)" "xvalue (node_ex x) = nvalue x"
  by (simp_all add: base_ex_def node_ex_def)

lemma base_ex_update:
  "base_ex (m\<lparr>buckets := b\<rparr>) = (base_ex m)\<lparr>xbuckets := map (map node_ex) b\<rparr>"
  "base_ex (m\<lparr>nnodes := k\<rparr>) = (base_ex m)\<lparr>xnodes := k\<rparr>"
  by (simp_all add: base_ex_def)

lemma of_char_eq: "of_char c = (of_char d :: u8) \<longleftrightarrow> c = d"
proof
  assume "of_char c = (of_char d :: u8)"
  then have "(of_nat (of_char c) :: u8) = of_nat (of_char d)" by (simp only: of_nat_of_char)
  moreover have "unat (of_nat (of_char a) :: u8) = of_char a" for a by (rule unat_of_nat_small) simp
  ultimately have "(of_char c :: nat) = of_char d" by metis
  then show "c = d" by simp
qed simp

definition no_nul :: "string \<Rightarrow> bool" where
  "no_nul s \<longleftrightarrow> CHR 0x00 \<notin> set s"

lemma same_key_bytes: "no_nul s \<Longrightarrow> no_nul t \<Longrightarrow> same_string (key_bytes s) (key_bytes t) = Some (s = t)"
proof (induction s arbitrary: t)
  case Nil
  then show ?case using of_char_eq [of "CHR 0x00"] by (cases t) (auto simp: key_bytes_def no_nul_def)
next
  case (Cons a s)
  then show ?case using of_char_eq [of a "CHR 0x00"]
    by (cases t) (auto simp: key_bytes_def no_nul_def of_char_eq)
qed

lemma hash_key_bytes [simp]: "hash_ex (key_bytes key) (Suc (length key)) = Some (map_hash key)"
    "take (Suc (length key)) (key_bytes key) = key_bytes key"
  by (simp_all add: hash_ex_def map_hash_def key_bytes_def)

lemma addnode_commutes: "base_ex (map_addnode m x) = addnode_ex (base_ex m) (node_ex x)"
proof (cases "map_bucketidx m (nhash x) < nbuckets m")
  case True
  then show ?thesis
    by (simp add: map_addnode_def addnode_ex_def bucketidx_ex_def map_bucketidx_def Let_def base_ex_update map_update)
next
  case False
  then show ?thesis
    by (simp add: map_addnode_def addnode_ex_def bucketidx_ex_def map_bucketidx_def Let_def base_ex_update list_update_beyond)
qed

lemma chain_bucket_commutes: "map node_ex (chain_bucket nodes b) = chain_bucket_ex (map node_ex nodes) (map node_ex b)"
  by (induction nodes b rule: chain_bucket.induct) simp_all

lemma chain_from_commutes:
  "i \<le> nbuckets m \<Longrightarrow> map node_ex (chain_from m i nodes) = chain_from_ex (base_ex m) i (map node_ex nodes)"
  by (induction m i nodes rule: chain_from.induct) (simp_all add: chain_bucket_commutes)

lemma add_nodes_commutes: "base_ex (add_nodes m xs) = add_nodes_ex (base_ex m) (map node_ex xs)"
  by (induction m xs rule: add_nodes.induct) (simp_all add: addnode_commutes)

lemma resize_commutes: "resize_ex A (base_ex m) n = (let (ok, m') = map_resize A m n in (ok, base_ex m'))"
  by (simp add: resize_ex_def map_resize_def Let_def add_nodes_commutes chain_from_commutes base_ex_update)

lemma find_commutes:
  "\<forall>x \<in> set b. no_nul (nkey x) \<Longrightarrow> no_nul key \<Longrightarrow> find_ex h (key_bytes key) (map node_ex b) = Some (find_node h key b)"
  by (induction b) (auto simp: same_key_bytes)

definition string_keys :: "'v map_base \<Rightarrow> bool" where
  "string_keys m \<longleftrightarrow> map_ok m \<and> (\<forall>x \<in> set (map_nodes m). no_nul (nkey x))"

lemma getref_commutes:
  assumes "string_keys m" and "no_nul key"
  shows "getref_ex (base_ex m) (key_bytes key) (Suc (length key)) = Some (map_getref m key)"
proof (cases "0 < nbuckets m")
  case True
  let ?n = "map_bucketidx m (map_hash key)"
  have n: "?n < nbuckets m" using assms(1) by (intro placed_bucket True) (simp add: string_keys_def map_ok_def)
  then have "\<forall>x \<in> set (buckets m ! ?n). no_nul (nkey x)" using assms(1) by (auto simp: string_keys_def mem_nodes)
  note f = find_commutes [OF this assms(2), of "map_hash key"]
  show ?thesis using True n f
    by (simp add: getref_ex_def map_getref_def bucketidx_ex_def map_bucketidx_def Let_def)
qed (simp add: getref_ex_def map_getref_def)

lemma getref_in_range:
  assumes "string_keys m" and "map_getref m key = Some (n, i)"
  shows "n < nbuckets m" and "i < length (buckets m ! n)"
  using getref_Some [of m key n i] assms by (simp_all add: string_keys_def map_ok_def)

lemma newnode_commutes: "newnode_ex A (key_bytes key) (Suc (length key)) v = Some (map_option node_ex (map_newnode A key v))"
  by (simp add: newnode_ex_def map_newnode_def Let_def node_ex_def)

lemma node_ex_value: "node_ex (x\<lparr>nvalue := v\<rparr>) = (node_ex x)\<lparr>xvalue := v\<rparr>"
  by (simp add: node_ex_def)

lemma base_get_commutes:
  assumes "string_keys m" and "no_nul key"
  shows "base_get_ex (base_ex m) (key_bytes key) (Suc (length key)) = Some (map_base_get m key)"
  unfolding base_get_ex_def getref_commutes [OF assms] map_base_get_def
  using getref_in_range [OF assms(1), of key] by (cases "map_getref m key") auto

lemma base_set_commutes:
  assumes "string_keys m" and "no_nul key"
  shows "base_set_ex A (base_ex m) (key_bytes key) (Suc (length key)) v
    = Some (let (ok, m') = map_base_set A m key v in (ok, base_ex m'))"
proof (cases "map_getref m key")
  case (Some r)
  obtain n i where r: "r = (n, i)" by (cases r)
  have "n < nbuckets m" "i < length (buckets m ! n)" using getref_in_range [OF assms(1)] Some r by simp_all
  then show ?thesis
    by (simp add: base_set_ex_def getref_commutes [OF assms] map_base_set_def Some r base_ex_update map_update node_ex_value)
next
  case None
  show ?thesis
  proof (cases "map_newnode A key v")
    case none: None
    then show ?thesis
      by (simp add: base_set_ex_def getref_commutes [OF assms] map_base_set_def None newnode_commutes)
  next
    case (Some x)
    obtain ok m1 where g: "(if nnodes m \<ge> nbuckets m
                  then map_resize A m (if nbuckets m > 0 then (2 * nbuckets m) mod size_max else 1)
                  else (True, m)) = (ok, m1)" by (cases "if nnodes m \<ge> nbuckets m
                  then map_resize A m (if nbuckets m > 0 then (2 * nbuckets m) mod size_max else 1)
                  else (True, m)")
    then have g': "(if xnodes (base_ex m) \<ge> length (xbuckets (base_ex m))
                  then resize_ex A (base_ex m) (if length (xbuckets (base_ex m)) > 0 then (2 * length (xbuckets (base_ex m))) mod size_max else 1)
                  else (True, base_ex m)) = (ok, base_ex m1)"
      unfolding resize_commutes by (auto split: if_splits prod.splits)
    have l: "map_base_set A m key v = (if ok then (True, (map_addnode m1 x)\<lparr>nnodes := nnodes m1 + 1\<rparr>) else (False, m1))"
      by (simp only: map_base_set_def None Some option.case g Let_def prod.case)
    have r: "base_set_ex A (base_ex m) (key_bytes key) (Suc (length key)) v
        = Some (if ok then (True, (addnode_ex (base_ex m1) (node_ex x))\<lparr>xnodes := xnodes (base_ex m1) + 1\<rparr>)
            else (False, base_ex m1))"
      by (simp only: base_set_ex_def getref_commutes [OF assms] None Some newnode_commutes option.case option.map bind.bind_lunit
          g' Let_def prod.case)
    show ?thesis unfolding l r by (simp add: base_ex_update addnode_commutes)
  qed
qed

lemma base_remove_commutes:
  assumes "string_keys m" and "no_nul key"
  shows "base_remove_ex (base_ex m) (key_bytes key) (Suc (length key)) = Some (base_ex (map_base_remove m key))"
proof (cases "map_getref m key")
  case (Some r)
  obtain n i where r: "r = (n, i)" by (cases r)
  have "n < nbuckets m" using getref_in_range [OF assms(1)] Some r by simp
  then show ?thesis
    by (simp add: base_remove_ex_def getref_commutes [OF assms] map_base_remove_def Some r Let_def base_ex_update map_update
        take_map drop_map)
qed (simp add: base_remove_ex_def getref_commutes [OF assms] map_base_remove_def)

section \<open>Properties\<close>

text \<open>
  For strings, with the size the macros without \<open>_ex\<close> pass, each of the macros does exactly what
  its counterpart does, to the same nodes in the same buckets.
\<close>
theorem ex_macros_on_strings:
  assumes "string_keys (base m)" and "no_nul key"
  shows "map_get_ex (of_map m) (key_bytes key) (length key + 1) = Some (map_get m key)
    \<and> map_set_ex A (of_map m) (key_bytes key) (length key + 1) v = Some (let (ok, m') = map_set A m key v in (ok, of_map m'))
    \<and> map_remove_ex (of_map m) (key_bytes key) (length key + 1) = Some (of_map (map_remove m key))"
  using base_get_commutes [OF assms] base_set_commutes [OF assms, of A v] base_remove_commutes [OF assms]
  by (auto simp: map_get_ex_def map_set_ex_def map_remove_ex_def map_get_def map_set_def map_remove_def of_map_def Let_def
      split: prod.splits)

lemma string_keys_init: "string_keys (base map_init)"
  by (simp add: string_keys_def map_init_def map_ok_def map_placed_def)

theorem ex_macros_on_strings_witness:
  "map_get_ex (of_map (map_init :: nat map_t)) (key_bytes ''a'') 2 = Some None"
proof -
  have "length ''a'' + 1 = 2" "no_nul ''a''" by (simp_all add: no_nul_def)
  moreover have "map_get (map_init :: nat map_t) ''a'' = None"
    by (simp add: map_get_def map_base_get_def map_getref_def map_init_def)
  ultimately show ?thesis using ex_macros_on_strings [OF string_keys_init, of "''a''"] by metis
qed

text \<open>
  Keys with NUL bytes: two different keys of three bytes have the same hash and are the same as
  strings, so setting the second replaces the value of the first.
\<close>
theorem keys_with_nul_conflated:
  "\<exists>m1 m2. map_set_ex (A\<lparr>map_avail := (\<lambda>_. True)\<rparr>) (of_map map_init) [0, 0, 0x21] 3 v = Some (True, m1)
    \<and> map_set_ex (A\<lparr>map_avail := (\<lambda>_. True)\<rparr>) m1 [0, 1, 0] 3 w = Some (True, m2)
    \<and> xnodes (xbase m2) = 1 \<and> map_get_ex m2 [0, 0, 0x21] 3 = Some (Some w)"
proof -
  have h: "hash_ex [0, 0, 0x21] 3 = Some 0xB86B2C4" "hash_ex [0, 1, 0] 3 = Some 0xB86B2C4"
    by (simp_all add: hash_ex_def numeral_3_eq_3)
  show ?thesis
    by (auto simp: map_set_ex_def base_set_ex_def getref_ex_def newnode_ex_def h of_map_def map_init_def base_ex_def Let_def
        resize_ex_def addnode_ex_def bucketidx_ex_def map_get_ex_def base_get_ex_def)
qed

end
