(* ===== verification/Rxi_Dmt.thy ===== *)
theory Rxi_Dmt
  imports Prelude
begin

text \<open>
  The allocation tracker of \<open>csrc/include/rxi/dmt.h\<close> (without its compile-time options): every
  block is preceded by a node, the nodes form a doubly linked list from \<open>dmt_head\<close>.  The store
  maps the addresses of live nodes to their fields and the bytes of the block behind them; what
  \<open>malloc\<close>, \<open>calloc\<close> and \<open>realloc\<close> return (an address, and the bytes a fresh block happens
  to hold) are arguments.  \<open>None\<close> is an access outside the live nodes or past the end of a block,
  or a loop that does not return; \<open>Aborted\<close> is the call of \<open>abort\<close>.
\<close>

section \<open>State\<close>

record dmt_node =
  dprev :: u64
  dnext :: u64
  dfile :: string
  dline :: u64
  dsize :: u64
  dmem :: "u8 list"

record dmt_state =
  dmt_head :: u64
  dmt_nodes :: "u64 \<Rightarrow> dmt_node option"

definition dmt_init :: dmt_state where
  "dmt_init = \<lparr>dmt_head = 0, dmt_nodes = Map.empty\<rparr>"

datatype 'a dmt_ret = Aborted | Ret 'a

text \<open>\<open>sizeof(dmt_node_t)\<close>.\<close>

definition DMT_NODE_SIZE :: u64 where
  "DMT_NODE_SIZE = 40"

text \<open>
  A block whose size wrapped around has no room for the node itself: the field \<open>size\<close>, its last, is
  written past the end.
\<close>

definition holds_node :: "u64 \<Rightarrow> bool" where
  "holds_node sz \<longleftrightarrow> DMT_NODE_SIZE \<le> DMT_NODE_SIZE + sz"

section \<open>The operations\<close>

partial_function (option) has_node_from :: "(u64 \<Rightarrow> dmt_node option) \<Rightarrow> u64 \<Rightarrow> u64 \<Rightarrow> bool option" where
  "has_node_from h node n =
     (if node = 0 then Some False
      else if node = n then Some True
      else Option.bind (h node) (\<lambda>x. has_node_from h (dnext x) n))"

definition dmt_has_node :: "dmt_state \<Rightarrow> u64 \<Rightarrow> bool option" where
  "dmt_has_node st n = has_node_from (dmt_nodes st) (dmt_head st) n"

definition set_prev :: "(u64 \<Rightarrow> dmt_node option) \<Rightarrow> u64 \<Rightarrow> u64 \<Rightarrow> (u64 \<Rightarrow> dmt_node option) option" where
  "set_prev h a v = map_option (\<lambda>x. h(a \<mapsto> x\<lparr>dprev := v\<rparr>)) (h a)"

definition set_next :: "(u64 \<Rightarrow> dmt_node option) \<Rightarrow> u64 \<Rightarrow> u64 \<Rightarrow> (u64 \<Rightarrow> dmt_node option) option" where
  "set_next h a v = map_option (\<lambda>x. h(a \<mapsto> x\<lparr>dnext := v\<rparr>)) (h a)"

text \<open>\<open>r\<close> is the address the C library returns, \<open>junk\<close> what the block holds then.\<close>

definition dmt_alloc :: "u64 \<Rightarrow> u8 list \<Rightarrow> u64 \<Rightarrow> bool \<Rightarrow> string \<Rightarrow> u32 \<Rightarrow> dmt_state \<Rightarrow> (u64 \<times> dmt_state) option" where
  "dmt_alloc r junk sz zeroset path line st =
     (if r = 0 then Some (0, st)
      else if \<not> holds_node sz then None
      else do {
        let h = (dmt_nodes st)(r \<mapsto> \<lparr>dprev = 0, dnext = 0, dfile = path, dline = ucast line, dsize = sz,
              dmem = (if zeroset then replicate (unat sz) 0 else junk)\<rparr>);
        h \<leftarrow> (if dmt_head st \<noteq> 0
              then do { h \<leftarrow> set_prev h (dmt_head st) r; set_next h r (dmt_head st) }
              else Some h);
        Some (r + DMT_NODE_SIZE, \<lparr>dmt_head = r, dmt_nodes = h\<rparr>) })"

definition dmt_calloc :: "u64 \<Rightarrow> u8 list \<Rightarrow> u64 \<Rightarrow> u64 \<Rightarrow> string \<Rightarrow> u32 \<Rightarrow> dmt_state \<Rightarrow> (u64 \<times> dmt_state) option" where
  "dmt_calloc r junk num sz path line st = dmt_alloc r junk (num * sz) True path line st"

text \<open>The size may wrap around to 0, and what \<open>realloc\<close> does then is not defined.\<close>

definition dmt_realloc :: "u64 \<Rightarrow> u8 list \<Rightarrow> u64 \<Rightarrow> u64 \<Rightarrow> string \<Rightarrow> u32 \<Rightarrow> dmt_state
    \<Rightarrow> (u64 \<times> dmt_state) dmt_ret option" where
  "dmt_realloc r junk ptr sz path line st =
     (if ptr = 0 then map_option Ret (dmt_alloc r junk sz False path line st)
      else do {
        let old = ptr - DMT_NODE_SIZE;
        known \<leftarrow> dmt_has_node st old;
        if \<not> known then Some Aborted
        else if r = 0 \<and> DMT_NODE_SIZE + sz \<noteq> 0 then Some (Ret (0, st))
        else if \<not> holds_node sz then None
        else do {
          x \<leftarrow> dmt_nodes st old;
          let h = ((dmt_nodes st)(old := None))(r \<mapsto> x\<lparr>dsize := sz, dmem := take (unat sz) (dmem x @ junk)\<rparr>);
          let hd' = (if dmt_head st = old then r else dmt_head st);
          h \<leftarrow> (if dprev x \<noteq> 0 then set_next h (dprev x) r else Some h);
          h \<leftarrow> (if dnext x \<noteq> 0 then set_prev h (dnext x) r else Some h);
          Some (Ret (r + DMT_NODE_SIZE, \<lparr>dmt_head = hd', dmt_nodes = h\<rparr>)) } })"

definition dmt_free :: "u64 \<Rightarrow> dmt_state \<Rightarrow> dmt_state dmt_ret option" where
  "dmt_free ptr st =
     (if ptr = 0 then Some (Ret st)
      else do {
        let node = ptr - DMT_NODE_SIZE;
        known \<leftarrow> dmt_has_node st node;
        if \<not> known then Some Aborted
        else do {
          x \<leftarrow> dmt_nodes st node;
          let hd' = (if node = dmt_head st then dnext x else dmt_head st);
          h \<leftarrow> (if dprev x \<noteq> 0 then set_next (dmt_nodes st) (dprev x) (dnext x) else Some (dmt_nodes st));
          h \<leftarrow> (if dnext x \<noteq> 0 then set_prev h (dnext x) (dprev x) else Some h);
          Some (Ret \<lparr>dmt_head = hd', dmt_nodes = h(node := None)\<rparr>) } })"

definition dmt_size :: "u64 \<Rightarrow> dmt_state \<Rightarrow> u64 dmt_ret option" where
  "dmt_size ptr st = do {
     let node = ptr - DMT_NODE_SIZE;
     known \<leftarrow> dmt_has_node st node;
     if \<not> known then Some Aborted else map_option (\<lambda>x. Ret (dsize x)) (dmt_nodes st node) }"

partial_function (option) usage_from :: "(u64 \<Rightarrow> dmt_node option) \<Rightarrow> u64 \<Rightarrow> u64 \<Rightarrow> u64 option" where
  "usage_from h node tot =
     (if node = 0 then Some tot
      else Option.bind (h node) (\<lambda>x. usage_from h (dnext x) (tot + dsize x)))"

definition dmt_usage :: "dmt_state \<Rightarrow> u64 option" where
  "dmt_usage st = usage_from (dmt_nodes st) (dmt_head st) 0"

definition dmt_has :: "u64 \<Rightarrow> dmt_state \<Rightarrow> bool option" where
  "dmt_has ptr st = dmt_has_node st (ptr - DMT_NODE_SIZE)"

text \<open>The characters \<open>dmt_dump\<close> prints; \<open>%p\<close> as the GNU library prints it.\<close>

definition fmt_p :: "u64 \<Rightarrow> string" where
  "fmt_p a = (if a = 0 then ''(nil)'' else ''0x'' @ hex_digits (unat a))"

definition dump_line :: "u64 \<Rightarrow> dmt_node \<Rightarrow> string" where
  "dump_line a x = ''Unfreed: '' @ fmt_p (a + DMT_NODE_SIZE) @ '' '' @ dfile x @ '', line '' @ dec_digits (unat (dline x))
     @ '' ('' @ dec_digits (unat (dsize x)) @ '' bytes)'' @ [CHR 0x0A]"

partial_function (option) dump_from :: "(u64 \<Rightarrow> dmt_node option) \<Rightarrow> u64 \<Rightarrow> u64 \<Rightarrow> string \<Rightarrow> string option" where
  "dump_from h node tot out =
     (if node = 0 then Some (out @ ''Total unfreed: '' @ dec_digits (unat tot) @ '' bytes'' @ [CHR 0x0A])
      else Option.bind (h node) (\<lambda>x. dump_from h (dnext x) (tot + dsize x) (out @ dump_line node x)))"

definition dmt_dump :: "dmt_state \<Rightarrow> string option" where
  "dmt_dump st = dump_from (dmt_nodes st) (dmt_head st) 0 []"

section \<open>The list of blocks\<close>

text \<open>What the tracker stands for: the live blocks with their node addresses, latest first.\<close>

record dmt_block =
  bfile :: string
  bline :: u64
  bsize :: u64
  bmem :: "u8 list"

type_synonym dmt_blocks = "(u64 \<times> dmt_block) list"

definition node_of :: "u64 \<Rightarrow> u64 \<Rightarrow> dmt_block \<Rightarrow> dmt_node" where
  "node_of p n b = \<lparr>dprev = p, dnext = n, dfile = bfile b, dline = bline b, dsize = bsize b, dmem = bmem b\<rparr>"

text \<open>The stretch of nodes for a list of blocks, between a node \<open>p\<close> before and a node \<open>e\<close> behind it.\<close>

fun first_addr :: "dmt_blocks \<Rightarrow> u64 \<Rightarrow> u64" where
  "first_addr [] e = e"
| "first_addr ((a, b) # bs) e = a"

fun last_addr :: "u64 \<Rightarrow> dmt_blocks \<Rightarrow> u64" where
  "last_addr p [] = p"
| "last_addr p ((a, b) # bs) = last_addr a bs"

fun linked :: "u64 \<Rightarrow> dmt_blocks \<Rightarrow> u64 \<Rightarrow> u64 \<Rightarrow> dmt_node option" where
  "linked p [] e = Map.empty"
| "linked p ((a, b) # bs) e = (linked a bs e)(a \<mapsto> node_of p (first_addr bs e) b)"

abbreviation addrs :: "dmt_blocks \<Rightarrow> u64 set" where
  "addrs bs \<equiv> fst ` set bs"

definition dmt_ok :: "dmt_state \<Rightarrow> dmt_blocks \<Rightarrow> bool" where
  "dmt_ok st bs \<longleftrightarrow> dmt_head st = first_addr bs 0 \<and> dmt_nodes st = linked 0 bs 0
     \<and> distinct (map fst bs) \<and> 0 \<notin> addrs bs \<and> (\<forall>(a, b) \<in> set bs. length (bmem b) = unat (bsize b))"

lemma dmt_init_ok: "dmt_ok dmt_init []"
  by (simp add: dmt_ok_def dmt_init_def)

lemma first_addr_append: "first_addr (xs @ ys) e = first_addr xs (first_addr ys e)"
  by (cases xs) auto

lemma last_addr_append: "last_addr p (xs @ ys) = last_addr (last_addr p xs) ys"
  by (induction p xs rule: last_addr.induct) auto

lemma first_addr_in: "xs \<noteq> [] \<Longrightarrow> first_addr xs e \<in> addrs xs"
  by (cases xs) auto

lemma last_addr_cases: "last_addr p xs = (if xs = [] then p else fst (last xs))"
  by (induction p xs rule: last_addr.induct) auto

lemma last_addr_in: "xs \<noteq> [] \<Longrightarrow> last_addr p xs \<in> addrs xs"
  by (simp add: last_addr_cases)

lemma linked_None_iff: "linked p bs e a = None \<longleftrightarrow> a \<notin> addrs bs"
  by (induction p bs e rule: linked.induct) auto

lemma linked_append:
  "distinct (map fst (xs @ ys)) \<Longrightarrow>
   linked p (xs @ ys) e a = (if a \<in> addrs xs then linked p xs (first_addr ys e) a else linked (last_addr p xs) ys e a)"
proof (induction p xs e rule: linked.induct)
  case (2 p c b bs e)
  then have "c \<notin> addrs bs" "c \<notin> addrs ys" by auto
  then show ?case using 2 by (simp add: first_addr_append)
qed simp

text \<open>Redirecting the outer pointers of a stretch.\<close>

lemma linked_prev:
  "linked q ys e a = (if a = first_addr ys e then map_option (\<lambda>x. x\<lparr>dprev := q\<rparr>) (linked p ys e a) else linked p ys e a)"
  by (cases ys) (auto simp: node_of_def)

lemma linked_next:
  "distinct (map fst xs) \<Longrightarrow> linked p xs v a
   = (if xs \<noteq> [] \<and> a = last_addr p xs then map_option (\<lambda>x. x\<lparr>dnext := v\<rparr>) (linked p xs e a) else linked p xs e a)"
proof (induction p xs v rule: linked.induct)
  case (2 p c b bs v)
  show ?case
  proof (cases "bs = []")
    case False
    then have "last_addr c bs \<in> addrs bs" by (rule last_addr_in)
    moreover have "c \<notin> addrs bs" using 2(2) by simp
    ultimately have "last_addr c bs \<noteq> c" by metis
    moreover have "first_addr bs v = first_addr bs e" using False by (cases bs) auto
    ultimately show ?thesis using 2 False by auto
  qed (auto simp: node_of_def)
qed simp

text \<open>The two neighbours of a node, redirected.\<close>

lemma relink:
  assumes d: "distinct (map fst (xs @ ys))" "0 \<notin> addrs (xs @ ys)"
    and h: "\<And>a. a \<in> addrs xs \<Longrightarrow> h a = linked 0 xs e a" "\<And>a. a \<in> addrs ys \<Longrightarrow> h a = linked q ys 0 a"
  shows "\<exists>h1 h2. (if last_addr 0 xs \<noteq> 0 then set_next h (last_addr 0 xs) v else Some h) = Some h1
    \<and> (if first_addr ys 0 \<noteq> 0 then set_prev h1 (first_addr ys 0) u else Some h1) = Some h2
    \<and> h2 = (\<lambda>a. if a \<in> addrs xs then linked 0 xs v a else if a \<in> addrs ys then linked u ys 0 a else h a)"
proof -
  have dx: "distinct (map fst xs)" using d(1) by simp
  define h1 where "h1 = (\<lambda>a. if a \<in> addrs xs then linked 0 xs v a else h a)"
  have s1: "(if last_addr 0 xs \<noteq> 0 then set_next h (last_addr 0 xs) v else Some h) = Some h1"
  proof (cases "xs = []")
    case False
    then have l: "last_addr 0 xs \<in> addrs xs" by (rule last_addr_in)
    moreover have "0 \<notin> addrs xs" "0 \<notin> addrs ys" using d(2) by (simp_all add: image_Un)
    ultimately have "last_addr 0 xs \<noteq> 0" by metis
    moreover obtain x where x: "linked 0 xs e (last_addr 0 xs) = Some x"
      using l linked_None_iff [of 0 xs e "last_addr 0 xs"] by (cases "linked 0 xs e (last_addr 0 xs)") auto
    moreover have "h(last_addr 0 xs \<mapsto> x\<lparr>dnext := v\<rparr>) = h1"
      using l h(1) False linked_next [OF dx, of 0 v _ e] x by (auto simp: h1_def fun_eq_iff)
    ultimately show ?thesis using h(1) [OF l] by (simp add: set_next_def)
  qed (simp add: h1_def)
  define h2 where "h2 = (\<lambda>a. if a \<in> addrs xs then linked 0 xs v a else if a \<in> addrs ys then linked u ys 0 a else h a)"
  have s2: "(if first_addr ys 0 \<noteq> 0 then set_prev h1 (first_addr ys 0) u else Some h1) = Some h2"
  proof (cases "ys = []")
    case False
    then have l: "first_addr ys 0 \<in> addrs ys" by (rule first_addr_in)
    then have n: "first_addr ys 0 \<notin> addrs xs" using d(1) by auto
    have "0 \<notin> addrs ys" using d(2) by (simp add: image_Un)
    then have "first_addr ys 0 \<noteq> 0" using l by metis
    moreover obtain x where x: "linked q ys 0 (first_addr ys 0) = Some x"
      using l linked_None_iff [of q ys 0 "first_addr ys 0"] by (cases "linked q ys 0 (first_addr ys 0)") auto
    moreover have "h1(first_addr ys 0 \<mapsto> x\<lparr>dprev := u\<rparr>) = h2"
      using l n h(2) linked_prev [of u ys 0 _ q] x by (auto simp: h1_def h2_def fun_eq_iff)
    ultimately show ?thesis using h(2) [OF l] n by (simp add: set_prev_def h1_def)
  qed (simp add: h1_def h2_def fun_eq_iff)
  show ?thesis using s1 s2 unfolding h2_def by blast
qed

section \<open>The loops\<close>

text \<open>A store that holds a stretch of nodes.\<close>

definition holds_list :: "(u64 \<Rightarrow> dmt_node option) \<Rightarrow> u64 \<Rightarrow> dmt_blocks \<Rightarrow> bool" where
  "holds_list h p bs \<longleftrightarrow> 0 \<notin> addrs bs \<and> distinct (map fst bs) \<and> (\<forall>a \<in> addrs bs. h a = linked p bs 0 a)"

lemma holds_list_Cons:
  "holds_list h p ((a, b) # bs) \<Longrightarrow> a \<noteq> 0 \<and> h a = Some (node_of p (first_addr bs 0) b) \<and> holds_list h a bs"
  by (auto simp: holds_list_def)

lemma dmt_ok_holds: "dmt_ok st bs \<Longrightarrow> holds_list (dmt_nodes st) 0 bs"
  by (simp add: dmt_ok_def holds_list_def)

lemma has_node_list: "holds_list h p bs \<Longrightarrow> has_node_from h (first_addr bs 0) n = Some (n \<in> addrs bs)"
proof (induction bs arbitrary: p)
  case (Cons x bs)
  obtain a b where x: "x = (a, b)" by fastforce
  note c = holds_list_Cons [OF Cons.prems [unfolded x]]
  have "has_node_from h (first_addr bs 0) n = Some (n \<in> addrs bs)" using Cons.IH c by blast
  then show ?case using c by (subst has_node_from.simps) (auto simp: x node_of_def)
qed (simp add: has_node_from.simps)

lemma usage_list: "holds_list h p bs \<Longrightarrow> usage_from h (first_addr bs 0) n = Some (n + (\<Sum>(a, b) \<leftarrow> bs. bsize b))"
proof (induction bs arbitrary: p n)
  case (Cons x bs)
  obtain a b where x: "x = (a, b)" by fastforce
  note c = holds_list_Cons [OF Cons.prems [unfolded x]]
  have "usage_from h (first_addr bs 0) m = Some (m + (\<Sum>(a, b) \<leftarrow> bs. bsize b))" for m using Cons.IH c by blast
  then show ?case using c by (subst usage_from.simps) (simp add: x node_of_def add.assoc)
qed (simp add: usage_from.simps)

definition block_line :: "u64 \<times> dmt_block \<Rightarrow> string" where
  "block_line x = dump_line (fst x) (node_of 0 0 (snd x))"

lemma dump_list: "holds_list h p bs \<Longrightarrow> dump_from h (first_addr bs 0) n out
    = Some (out @ concat (map block_line bs) @ ''Total unfreed: ''
        @ dec_digits (unat (n + (\<Sum>(a, b) \<leftarrow> bs. bsize b))) @ '' bytes'' @ [CHR 0x0A])"
proof (induction bs arbitrary: p n out)
  case (Cons x bs)
  obtain a b where x: "x = (a, b)" by fastforce
  note c = holds_list_Cons [OF Cons.prems [unfolded x]]
  have l: "dump_line a (node_of p (first_addr bs 0) b) = block_line x"
    by (simp add: block_line_def dump_line_def x node_of_def)
  have "holds_list h a bs" "dsize (node_of p (first_addr bs 0) b) = bsize b" "dnext (node_of p (first_addr bs 0) b) = first_addr bs 0"
    using c by (simp_all add: node_of_def)
  with Cons.IH [OF this(1)] show ?case using c l by (subst dump_from.simps) (simp add: x add.assoc)
qed (simp add: dump_from.simps)

lemma dmt_has_ok: "dmt_ok st bs \<Longrightarrow> dmt_has_node st n = Some (n \<in> addrs bs)"
  using has_node_list [OF dmt_ok_holds] by (simp add: dmt_has_node_def dmt_ok_def)

section \<open>The calls against the list of blocks\<close>

text \<open>
  A call with what the C library answers: the address of the new block (0 when it is refused)
  and the bytes it holds.
\<close>

datatype dmt_op =
    Alloc u64 "u8 list" u64 bool string u32
  | Realloc u64 "u8 list" u64 u64 string u32
  | Free u64

fun dmt_step :: "dmt_op \<Rightarrow> dmt_state \<Rightarrow> (u64 \<times> dmt_state) dmt_ret option" where
  "dmt_step (Alloc r junk sz zeroset path line) st = map_option Ret (dmt_alloc r junk sz zeroset path line st)"
| "dmt_step (Realloc r junk q sz path line) st = dmt_realloc r junk q sz path line st"
| "dmt_step (Free q) st = map_option (\<lambda>x. case x of Aborted \<Rightarrow> Aborted | Ret st \<Rightarrow> Ret (0, st)) (dmt_free q st)"

text \<open>Calls in sequence; \<open>abort\<close> ends the program.\<close>

fun dmt_run :: "dmt_op list \<Rightarrow> dmt_state \<Rightarrow> (u64 list \<times> dmt_state) dmt_ret option" where
  "dmt_run [] st = Some (Ret ([], st))"
| "dmt_run (c # cs) st =
     Option.bind (dmt_step c st) (\<lambda>x. case x of
         Aborted \<Rightarrow> Some Aborted
       | Ret (r, st') \<Rightarrow> map_option (\<lambda>y. case y of Aborted \<Rightarrow> Aborted | Ret (rs, st'') \<Rightarrow> Ret (r # rs, st'')) (dmt_run cs st'))"

text \<open>The specification; here, too, \<open>None\<close> is a node that does not fit its block.\<close>

definition new_block :: "u8 list \<Rightarrow> u64 \<Rightarrow> bool \<Rightarrow> string \<Rightarrow> u32 \<Rightarrow> dmt_block" where
  "new_block junk sz zeroset path line =
     \<lparr>bfile = path, bline = ucast line, bsize = sz, bmem = (if zeroset then replicate (unat sz) 0 else junk)\<rparr>"

definition resize_block :: "u8 list \<Rightarrow> u64 \<Rightarrow> dmt_block \<Rightarrow> dmt_block" where
  "resize_block junk sz b = b\<lparr>bsize := sz, bmem := take (unat sz) (bmem b @ junk)\<rparr>"

definition track_alloc :: "u64 \<Rightarrow> dmt_block \<Rightarrow> dmt_blocks \<Rightarrow> (u64 \<times> dmt_blocks) dmt_ret option" where
  "track_alloc r b bs =
     (if r = 0 then Some (Ret (0, bs))
      else if holds_node (bsize b) then Some (Ret (r + DMT_NODE_SIZE, (r, b) # bs)) else None)"

fun track_step :: "dmt_op \<Rightarrow> dmt_blocks \<Rightarrow> (u64 \<times> dmt_blocks) dmt_ret option" where
  "track_step (Alloc r junk sz zeroset path line) bs =
     track_alloc r (new_block junk sz zeroset path line) bs"
| "track_step (Realloc r junk q sz path line) bs =
     (if q = 0 then track_alloc r (new_block junk sz False path line) bs
      else if q - DMT_NODE_SIZE \<notin> addrs bs then Some Aborted
      else if r = 0 \<and> DMT_NODE_SIZE + sz \<noteq> 0 then Some (Ret (0, bs))
      else if holds_node sz
      then Some (Ret (r + DMT_NODE_SIZE,
             map (\<lambda>(a, b). if a = q - DMT_NODE_SIZE then (r, resize_block junk sz b) else (a, b)) bs))
      else None)"
| "track_step (Free q) bs =
     (if q = 0 then Some (Ret (0, bs))
      else if q - DMT_NODE_SIZE \<notin> addrs bs then Some Aborted
      else Some (Ret (0, filter (\<lambda>(a, b). a \<noteq> q - DMT_NODE_SIZE) bs)))"

text \<open>
  What the C library may answer to any request: a refusal, or the address of a block that is none
  of the live ones (for \<open>realloc\<close> it may be the old one).  \<open>junk\<close> stands for the bytes behind the
  node, if there is room for one.
\<close>

fun answers :: "dmt_blocks \<Rightarrow> dmt_op \<Rightarrow> bool" where
  "answers bs (Alloc r junk sz zeroset path line) \<longleftrightarrow>
     r \<noteq> 0 \<longrightarrow> r \<notin> addrs bs \<and> (holds_node sz \<longrightarrow> length junk = unat sz)"
| "answers bs (Realloc r junk q sz path line) \<longleftrightarrow>
     r \<noteq> 0 \<longrightarrow> (q \<noteq> 0 \<and> r = q - DMT_NODE_SIZE \<or> r \<notin> addrs bs) \<and> (holds_node sz \<longrightarrow> length junk = unat sz)"
| "answers bs (Free q) \<longleftrightarrow> True"

fun all_answered :: "dmt_blocks \<Rightarrow> dmt_op list \<Rightarrow> bool" where
  "all_answered bs [] = True"
| "all_answered bs (c # cs) =
     (answers bs c \<and> (case track_step c bs of Some (Ret (_, bs')) \<Rightarrow> all_answered bs' cs | _ \<Rightarrow> True))"

fun track_run :: "dmt_op list \<Rightarrow> dmt_blocks \<Rightarrow> (u64 list \<times> dmt_blocks) dmt_ret option" where
  "track_run [] bs = Some (Ret ([], bs))"
| "track_run (c # cs) bs =
     Option.bind (track_step c bs) (\<lambda>x. case x of
         Aborted \<Rightarrow> Some Aborted
       | Ret (r, bs') \<Rightarrow> map_option (\<lambda>y. case y of Aborted \<Rightarrow> Aborted | Ret (rs, bs'') \<Rightarrow> Ret (r # rs, bs'')) (track_run cs bs'))"

text \<open>A request that leaves room for the node in \<open>size_t\<close>.\<close>

fun request_fits :: "dmt_op \<Rightarrow> bool" where
  "request_fits (Alloc r junk sz zeroset path line) \<longleftrightarrow> unat sz + unat DMT_NODE_SIZE < 2 ^ 64"
| "request_fits (Realloc r junk q sz path line) \<longleftrightarrow> unat sz + unat DMT_NODE_SIZE < 2 ^ 64"
| "request_fits (Free q) \<longleftrightarrow> True"

lemma linked_None: "a \<notin> addrs bs \<Longrightarrow> linked p bs e a = None"
  by (simp add: linked_None_iff)

text \<open>One result against the other.\<close>

fun matches :: "('a \<times> dmt_state) dmt_ret option \<Rightarrow> ('a \<times> dmt_blocks) dmt_ret option \<Rightarrow> bool" where
  "matches (Some (Ret (r, st))) (Some (Ret (r', bs))) \<longleftrightarrow> r = r' \<and> dmt_ok st bs"
| "matches (Some Aborted) (Some Aborted) \<longleftrightarrow> True"
| "matches None None \<longleftrightarrow> True"
| "matches _ _ \<longleftrightarrow> False"

lemma dmt_ok_rest: "dmt_ok st bs \<Longrightarrow> 0 \<notin> addrs bs \<and> distinct (map fst bs)
    \<and> (\<forall>(a, b) \<in> set bs. length (bmem b) = unat (bsize b))"
  by (simp add: dmt_ok_def)

lemma alloc_matches:
  assumes ok: "dmt_ok st bs" and an: "answers bs (Alloc r junk sz zeroset path line)"
  shows "matches (map_option Ret (dmt_alloc r junk sz zeroset path line st))
    (track_step (Alloc r junk sz zeroset path line) bs)"
proof (cases "r = 0 \<or> \<not> holds_node sz")
  case False
  let ?b = "new_block junk sz zeroset path line" and ?h = "dmt_nodes st"
  have r: "r \<notin> addrs bs" "holds_node sz" "length (bmem ?b) = unat sz"
    using an False by (auto simp: new_block_def)
  note o = ok [unfolded dmt_ok_def]
  define h where "h = ?h(r \<mapsto> node_of 0 0 ?b)"
  have node: "\<lparr>dprev = 0, dnext = 0, dfile = path, dline = ucast line, dsize = sz,
      dmem = (if zeroset then replicate (unat sz) 0 else junk)\<rparr> = node_of 0 0 ?b"
    by (simp add: node_of_def new_block_def)
  have z: "0 \<notin> addrs bs" "distinct (map fst bs)" using o by simp_all
  have goal: "linked 0 ((r, ?b) # bs) 0 = (\<lambda>a. if a = r then Some (node_of 0 (first_addr bs 0) ?b) else linked r bs 0 a)"
    by (auto simp: fun_eq_iff)
  have "\<exists>h'. (if dmt_head st \<noteq> 0 then Option.bind (set_prev h (dmt_head st) r) (\<lambda>h. set_next h r (dmt_head st)) else Some h)
      = Some h' \<and> h' = linked 0 ((r, ?b) # bs) 0"
  proof (cases "bs = []")
    case True
    then have "dmt_head st = 0" "?h = Map.empty" using o by simp_all
    then show ?thesis using True by (simp add: h_def)
  next
    case bs: False
    have hd: "dmt_head st = first_addr bs 0" using o by simp
    have f: "first_addr bs 0 \<in> addrs bs" by (rule first_addr_in [OF bs])
    then have ne: "first_addr bs 0 \<noteq> 0" "first_addr bs 0 \<noteq> r" using z(1) r(1) by metis+
    obtain x where x: "linked 0 bs 0 (first_addr bs 0) = Some x"
      using f linked_None_iff [of 0 bs 0 "first_addr bs 0"] by (cases "linked 0 bs 0 (first_addr bs 0)") auto
    have hx: "h (first_addr bs 0) = Some x" using x ne(2) o by (simp add: h_def)
    have s: "set_prev h (first_addr bs 0) r = Some (h(first_addr bs 0 \<mapsto> x\<lparr>dprev := r\<rparr>))"
      using hx by (simp add: set_prev_def)
    have nd: "(node_of 0 0 ?b)\<lparr>dnext := first_addr bs 0\<rparr> = node_of 0 (first_addr bs 0) ?b" by (simp add: node_of_def)
    have s2: "set_next (h(first_addr bs 0 \<mapsto> x\<lparr>dprev := r\<rparr>)) r (first_addr bs 0)
        = Some ((h(first_addr bs 0 \<mapsto> x\<lparr>dprev := r\<rparr>))(r \<mapsto> node_of 0 (first_addr bs 0) ?b))"
      using ne(2) nd by (simp add: set_next_def h_def)
    have "(h(first_addr bs 0 \<mapsto> x\<lparr>dprev := r\<rparr>))(r \<mapsto> node_of 0 (first_addr bs 0) ?b) = linked 0 ((r, ?b) # bs) 0"
      unfolding goal using ne(2) x linked_prev [of r bs 0 _ 0] o by (auto simp: h_def fun_eq_iff)
    then show ?thesis using hd ne(1) s s2 by simp
  qed
  then have "dmt_alloc r junk sz zeroset path line st
      = Some (r + DMT_NODE_SIZE, \<lparr>dmt_head = r, dmt_nodes = linked 0 ((r, ?b) # bs) 0\<rparr>)"
    using False r(2) by (simp add: dmt_alloc_def node h_def [symmetric])
  moreover have "dmt_ok \<lparr>dmt_head = r, dmt_nodes = linked 0 ((r, ?b) # bs) 0\<rparr> ((r, ?b) # bs)"
    using o False r by (auto simp: dmt_ok_def new_block_def)
  moreover have "bsize ?b = sz" by (simp add: new_block_def)
  ultimately show ?thesis using False by (simp add: track_alloc_def)
qed (use ok in \<open>auto simp: dmt_alloc_def track_alloc_def new_block_def\<close>)

lemma node_of_sel: "dprev (node_of p n b) = p" "dnext (node_of p n b) = n" "dsize (node_of p n b) = bsize b"
    "dmem (node_of p n b) = bmem b"
  by (simp_all add: node_of_def)

text \<open>A live block in the list, and the store around it.\<close>

lemma split_blocks:
  assumes "dmt_ok st bs" and "x \<in> addrs bs"
  obtains xs b ys where "bs = xs @ (x, b) # ys" and "x \<notin> addrs xs" "x \<notin> addrs ys" "x \<noteq> 0"
    and "dmt_nodes st x = Some (node_of (last_addr 0 xs) (first_addr ys 0) b)"
    and "\<forall>a \<in> addrs xs. dmt_nodes st a = linked 0 xs x a" and "\<forall>a \<in> addrs ys. dmt_nodes st a = linked x ys 0 a"
    and "\<forall>a. a \<notin> addrs xs \<and> a \<notin> addrs ys \<and> a \<noteq> x \<longrightarrow> dmt_nodes st a = None"
    and "distinct (map fst (xs @ ys))" "0 \<notin> addrs (xs @ ys)" "dmt_head st = first_addr xs x"
proof -
  obtain b where "(x, b) \<in> set bs" using assms(2) by auto
  then obtain xs ys where bs: "bs = xs @ (x, b) # ys" by (auto simp: in_set_conv_decomp)
  have o: "dmt_head st = first_addr bs 0" "dmt_nodes st = linked 0 bs 0" "distinct (map fst bs)" "0 \<notin> addrs bs"
    using assms(1) by (simp_all add: dmt_ok_def)
  have d: "x \<notin> addrs xs" "x \<notin> addrs ys" "x \<noteq> 0" "distinct (map fst (xs @ ys))" "0 \<notin> addrs (xs @ ys)"
    using o(3,4) bs by auto
  have l: "dmt_nodes st a = (if a \<in> addrs xs then linked 0 xs x a else linked (last_addr 0 xs) ((x, b) # ys) 0 a)" for a
    using linked_append [of xs "(x, b) # ys" 0 0 a] o(2,3) bs by simp
  have disj: "addrs xs \<inter> addrs ys = {}" using d(4) by auto
  have hx: "dmt_nodes st x = Some (node_of (last_addr 0 xs) (first_addr ys 0) b)" using l d(1) by simp
  have nx: "\<forall>a \<in> addrs xs. dmt_nodes st a = linked 0 xs x a" using l by simp
  have ny: "\<forall>a \<in> addrs ys. dmt_nodes st a = linked x ys 0 a"
  proof
    fix a assume "a \<in> addrs ys"
    then have "a \<notin> addrs xs" "a \<noteq> x" using disj d(2) by blast+
    then show "dmt_nodes st a = linked x ys 0 a" using l by simp
  qed
  have nn: "\<forall>a. a \<notin> addrs xs \<and> a \<notin> addrs ys \<and> a \<noteq> x \<longrightarrow> dmt_nodes st a = None"
    using l linked_None_iff [of x ys 0] by simp
  have "dmt_head st = first_addr xs x" using o(1) bs by (simp add: first_addr_append)
  then show thesis by (rule that [OF bs d(1-3) hx nx ny nn d(4,5)])
qed

lemma first_addr_eq: "x \<notin> addrs xs \<Longrightarrow> (first_addr xs x = x) = (xs = [])"
  by (cases xs) auto

lemma first_addr_if: "x \<notin> addrs xs \<Longrightarrow> (if first_addr xs x = x then y else first_addr xs x) = first_addr xs y"
  by (cases xs) auto

lemma filter_other: "x \<notin> addrs zs \<Longrightarrow> filter (\<lambda>(a, b). a \<noteq> x) zs = zs"
  by (induction zs) auto

lemma free_matches:
  assumes ok: "dmt_ok st bs"
  shows "matches (dmt_step (Free q) st) (track_step (Free q) bs)"
proof (cases "q = 0 \<or> q - DMT_NODE_SIZE \<notin> addrs bs")
  case True
  then show ?thesis using ok dmt_has_ok [OF ok] by (auto simp: dmt_free_def)
next
  case False
  define x where "x = q - DMT_NODE_SIZE"
  have q: "q \<noteq> 0" "x \<in> addrs bs" using False by (simp_all add: x_def)
  obtain xs b ys where s: "bs = xs @ (x, b) # ys" "x \<notin> addrs xs" "x \<notin> addrs ys" "x \<noteq> 0"
      "dmt_nodes st x = Some (node_of (last_addr 0 xs) (first_addr ys 0) b)"
      "\<forall>a \<in> addrs xs. dmt_nodes st a = linked 0 xs x a" "\<forall>a \<in> addrs ys. dmt_nodes st a = linked x ys 0 a"
      "\<forall>a. a \<notin> addrs xs \<and> a \<notin> addrs ys \<and> a \<noteq> x \<longrightarrow> dmt_nodes st a = None"
      "distinct (map fst (xs @ ys))" "0 \<notin> addrs (xs @ ys)" "dmt_head st = first_addr xs x"
    using split_blocks [OF ok q(2)] .
  obtain h1 h2 where h: "(if last_addr 0 xs \<noteq> 0 then set_next (dmt_nodes st) (last_addr 0 xs) (first_addr ys 0)
        else Some (dmt_nodes st)) = Some h1"
      "(if first_addr ys 0 \<noteq> 0 then set_prev h1 (first_addr ys 0) (last_addr 0 xs) else Some h1) = Some h2"
      "h2 = (\<lambda>a. if a \<in> addrs xs then linked 0 xs (first_addr ys 0) a
          else if a \<in> addrs ys then linked (last_addr 0 xs) ys 0 a else dmt_nodes st a)"
    using relink [OF s(9,10) bspec [OF s(6)] bspec [OF s(7)], of "first_addr ys 0" "last_addr 0 xs"] by blast
  have "h2(x := None) = linked 0 (xs @ ys) 0"
    using s(2,3,8) linked_append [OF s(9), of 0 0]
    by (auto simp: h(3) fun_eq_iff linked_None)
  then have "dmt_free q st = Some (Ret \<lparr>dmt_head = first_addr xs (first_addr ys 0), dmt_nodes = linked 0 (xs @ ys) 0\<rparr>)"
    using q(1) s(5,11) dmt_has_ok [OF ok, of x] q(2) h(1,2) first_addr_if [OF s(2), of "first_addr ys 0"]
    by (simp add: dmt_free_def x_def [symmetric] node_of_def eq_commute [of x] cong: if_cong)
  moreover have "filter (\<lambda>(a, b). a \<noteq> x) bs = xs @ ys"
    using s(2,3) unfolding s(1) by (simp add: filter_other)
  moreover have "dmt_ok \<lparr>dmt_head = first_addr xs (first_addr ys 0), dmt_nodes = linked 0 (xs @ ys) 0\<rparr> (xs @ ys)"
    using ok s(1) by (auto simp: dmt_ok_def first_addr_append)
  ultimately show ?thesis using q by (simp add: x_def [symmetric])
qed

lemma realloc_matches:
  assumes ok: "dmt_ok st bs" and an: "answers bs (Realloc r junk q sz path line)"
  shows "matches (dmt_step (Realloc r junk q sz path line) st) (track_step (Realloc r junk q sz path line) bs)"
proof -
  define x where "x = q - DMT_NODE_SIZE"
  have w: "DMT_NODE_SIZE + sz \<noteq> 0" if "holds_node sz" using that by (auto simp: holds_node_def DMT_NODE_SIZE_def)
  consider "q = 0" | "q \<noteq> 0" "x \<notin> addrs bs \<or> r = 0 \<or> \<not> holds_node sz"
    | "q \<noteq> 0" "x \<in> addrs bs" "r \<noteq> 0" "holds_node sz" by blast
  then show ?thesis
  proof cases
    case 1
    then have "answers bs (Alloc r junk sz False path line)" using an by auto
    from alloc_matches [OF ok this] show ?thesis using 1 by (simp add: dmt_realloc_def)
  next
    case 2
    then show ?thesis using ok dmt_has_ok [OF ok, of x] w by (auto simp: dmt_realloc_def x_def [symmetric])
  next
    case 3
    obtain xs b ys where s: "bs = xs @ (x, b) # ys" "x \<notin> addrs xs" "x \<notin> addrs ys" "x \<noteq> 0"
        "dmt_nodes st x = Some (node_of (last_addr 0 xs) (first_addr ys 0) b)"
        "\<forall>a \<in> addrs xs. dmt_nodes st a = linked 0 xs x a" "\<forall>a \<in> addrs ys. dmt_nodes st a = linked x ys 0 a"
        "\<forall>a. a \<notin> addrs xs \<and> a \<notin> addrs ys \<and> a \<noteq> x \<longrightarrow> dmt_nodes st a = None"
        "distinct (map fst (xs @ ys))" "0 \<notin> addrs (xs @ ys)" "dmt_head st = first_addr xs x"
      using split_blocks [OF ok 3(2)] .
    have "r = x \<or> r \<notin> addrs bs" using an 3(3) by (auto simp: x_def)
    then have "r \<notin> addrs xs" "r \<notin> addrs ys" by (elim disjE; simp add: s(1-3) image_Un)+
    then have r: "r \<notin> addrs xs" "r \<notin> addrs ys" "holds_node sz" "length junk = unat sz"
      using an 3(3,4) by simp_all
    let ?b = "resize_block junk sz b" and ?p = "last_addr 0 xs" and ?n = "first_addr ys 0"
    have node: "(node_of ?p ?n b)\<lparr>dsize := sz, dmem := take (unat sz) (bmem b @ junk)\<rparr> = node_of ?p ?n ?b"
      by (simp add: node_of_def resize_block_def)
    define h where "h = ((dmt_nodes st)(x := None))(r \<mapsto> node_of ?p ?n ?b)"
    have hx: "h a = linked 0 xs x a" if "a \<in> addrs xs" for a
    proof -
      have "a \<noteq> r" "a \<noteq> x" using that r(1) s(2) by blast+
      then show ?thesis using bspec [OF s(6) that] by (simp add: h_def)
    qed
    have hy: "h a = linked x ys 0 a" if "a \<in> addrs ys" for a
    proof -
      have "a \<noteq> r" "a \<noteq> x" using that r(2) s(3) by blast+
      then show ?thesis using bspec [OF s(7) that] by (simp add: h_def)
    qed
    obtain h1 h2 where h: "(if ?p \<noteq> 0 then set_next h ?p r else Some h) = Some h1"
        "(if ?n \<noteq> 0 then set_prev h1 ?n r else Some h1) = Some h2"
        "h2 = (\<lambda>a. if a \<in> addrs xs then linked 0 xs r a else if a \<in> addrs ys then linked r ys 0 a else h a)"
      using relink [OF s(9,10) hx hy, of r r] by blast
    have d: "distinct (map fst (xs @ (r, ?b) # ys))" using s(9) r(1,2) by auto
    have "h2 = linked 0 (xs @ (r, ?b) # ys) 0"
      using r(1,2) s(8) linked_append [OF d, of 0 0] by (auto simp: h(3) h_def fun_eq_iff linked_None)
    then have "dmt_realloc r junk q sz path line st
        = Some (Ret (r + DMT_NODE_SIZE, \<lparr>dmt_head = first_addr xs r, dmt_nodes = linked 0 (xs @ (r, ?b) # ys) 0\<rparr>))"
      using 3 s(5,11) r(3) dmt_has_ok [OF ok, of x] h(1,2) first_addr_if [OF s(2), of r]
      by (simp add: dmt_realloc_def x_def [symmetric] h_def [symmetric] node_of_sel node Let_def
          del: take_append cong: if_cong)
    moreover have "map (\<lambda>(a, b). if a = x then (r, resize_block junk sz b) else (a, b)) bs = xs @ (r, ?b) # ys"
    proof -
      have "map (\<lambda>(a, b). if a = x then (r, resize_block junk sz b) else (a, b)) zs = zs" if "x \<notin> addrs zs" for zs
        using that by (induction zs) auto
      then show ?thesis using s(1-3) by simp
    qed
    moreover have "dmt_ok \<lparr>dmt_head = first_addr xs r, dmt_nodes = linked 0 (xs @ (r, ?b) # ys) 0\<rparr> (xs @ (r, ?b) # ys)"
    proof -
      have "length (bmem ?b) = unat sz" "bsize ?b = sz" using r(4) by (simp_all add: resize_block_def)
      then show ?thesis using ok d s(1) 3(3) by (auto simp: dmt_ok_def first_addr_append)
    qed
    ultimately show ?thesis using 3 by (simp add: x_def [symmetric])
  qed
qed

lemma step_matches: "dmt_ok st bs \<Longrightarrow> answers bs c \<Longrightarrow> matches (dmt_step c st) (track_step c bs)"
  by (cases c) (use alloc_matches realloc_matches free_matches in fastforce)+

lemma matches_Ret: "matches r (Some (Ret (v, bs))) \<Longrightarrow> \<exists>st. r = Some (Ret (v, st)) \<and> dmt_ok st bs"
  by (cases "(r, Some (Ret (v, bs)))" rule: matches.cases) auto

lemma matches_Aborted: "matches r (Some Aborted) \<Longrightarrow> r = Some Aborted"
  by (cases "(r, Some (Aborted :: ('a \<times> dmt_blocks) dmt_ret))" rule: matches.cases) auto

lemma matches_None: "matches r None \<Longrightarrow> r = None"
  by (cases "(r, None :: ('a \<times> dmt_blocks) dmt_ret option)" rule: matches.cases) auto

lemma run_matches: "dmt_ok st bs \<Longrightarrow> all_answered bs cs \<Longrightarrow> matches (dmt_run cs st) (track_run cs bs)"
proof (induction cs arbitrary: st bs)
  case (Cons c cs)
  have m: "matches (dmt_step c st) (track_step c bs)" using Cons.prems by (intro step_matches) simp_all
  consider "track_step c bs = None" | "track_step c bs = Some Aborted"
    | v bs' where "track_step c bs = Some (Ret (v, bs'))"
    by (cases "track_step c bs"; cases "the (track_step c bs)") auto
  then show ?case
  proof cases
    case 1
    then show ?thesis using m by (auto dest: matches_None)
  next
    case 2
    then show ?thesis using m by (auto dest: matches_Aborted)
  next
    case (3 v bs')
    obtain st' where st': "dmt_step c st = Some (Ret (v, st'))" "dmt_ok st' bs'"
      using m 3 by (auto dest: matches_Ret)
    have "matches (dmt_run cs st') (track_run cs bs')" using Cons.IH [OF st'(2)] Cons.prems(2) 3 by simp
    then show ?thesis using st'(1) 3
      by (cases "(dmt_run cs st', track_run cs bs')" rule: matches.cases) auto
  qed
qed simp

lemma fits_holds: "unat sz + unat DMT_NODE_SIZE < 2 ^ 64 \<Longrightarrow> holds_node sz"
proof -
  assume a: "unat sz + unat DMT_NODE_SIZE < 2 ^ 64"
  have "unat (sz + DMT_NODE_SIZE) = unat sz + unat DMT_NODE_SIZE"
    by (rule iffD1 [OF unat_add_lem]) (use a in simp)
  then have "DMT_NODE_SIZE \<le> sz + DMT_NODE_SIZE" unfolding word_le_nat_alt by linarith
  then show ?thesis unfolding holds_node_def by (subst add.commute)
qed

lemma track_step_fits: "request_fits c \<Longrightarrow> track_step c bs \<noteq> None"
  by (cases c) (auto simp: track_alloc_def new_block_def dest: fits_holds [simplified])

lemma track_run_fits: "list_all request_fits cs \<Longrightarrow> track_run cs bs \<noteq> None"
proof (induction cs arbitrary: bs)
  case (Cons c cs)
  then show ?case using track_step_fits [of c bs] by (auto split: dmt_ret.split)
qed simp

section \<open>Properties\<close>

text \<open>C39: From the empty list, whatever the C library answers (refusals, and fresh addresses for any
  size), every sequence of allocations, reallocations and releases keeps the nodes a well-formed
  doubly linked list of exactly the live blocks, latest first, with their sizes, call sites and
  contents; it returns the addresses behind the nodes, aborts exactly where an unknown pointer is
  resized or freed, and accesses memory outside its blocks exactly where a request whose size wraps
  around with that of the node is served.  When no request does, it never leaves its blocks and
  always comes to an end.\<close>

theorem tracker_keeps_blocks:
  assumes "all_answered [] cs"
  shows "(case track_run cs [] of
      None \<Rightarrow> dmt_run cs dmt_init = None
    | Some Aborted \<Rightarrow> dmt_run cs dmt_init = Some Aborted
    | Some (Ret (rs, bs)) \<Rightarrow> \<exists>st. dmt_run cs dmt_init = Some (Ret (rs, st)) \<and> dmt_ok st bs)
    \<and> (list_all request_fits cs \<longrightarrow> dmt_run cs dmt_init \<noteq> None)"
proof
  have m: "matches (dmt_run cs dmt_init) (track_run cs [])" using run_matches [OF dmt_init_ok assms] .
  then show "case track_run cs [] of
      None \<Rightarrow> dmt_run cs dmt_init = None
    | Some Aborted \<Rightarrow> dmt_run cs dmt_init = Some Aborted
    | Some (Ret (rs, bs)) \<Rightarrow> \<exists>st. dmt_run cs dmt_init = Some (Ret (rs, st)) \<and> dmt_ok st bs"
    by (auto split: option.split dmt_ret.split dest: matches_Ret matches_Aborted matches_None)
  show "list_all request_fits cs \<longrightarrow> dmt_run cs dmt_init \<noteq> None"
    using m track_run_fits [of cs "[]"]
    by (cases "(dmt_run cs dmt_init, track_run cs [])" rule: matches.cases) auto
qed

theorem tracker_keeps_blocks_witness:
  "(\<exists>st. dmt_run [Alloc 1000 [7] 1 False ''a.c'' 5, Alloc 2000 [0, 0] 2 True ''b.c'' 6, Realloc 3000 [9, 8] 1040 2 ''a.c'' 7, Free 2040]
      dmt_init = Some (Ret ([1040, 2040, 3040, 0], st))
    \<and> dmt_ok st [(3000, \<lparr>bfile = ''a.c'', bline = 5, bsize = 2, bmem = [7, 9]\<rparr>)])
   \<and> dmt_run [Alloc 1000 [] (- 1) False ''a.c'' 5] dmt_init = None"
proof -
  let ?cs = "[Alloc 1000 [7] 1 False ''a.c'' 5, Alloc 2000 [0, 0] 2 True ''b.c'' 6, Realloc 3000 [9, 8] 1040 2 ''a.c'' 7, Free 2040]"
  have "all_answered [] [Alloc 1000 [] (- 1) False ''a.c'' 5]"
      "track_run [Alloc 1000 [] (- 1) False ''a.c'' 5] [] = None"
    by (simp_all add: holds_node_def DMT_NODE_SIZE_def track_alloc_def new_block_def)
  then show ?thesis
    using tracker_keeps_blocks [of ?cs] tracker_keeps_blocks [of "[Alloc 1000 [] (- 1) False ''a.c'' 5]"]
    by (simp add: answers.simps holds_node_def DMT_NODE_SIZE_def track_alloc_def new_block_def resize_block_def)
qed

text \<open>C40: In every such state the queries return: the usage is the sum of the live sizes (modulo
  \<open>2 ^ 64\<close>), a pointer is known exactly if it belongs to a live block, its size is that of
  the block, asking for the size of any other pointer aborts, and the report has one line per
  live block and the total.\<close>

theorem tracker_answers:
  assumes "dmt_ok st bs"
  shows "dmt_usage st = Some (\<Sum>(a, b) \<leftarrow> bs. bsize b)
    \<and> dmt_has q st = Some (q - DMT_NODE_SIZE \<in> addrs bs)
    \<and> dmt_size q st = Some (case map_of bs (q - DMT_NODE_SIZE) of None \<Rightarrow> Aborted | Some b \<Rightarrow> Ret (bsize b))
    \<and> dmt_dump st = Some (concat (map block_line bs) @ ''Total unfreed: ''
        @ dec_digits (unat (\<Sum>(a, b) \<leftarrow> bs. bsize b)) @ '' bytes'' @ [CHR 0x0A])"
proof -
  note l = dmt_ok_holds [OF assms]
  have hd: "dmt_head st = first_addr bs 0" "distinct (map fst bs)" using assms by (simp_all add: dmt_ok_def)
  let ?x = "q - DMT_NODE_SIZE"
  have "dmt_size q st = Some (case map_of bs ?x of None \<Rightarrow> Aborted | Some b \<Rightarrow> Ret (bsize b))"
  proof (cases "?x \<in> addrs bs")
    case True
    obtain xs b ys where s: "bs = xs @ (?x, b) # ys"
        "dmt_nodes st ?x = Some (node_of (last_addr 0 xs) (first_addr ys 0) b)"
      using split_blocks [OF assms True] by metis
    have "map_of bs ?x = Some b" using hd(2) s(1) by (intro map_of_is_SomeI) auto
    then show ?thesis using dmt_has_ok [OF assms, of ?x] True s(2) by (simp add: dmt_size_def node_of_def)
  next
    case False
    then have "map_of bs ?x = None" by (simp add: map_of_eq_None_iff)
    then show ?thesis using dmt_has_ok [OF assms, of ?x] False by (simp add: dmt_size_def)
  qed
  then show ?thesis
    using usage_list [OF l, of 0] dump_list [OF l, of 0 "[]"] dmt_has_ok [OF assms, of ?x]
    by (simp add: dmt_usage_def dmt_dump_def dmt_has_def hd(1))
qed

theorem tracker_answers_witness:
  "\<exists>st. dmt_ok st [(1000, \<lparr>bfile = ''a.c'', bline = 5, bsize = 2, bmem = [7, 9]\<rparr>)] \<and> dmt_usage st = Some 2
    \<and> dmt_size 1040 st = Some (Ret 2) \<and> dmt_size 1041 st = Some Aborted
    \<and> dmt_dump st = Some (''Unfreed: 0x410 a.c, line 5 (2 bytes)'' @ [CHR 0x0A] @ ''Total unfreed: 2 bytes'' @ [CHR 0x0A])"
proof -
  let ?b = "\<lparr>bfile = ''a.c'', bline = 5, bsize = 2, bmem = [7, 9]\<rparr>"
  let ?st = "\<lparr>dmt_head = 1000, dmt_nodes = linked 0 [(1000, ?b)] 0\<rparr>"
  have ok: "dmt_ok ?st [(1000, ?b)]" by (simp add: dmt_ok_def)
  have dec_two: "dec_digits 2 = ''2''" by code_simp
  have "block_line (1000, ?b) = ''Unfreed: 0x410 a.c, line 5 (2 bytes)'' @ [CHR 0x0A]"
    by code_simp
  then show ?thesis
    using ok tracker_answers [OF ok, of 1040] tracker_answers [OF ok, of 1041]
    by (intro exI [of _ ?st]) (simp add: DMT_NODE_SIZE_def dec_two)
qed

end
