(* ===== verification/Spec2Isabelle.thy ===== *)
theory Spec2Isabelle
  imports Whole_Run Cleanup Ir_Asm Vec_For Vec_View Map_Ex Rxi_Dmt
begin

text \<open>
  A verification of the C implementation of \<open>bfcomp\<close> (directory \<open>src/csrc\<close>), a Brainfuck
  interpreter and compiler to 32-bit Linux executables.

  The program and how its parts interact.  \<open>main\<close> (\<open>main.c\<close>) reads the command line
  (\<open>options.c\<close>) and then the source in chunks of 1024 characters.  It hands each chunk to
  \<open>ir_ctx_parse\<close> (\<open>ir_gen.c\<close>), which appends operations of an intermediate representation
  to a growable vector (\<open>rxi/vec.h\<close>), fusing runs of equal characters and patching the offsets
  of loops through a stack of open brackets.  The operations are then listed (\<open>ir_gen.c\<close>),
  interpreted (\<open>ir_interpret.c\<close>), or compiled (\<open>ir_compile.c\<close>) to machine code that the
  driver puts behind a prologue into a segment of an ELF file.  The writer of that file
  (\<open>elf_gen.c\<close>) keeps segments and sections in hash maps (\<open>rxi/map.h\<close>) keyed by name.

  Theories, in import order.
  \<^item> \<open>Prelude\<close>: word types, checked loads and stores, outcomes of fuelled runs, little-endian
    bytes, decimal digits, word and list lemmas.
  \<^item> \<open>Vec\<close> and \<open>Vec_Ops\<close>: \<open>csrc/include/rxi/vec.h\<close>.  The struct is the record \<open>vec\<close>, the
    block behind \<open>data\<close> a list whose length is what was allocated; \<open>realloc\<close> is the
    parameter \<open>allocator\<close>.  The record is extended by the structs that embed it.  \<open>Vec\<close>
    also states the two interfaces the other components use, \<open>growable\<close> (append batches)
    and \<open>indexed_buffer\<close> (rewrite the last or an earlier element), and interprets them.
  \<^item> \<open>Vec_For\<close>: the loops over a vector whose body may change it, sorting and searching.
    \<open>Vec_View\<close>: vectors over an explicit store of blocks that they may share (slices, static and
    stack memory), refining \<open>Vec\<close>.
  \<^item> \<open>Bf\<close>: the specification; programs as trees, an evaluator with fuel on loop iterations,
    agreement of programs over different primitives, the concrete syntax.
  \<^item> \<open>Ir_Gen\<close>: the types and the parser of \<open>csrc/src/ir_gen.c\<close>, its refinement to plain lists,
    and its agreement with a parser of one character at a time.  \<open>Ir_Sem\<close>: what operations mean,
    the correctness of the parser, and what it does when memory runs out.  \<open>Ir_Dump\<close>:
    the two printers.  \<open>Ir_Asm\<close>: the unused printer of \<open>ir_compile.c\<close>, and what both listings
    tell about an operation.
  \<^item> \<open>Machine\<close>: the interface \<open>loop_machine\<close>, a machine that runs laid-out code of
    primitives and loop tests, with the simulation of structured programs proved once in it.
  \<^item> \<open>Ir_Interpret\<close>: \<open>csrc/src/ir_interpret.c\<close>, one step per dispatched block, and the
    interpretation of \<open>loop_machine\<close> by it.
  \<^item> \<open>X86\<close>: specification of the IA-32 instructions and system calls the compiler targets.
  \<^item> \<open>Ir_Compile\<close>: \<open>csrc/src/ir_compile.c\<close>, and the bytes it emits as functions of the
    operations.  \<open>Code_Sim\<close>: those bytes on the processor, the second interpretation of
    \<open>loop_machine\<close>.  \<open>Compiled\<close>: whole compiled programs and the length of their code.
  \<^item> \<open>Rxi_Map\<close> and \<open>Map_Table\<close>: \<open>csrc/include/rxi/map.h\<close>, bucket by bucket; the invariant
    (every node in the bucket of its hash, keys distinct, nodes counted), the interface
    \<open>lookup_table\<close> its users rely on with its interpretation, the walk over the keys.
    \<open>Map_Ex\<close>: its macros for keys with a size of their own, which are not used.
  \<^item> \<open>Elf_Gen\<close>: \<open>csrc/src/elf_gen.c\<close>, down to the bytes written at positions of a stream.
    \<open>Elf_File\<close>: the specification of a reader of such files (\<open>elf_load\<close>,
    \<open>elf_section_names\<close>), and the passes over the tables on plain lists.  \<open>Elf_Whole\<close>: where
    every header, segment and the name table end up, and that nothing overlaps, for contexts
    that are \<open>elf_ready\<close>.  \<open>Elf_Props\<close>: what a reader finds.
  \<^item> \<open>Options\<close>: \<open>csrc/src/options.c\<close> with the library's \<open>getopt_long\<close>.
  \<^item> \<open>Driver\<close>: \<open>csrc/src/main.c\<close>, and the reading in chunks.  \<open>Executable\<close>: the file that
    \<open>write_elf_file\<close> builds and the process a loader starts from its bytes (\<open>process\<close>).
    \<open>Whole_Run\<close>: complete runs after the options.  \<open>Cleanup\<close>: \<open>csrc/include/defer.h\<close>, and the
    options and the driver on a log of what is acquired and released, scope by scope.
  \<^item> \<open>Rxi_Dmt\<close>: \<open>csrc/include/rxi/dmt.h\<close>, the allocation tracker: a store of linked nodes
    against the list of live blocks.  The program does not use it.
  This theory holds the properties that span components; those of a component are at the end
  of its theory.

  Conventions.  \<open>size_t\<close> lengths of vectors are natural numbers, with the wrap-around
  written where the code can reach it; the operands and offsets of operations, the locals of
  the interpreter, every emitted immediate, file offsets, header fields and the counters and
  hashes of maps are words of their C width.  \<open>None\<close> is an access outside a block, a violated
  precondition of the C library, or a loop that does not return; error codes are values.  What
  the file system holds is an argument of \<open>main\<close>: the contents of readable files and the
  permission bits of writable ones; the file written is its result.  The read buffer and the patch
  records of the parser come from the allocator of the operations; where the code does not check
  an allocation, its failure is an access through the null pointer.  The copies of names on the
  command line are always served.

  Bounds and fuel.  Fuel counts loop iterations (evaluator), dispatched operations
  (interpreter) or instructions (processor).  No result says only what happens if a run
  returns: halting programs are shown to return for some fuel and all larger ones, and
  programs that never halt to exhaust every fuel.  The hypothesis \<open>roomy A lim\<close> says that the
  allocator serves vectors of \<open>lim\<close> elements, \<open>elf_serves A lim\<close> that all allocators of the
  writer do; \<open>heap_of\<close> and \<open>elf_served\<close> are such.  Compiled sources are limited to \<open>10^8\<close>
  characters, which keeps code, displacements and addresses below \<open>2^31\<close>.

  Not modelled: messages on the error stream, the start-up code and the tracing disabled by the
  preprocessor, and the separate OCaml implementation.  Of \<open>qsort\<close> and \<open>bsearch\<close> only the documented behaviour is assumed.
\<close>

section \<open>From a source file to the interpreter's output\<close>

text \<open>
  The bounds below leave room for every vector the run builds: one operation per character
  for the operations, 30000 cells for the tape, 19 bytes per character for the code.
\<close>

lemma main_interpreting:
  assumes "parse_options argv = Done (Some \<lparr>input_name = Some name, output_name = None, dump_ir = False\<rparr>)"
    and "readable name = Some content"
  shows "main Ai A n readable writable argv input = main_run Ai A n False None (Some content) input"
  using assms by (simp add: main_def)

lemma main_compiling:
  assumes "parse_options argv = Done (Some \<lparr>input_name = Some name, output_name = Some target, dump_ir = False\<rparr>)"
    and "readable name = Some content" and "writable target = Some mode"
  shows "main Ai A n readable writable argv input = main_run Ai A n False (Some (Some mode)) (Some content) input"
  using assms by (simp add: main_def)

text \<open>
  C1: Given the name of a file that denotes a program and no output name, the program ends: the file is read in 1024-character chunks, parsed and interpreted,
  with the output, the unread input, the tape and the pointer that the language gives,
  for every input on which the program halts without leaving the tape.
\<close>
theorem interpreter_runs_source:
  assumes "parse_options argv = Done (Some \<lparr>input_name = Some name, output_name = None, dump_ir = False\<rparr>)"
    and "readable name = Some content"
    and "bf_syntax (source_text content) p"
    and "roomy Ai ilim" and "BUFLEN \<le> ilim" and "length content < ilim"
    and "roomy (byte_alloc A) lim" and "30000 \<le> lim"
    and "eval bf_step f p (start_state input) = Done t"
  shows "\<exists>n r. (\<forall>k. main Ai A (n + k) readable writable argv input = Done (Interpreted r))
    \<and> stdout r = out t \<and> stdin r = inp t \<and> vdata (ictx r) = cells t \<and> sp r = of_nat (ptr t)"
  using main_interprets(1) [OF assms(3-9)] unfolding main_interpreting [where readable = readable, OF assms(1,2)] by blast

lemma op_heap: "roomy (heap_of (mk_op IR_OP_MAX 0) 16) 100000"
  by (rule roomy_heap) simp_all

lemma elf_heaps: "elf_serves elf_served 100000"
  by (simp add: elf_serves_def elf_served_def roomy_heap)

lemma byte_heap: "roomy (byte_alloc elf_served) 100000" "roomy (heap_of (0 :: u8) 1) 100000"
  using elf_heaps by (simp_all add: elf_serves_def elf_served_def)

lemma example_options: "parse_options [''bfcomp'', ''a.bf''] = Done (Some \<lparr>input_name = Some ''a.bf'', output_name = None, dump_ir = False\<rparr>)"
    "parse_options [''bfcomp'', ''a.bf'', ''-c''] = Done (Some \<lparr>input_name = Some ''a.bf'', output_name = Some ''a'', dump_ir = False\<rparr>)"
  by (simp_all add: parse_options_def parse_loop.simps getopt_short_def flag_event_def options_init_def
      derived_name_def strrchr_def)

lemma example_text [simp]: "source_text ''+[-].'' = ''+[-].''" "source_text ''+[]'' = ''+[]''"
  by (simp_all add: source_text_id)

lemma example_reads [simp]: "single_reads ''+[-].''" "single_reads ''+[]''"
  by (simp_all add: single_reads_def)

lemma start_cell: "cells (start_state input) = 0 # replicate 29999 0" "ptr (start_state input) = 0"
    "out (start_state input) = []" "cell (start_state input) = 0" "on_tape (start_state input)"
proof -
  have "replicate (Suc 29999) (0 :: u8) = 0 # replicate 29999 0" by (rule replicate_Suc)
  then show "cells (start_state input) = 0 # replicate 29999 0" by (simp add: fresh_state_def)
qed (simp_all add: fresh_state_def cell_def on_tape_def)

lemma op_bounds: "BUFLEN \<le> 100000" "length ''+[-].'' < (100000 :: nat)" "length ''+[]'' < (100000 :: nat)"
    "30000 \<le> (100000 :: nat)"
  by (simp_all add: BUFLEN_def)

lemma code_bounds: "(100000 :: nat) < 2 ^ 32" "19 * length ''+[-].'' + 100 \<le> (100000 :: nat)" "length ''+[-].'' \<le> (10 ^ 8 :: nat)"
    "19 * length ''+[]'' + 100 \<le> (100000 :: nat)" "length ''+[]'' \<le> (10 ^ 8 :: nat)"
  by simp_all

theorem interpreter_runs_source_witness:
  "\<exists>n r. (\<forall>k. main (heap_of (mk_op IR_OP_MAX 0) 16) elf_served (n + k) [''a.bf'' \<mapsto> ''+[-].''] Map.empty [''bfcomp'', ''a.bf''] []
      = Done (Interpreted r)) \<and> stdout r = [0]"
proof -
  obtain t where t: "eval bf_step 1 [Prim Inc, While [Prim Dec], Prim PutByte] (start_state []) = Done t"
      "out t = [0]"
    using eval_example [OF start_cell(1,2)] start_cell(3) by fastforce
  have "bf_syntax (source_text ''+[-].'') [Prim Inc, While [Prim Dec], Prim PutByte]"
    using syntax_example by simp
  from interpreter_runs_source [where readable = "[''a.bf'' \<mapsto> ''+[-].'']" and writable = Map.empty,
      OF example_options(1) _ this op_heap op_bounds(1,2) byte_heap(1) op_bounds(4) t(1)]
  show ?thesis unfolding t(2) by auto
qed

text \<open>
  C2: On an input on which the program never halts the interpreter never returns: no number
  of dispatched operations suffices.
\<close>
theorem interpreter_diverges_with_source:
  assumes "parse_options argv = Done (Some \<lparr>input_name = Some name, output_name = None, dump_ir = False\<rparr>)"
    and "readable name = Some content"
    and "bf_syntax (source_text content) p"
    and "roomy Ai ilim" and "BUFLEN \<le> ilim" and "length content < ilim"
    and "roomy (byte_alloc A) lim" and "30000 \<le> lim"
    and "\<And>f. eval bf_step f p (start_state input) = Timeout"
  shows "main Ai A n readable writable argv input = Timeout"
  using main_interprets(2) [OF assms(3-8) assms(9) [of n]] unfolding main_interpreting [where readable = readable, OF assms(1,2)] by blast

theorem interpreter_diverges_with_source_witness:
  "main (heap_of (mk_op IR_OP_MAX 0) 16) elf_served 1000 [''a.bf'' \<mapsto> ''+[]''] Map.empty [''bfcomp'', ''a.bf''] [] = Timeout"
proof (rule interpreter_diverges_with_source [OF example_options(1) _ _ op_heap op_bounds(1,3) byte_heap(1)])
  show "bf_syntax (source_text ''+[]'') [Prim Inc, While []]" using syntax_forever by simp
  show "eval bf_step f [Prim Inc, While []] (start_state []) = Timeout" for f
    using start_cell(4,5) by (rule eval_forever)
qed simp_all

section \<open>From a source file to the compiled process\<close>

text \<open>
  C3: The same file given with an output name is compiled.  A process that a loader starts from
  the ELF file written, whatever its registers hold, exits with status 0 after the
  output, the input and the memory the language gives, for sources without two adjacent
  commas.
\<close>
theorem compiled_program_runs_source:
  assumes "parse_options argv = Done (Some \<lparr>input_name = Some name, output_name = Some target, dump_ir = False\<rparr>)"
    and "readable name = Some content" and "writable target = Some mode"
    and "bf_syntax (source_text content) p" and "single_reads (source_text content)"
    and "roomy Ai ilim" and "BUFLEN \<le> ilim" and "length content < ilim"
    and "elf_serves A lim" and "19 * length content + 100 \<le> lim" and "lim < 2 ^ 32" and "length content \<le> 10 ^ 8"
    and "eval bf_step f p (start_state input) = Done t"
  shows "\<exists>file. (\<forall>n i. main Ai A n readable writable argv i = Done (Wrote_elf file (make_exe mode)))
    \<and> (\<forall>g. \<exists>im cpu n m. process file g input = Some (im, cpu) \<and> (\<forall>k. x86_run im (n + k) cpu = Done m)
          \<and> sout m = out t \<and> sin m = inp t \<and> bss m = cells t \<and> regs m 3 = 0)"
proof -
  from main_compiles [OF assms(4-12)] obtain exe tx bss_addr q where
      c: "\<forall>n mode i. main_run Ai A n False (Some (Some mode)) (Some content) i = Done (Wrote_elf exe (make_exe mode))"
      "\<forall>g i. process exe g i = Some (loaded_image tx bss_addr, started g i)"
      "vec_list tx = 0xBF # le32 bss_addr @ program_bytes q"
      "length (vec_list tx) \<le> 19 * length content + 19" "agrees bf_step p code_step q"
    by (elim exE conjE) (rule that)
  have "length (vec_list tx) < 2 ^ 31" using c(4) assms(12) by simp
  note run = process_runs(1) [OF c(3) this c(5) assms(13)]
  show ?thesis
    unfolding main_compiling [where readable = readable and writable = writable, OF assms(1-3)]
    by (intro exI [of _ exe] conjI allI c(1) [rule_format]) (use c(2) run in fastforce)
qed

definition example_main :: "string \<Rightarrow> main_result outcome" where
  "example_main src = main (heap_of (mk_op IR_OP_MAX 0) 16) elf_served 0 [''a.bf'' \<mapsto> src] [''a'' \<mapsto> 0x1A4]
     [''bfcomp'', ''a.bf'', ''-c''] []"

theorem compiled_program_runs_source_witness:
  "\<exists>file im cpu n m. example_main ''+[-].'' = Done (Wrote_elf file 0x1ED) \<and> process file (\<lambda>_. 0) [] = Some (im, cpu)
    \<and> (\<forall>k. x86_run im (n + k) cpu = Done m) \<and> sout m = [0]"
proof -
  obtain t where t: "eval bf_step 1 [Prim Inc, While [Prim Dec], Prim PutByte] (start_state []) = Done t"
      "out t = [0]"
    using eval_example [OF start_cell(1,2)] start_cell(3) by fastforce
  have s: "bf_syntax (source_text ''+[-].'') [Prim Inc, While [Prim Dec], Prim PutByte]"
      "single_reads (source_text ''+[-].'')"
    using syntax_example by simp_all
  have r: "[''a.bf'' \<mapsto> ''+[-].''] ''a.bf'' = Some ''+[-].''" "[''a'' \<mapsto> 0x1A4] ''a'' = Some (0x1A4 :: u32)" by simp_all
  have e: "make_exe 0x1A4 = 0x1ED" by (simp add: make_exe_def)
  from compiled_program_runs_source [where readable = "[''a.bf'' \<mapsto> ''+[-].'']" and writable = "[''a'' \<mapsto> 0x1A4]",
      OF example_options(2) r s op_heap op_bounds(1,2) elf_heaps code_bounds(2,1,3) t(1)]
  show ?thesis unfolding t(2) e example_main_def by blast
qed

text \<open>
  C4: Where the program never halts the compiled process never exits, faults or runs off its
  text either: no number of instructions ends it.
\<close>
theorem compiled_program_diverges_with_source:
  assumes "parse_options argv = Done (Some \<lparr>input_name = Some name, output_name = Some target, dump_ir = False\<rparr>)"
    and "readable name = Some content" and "writable target = Some mode"
    and "bf_syntax (source_text content) p" and "single_reads (source_text content)"
    and "roomy Ai ilim" and "BUFLEN \<le> ilim" and "length content < ilim"
    and "elf_serves A lim" and "19 * length content + 100 \<le> lim" and "lim < 2 ^ 32" and "length content \<le> 10 ^ 8"
    and "\<And>f. eval bf_step f p (start_state input) = Timeout"
  shows "\<exists>file. (\<forall>n i. main Ai A n readable writable argv i = Done (Wrote_elf file (make_exe mode)))
    \<and> (\<forall>g. \<exists>im cpu. process file g input = Some (im, cpu) \<and> (\<forall>n. x86_run im n cpu = Timeout))"
proof -
  from main_compiles [OF assms(4-12)] obtain exe tx bss_addr q where
      c: "\<forall>n mode i. main_run Ai A n False (Some (Some mode)) (Some content) i = Done (Wrote_elf exe (make_exe mode))"
      "\<forall>g i. process exe g i = Some (loaded_image tx bss_addr, started g i)"
      "vec_list tx = 0xBF # le32 bss_addr @ program_bytes q"
      "length (vec_list tx) \<le> 19 * length content + 19" "agrees bf_step p code_step q"
    by (elim exE conjE) (rule that)
  have "length (vec_list tx) < 2 ^ 31" using c(4) assms(12) by simp
  note run = process_runs(2) [OF c(3) this c(5) assms(13)]
  show ?thesis
    unfolding main_compiling [where readable = readable and writable = writable, OF assms(1-3)]
    by (intro exI [of _ exe] conjI allI c(1) [rule_format]) (use c(2) run in fastforce)
qed

theorem compiled_program_diverges_with_source_witness:
  "\<exists>file im cpu. example_main ''+[]'' = Done (Wrote_elf file 0x1ED) \<and> process file (\<lambda>_. 0) [] = Some (im, cpu)
    \<and> x86_run im 1000 cpu = Timeout"
proof -
  have s: "bf_syntax (source_text ''+[]'') [Prim Inc, While []]" "single_reads (source_text ''+[]'')"
    using syntax_forever by simp_all
  have t: "eval bf_step f [Prim Inc, While []] (start_state []) = Timeout" for f
    using start_cell(4,5) by (rule eval_forever)
  have r: "[''a.bf'' \<mapsto> ''+[]''] ''a.bf'' = Some ''+[]''" "[''a'' \<mapsto> 0x1A4] ''a'' = Some (0x1A4 :: u32)" by simp_all
  have e: "make_exe 0x1A4 = 0x1ED" by (simp add: make_exe_def)
  from compiled_program_diverges_with_source [where readable = "[''a.bf'' \<mapsto> ''+[]'']" and writable = "[''a'' \<mapsto> 0x1A4]",
      OF example_options(2) r s op_heap op_bounds(1,3) elf_heaps code_bounds(4,1,5) t]
  show ?thesis unfolding e example_main_def by blast
qed

text \<open>
  C5: The two back ends agree.  For a source without two adjacent commas that never leaves the
  tape on an input, the interpreter and the process started from the file written
  either both end, with the same output, the same unread input and the same memory, or both run
  forever.
\<close>
theorem back_ends_agree:
  assumes "parse_options argv = Done (Some \<lparr>input_name = Some name, output_name = None, dump_ir = False\<rparr>)"
    and "parse_options argv' = Done (Some \<lparr>input_name = Some name, output_name = Some target, dump_ir = False\<rparr>)"
    and "readable name = Some content" and "writable target = Some mode"
    and "bf_syntax (source_text content) p" and "single_reads (source_text content)"
    and "\<And>f. eval bf_step f p (start_state input) \<noteq> Crash"
    and "roomy Ai ilim" and "BUFLEN \<le> ilim" and "length content < ilim"
    and "elf_serves A lim" and "30000 \<le> lim" and "19 * length content + 100 \<le> lim" and "lim < 2 ^ 32"
    and "length content \<le> 10 ^ 8"
  shows "\<exists>file. (\<forall>n i. main Ai A n readable writable argv' i = Done (Wrote_elf file (make_exe mode)))
    \<and> (\<forall>g. \<exists>im cpu. process file g input = Some (im, cpu) \<and>
        ((\<exists>n r m. (\<forall>k. main Ai A (n + k) readable writable argv input = Done (Interpreted r)
              \<and> x86_run im (n + k) cpu = Done m)
            \<and> stdout r = sout m \<and> stdin r = sin m \<and> vdata (ictx r) = bss m \<and> regs m 3 = 0)
         \<or> (\<forall>n. main Ai A n readable writable argv input = Timeout \<and> x86_run im n cpu = Timeout)))"
proof -
  from main_compiles [OF assms(5,6,8-11,13-15)] obtain exe tx bss_addr q where
      c: "\<forall>n mode i. main_run Ai A n False (Some (Some mode)) (Some content) i = Done (Wrote_elf exe (make_exe mode))"
      "\<forall>g i. process exe g i = Some (loaded_image tx bss_addr, started g i)"
      "vec_list tx = 0xBF # le32 bss_addr @ program_bytes q"
      "length (vec_list tx) \<le> 19 * length content + 19" "agrees bf_step p code_step q"
    by (elim exE conjE) (rule that)
  have len: "length (vec_list tx) < 2 ^ 31" using c(4) assms(15) by simp
  have ba: "roomy (byte_alloc A) lim" using assms(11) by (simp add: elf_serves_def)
  note int = main_interprets [OF assms(5,8-10) ba assms(12)]
  note run = process_runs [OF c(3) len c(5)]
  note ex = main_interpreting [where readable = readable, OF assms(1,3)]
  have agree: "(\<exists>n r m. (\<forall>k. main_run Ai A (n + k) False None (Some content) input = Done (Interpreted r)
              \<and> x86_run (loaded_image tx bss_addr) (n + k) (started g input) = Done m)
            \<and> stdout r = sout m \<and> stdin r = sin m \<and> vdata (ictx r) = bss m \<and> regs m 3 = 0)
         \<or> (\<forall>n. main_run Ai A n False None (Some content) input = Timeout
              \<and> x86_run (loaded_image tx bss_addr) n (started g input) = Timeout)" for g
  proof (cases "\<exists>f t. eval bf_step f p (start_state input) = Done t")
    case True
    then obtain f t where t: "eval bf_step f p (start_state input) = Done t" by blast
    from int(1) [OF t] obtain n r where r: "\<forall>k. main_run Ai A (n + k) False None (Some content) input = Done (Interpreted r)"
        "stdout r = out t" "stdin r = inp t" "vdata (ictx r) = cells t" by blast
    from run(1) [OF t] obtain n' m where m: "\<forall>k. x86_run (loaded_image tx bss_addr) (n' + k) (started g input) = Done m"
        "sout m = out t" "sin m = inp t" "bss m = cells t" "regs m 3 = 0" by blast
    have "main_run Ai A (n + n' + k) False None (Some content) input = Done (Interpreted r)
        \<and> x86_run (loaded_image tx bss_addr) (n + n' + k) (started g input) = Done m" for k
      using r(1) [THEN spec, of "n' + k"] m(1) [THEN spec, of "n + k"] by (simp add: ac_simps)
    then show ?thesis using r(2-4) m(2-5) by (intro disjI1 exI [of _ "n + n'"] exI [of _ r] exI [of _ m]) simp
  next
    case False
    have "eval bf_step f p (start_state input) = Timeout" for f
      using False assms(7) [of f] by (cases "eval bf_step f p (start_state input)") auto
    then show ?thesis using int(2) run(2) by blast
  qed
  show ?thesis
    unfolding ex main_compiling [where readable = readable and writable = writable, OF assms(2,3,4)]
    by (intro exI [of _ exe] conjI allI c(1) [rule_format]) (use c(2) agree in fastforce)
qed

abbreviation example_run :: "nat \<Rightarrow> main_result outcome" where
  "example_run n \<equiv> main (heap_of (mk_op IR_OP_MAX 0) 16) elf_served n [''a.bf'' \<mapsto> ''+[-].''] [''a'' \<mapsto> 0x1A4]
     [''bfcomp'', ''a.bf''] []"

theorem back_ends_agree_witness:
  "\<exists>file im cpu n r m. example_main ''+[-].'' = Done (Wrote_elf file 0x1ED) \<and> process file (\<lambda>_. 0) [] = Some (im, cpu)
    \<and> example_run n = Done (Interpreted r)
    \<and> x86_run im n cpu = Done m \<and> stdout r = sout m"
proof -
  let ?p = "[Prim Inc, While [Prim Dec], Prim PutByte]"
  obtain t where t: "eval bf_step 1 ?p (start_state []) = Done t" "out t = [0]"
    using eval_example [OF start_cell(1,2)] start_cell(3) by fastforce
  have never: "eval bf_step f ?p (start_state []) \<noteq> Crash" for f
  proof (cases "1 \<le> f")
    case True
    then show ?thesis using eval_more_fuel [of bf_step 1 ?p "start_state []" f] t(1) by simp
  next
    case False
    then show ?thesis using eval_more_fuel [of bf_step f ?p "start_state []" 1] t(1) by fastforce
  qed
  have s: "bf_syntax (source_text ''+[-].'') ?p" "single_reads (source_text ''+[-].'')"
    using syntax_example by simp_all
  have r: "[''a.bf'' \<mapsto> ''+[-].''] ''a.bf'' = Some ''+[-].''" "[''a'' \<mapsto> 0x1A4] ''a'' = Some (0x1A4 :: u32)" by simp_all
  have e: "make_exe 0x1A4 = 0x1ED" by (simp add: make_exe_def)
  from main_interprets(1) [OF s(1) op_heap op_bounds(1,2) byte_heap(1) op_bounds(4) t(1)]
  obtain n0 r0 where "main_run (heap_of (mk_op IR_OP_MAX 0) 16) elf_served (n0 + 0) False None (Some ''+[-].'') [] = Done (Interpreted r0)"
    by blast
  then have ends: "example_run n0 \<noteq> Timeout"
    unfolding main_interpreting [where readable = "[''a.bf'' \<mapsto> ''+[-].'']", OF example_options(1) r(1)] by simp
  from back_ends_agree [where readable = "[''a.bf'' \<mapsto> ''+[-].'']" and writable = "[''a'' \<mapsto> 0x1A4]",
      OF example_options r s never op_heap op_bounds(1,2) elf_heaps op_bounds(4) code_bounds(2,1,3)]
  obtain exe where exe: "example_main ''+[-].'' = Done (Wrote_elf exe 0x1ED)"
      "\<exists>im cpu. process exe (\<lambda>_. 0) [] = Some (im, cpu) \<and>
        ((\<exists>n r m. (\<forall>k. example_run (n + k) = Done (Interpreted r) \<and> x86_run im (n + k) cpu = Done m)
            \<and> stdout r = sout m \<and> stdin r = sin m \<and> vdata (ictx r) = bss m \<and> regs m 3 = 0)
         \<or> (\<forall>n. example_run n = Timeout \<and> x86_run im n cpu = Timeout))"
    unfolding example_main_def e by blast
  then obtain im cpu n r m where x: "process exe (\<lambda>_. 0) [] = Some (im, cpu)"
      "\<forall>k. example_run (n + k) = Done (Interpreted r) \<and> x86_run im (n + k) cpu = Done m" "stdout r = sout m"
    using ends by blast
  have "example_run n = Done (Interpreted r)" "x86_run im n cpu = Done m"
    using x(2) [THEN spec, of 0] by simp_all
  with exe(1) x(1,3) show ?thesis by blast
qed

text \<open>
  C6: In the file written the text segment starts at the entry point and holds at most 19 bytes
  per source character and 19 more; the address patched into its first instruction is that of
  the data segment, the first page boundary behind the text, so the 30000 cells overlap
  neither the text nor the end of the address space.  The sections have their names.
\<close>
theorem executable_layout:
  assumes "parse_options argv = Done (Some \<lparr>input_name = Some name, output_name = Some target, dump_ir = False\<rparr>)"
    and "readable name = Some content" and "writable target = Some mode"
    and "bf_syntax (source_text content) p" and "single_reads (source_text content)"
    and "roomy Ai ilim" and "BUFLEN \<le> ilim" and "length content < ilim"
    and "elf_serves A lim" and "19 * length content + 100 \<le> lim" and "lim < 2 ^ 32" and "length content \<le> 10 ^ 8"
  shows "\<exists>file. main Ai A n readable writable argv i = Done (Wrote_elf file (make_exe mode))
    \<and> set (elf_section_names file) = {[], ''.text'', ''.bss'', ''.shstrtab''}
    \<and> (\<forall>g input. \<exists>im cpu. process file g input = Some (im, cpu) \<and> eip cpu = text_base im \<and> text_base im = 0x08048000
      \<and> length (text_bytes im) \<le> 19 * length content + 19 \<and> take 5 (text_bytes im) = 0xBF # le32 (bss_base im)
      \<and> unat (bss_base im) mod 4096 = 0 \<and> unat (text_base im) + length (text_bytes im) \<le> unat (bss_base im)
      \<and> unat (bss_base im) < unat (text_base im) + length (text_bytes im) + 4096
      \<and> length (bss cpu) = 30000 \<and> unat (bss_base im) + 30000 < 2 ^ 32)"
proof -
  from main_compiles [OF assms(4-12)] obtain exe tx bss_addr q where
      c: "\<forall>n mode i. main_run Ai A n False (Some (Some mode)) (Some content) i = Done (Wrote_elf exe (make_exe mode))"
      "\<forall>g i. process exe g i = Some (loaded_image tx bss_addr, started g i)"
      "vec_list tx = 0xBF # le32 bss_addr @ program_bytes q"
      "length (vec_list tx) \<le> 19 * length content + 19"
      "unat text_vaddr + length (vec_list tx) \<le> unat bss_addr" "unat bss_addr mod 4096 = 0"
      "unat bss_addr < unat text_vaddr + length (vec_list tx) + 4096"
      "set (elf_section_names exe) = {[], ''.text'', ''.bss'', ''.shstrtab''}"
    by (elim exE conjE) (rule that)
  have t5: "take 5 (vec_list tx) = 0xBF # le32 bss_addr" by (simp add: c(3) le32_def)
  have tv: "text_vaddr = 0x08048000" by (simp add: text_vaddr_def)
  have top: "unat bss_addr + 30000 < 2 ^ 32"
    using c(4,7) assms(12) by (simp add: text_vaddr_def)
  have im: "text_base (loaded_image tx bss_addr) = text_vaddr" "text_bytes (loaded_image tx bss_addr) = vec_list tx"
      "bss_base (loaded_image tx bss_addr) = bss_addr" by (simp_all add: loaded_image_def)
  have cpu: "eip (started g input) = text_vaddr" "length (bss (started g input)) = 30000" for g input
    by (simp_all add: started_def)
  show ?thesis
    unfolding main_compiling [where readable = readable and writable = writable, OF assms(1-3)]
  proof (intro exI [of _ exe] conjI allI)
    show "main_run Ai A n False (Some (Some mode)) (Some content) i = Done (Wrote_elf exe (make_exe mode))"
      using c(1) by blast
    fix g input
    show "\<exists>im cpu. process exe g input = Some (im, cpu) \<and> eip cpu = text_base im \<and> text_base im = 0x08048000
      \<and> length (text_bytes im) \<le> 19 * length content + 19 \<and> take 5 (text_bytes im) = 0xBF # le32 (bss_base im)
      \<and> unat (bss_base im) mod 4096 = 0 \<and> unat (text_base im) + length (text_bytes im) \<le> unat (bss_base im)
      \<and> unat (bss_base im) < unat (text_base im) + length (text_bytes im) + 4096
      \<and> length (bss cpu) = 30000 \<and> unat (bss_base im) + 30000 < 2 ^ 32"
      by (intro exI [of _ "loaded_image tx bss_addr"] exI [of _ "started g input"], unfold im cpu)
        (intro conjI c(2) [rule_format] c(4-7) t5 tv top refl)
  qed (fact c(8))
qed

theorem executable_layout_witness:
  "\<exists>file im cpu. example_main ''+[-].'' = Done (Wrote_elf file 0x1ED) \<and> process file (\<lambda>_. 0) [] = Some (im, cpu)
    \<and> unat (bss_base im) mod 4096 = 0"
proof -
  have s: "bf_syntax (source_text ''+[-].'') [Prim Inc, While [Prim Dec], Prim PutByte]"
      "single_reads (source_text ''+[-].'')"
    using syntax_example by simp_all
  have r: "[''a.bf'' \<mapsto> ''+[-].''] ''a.bf'' = Some ''+[-].''" "[''a'' \<mapsto> 0x1A4] ''a'' = Some (0x1A4 :: u32)" by simp_all
  have e: "make_exe 0x1A4 = 0x1ED" by (simp add: make_exe_def)
  from executable_layout [where readable = "[''a.bf'' \<mapsto> ''+[-].'']" and writable = "[''a'' \<mapsto> 0x1A4]",
      OF example_options(2) r s op_heap op_bounds(1,2) elf_heaps code_bounds(2,1,3)]
  obtain exe where f: "example_main ''+[-].'' = Done (Wrote_elf exe 0x1ED)"
      "\<exists>im cpu. process exe (\<lambda>_. 0) [] = Some (im, cpu) \<and> unat (bss_base im) mod 4096 = 0"
    unfolding e example_main_def by meson
  from f(2) obtain im cpu where p: "process exe (\<lambda>_. 0) [] = Some (im, cpu)" "unat (bss_base im) mod 4096 = 0"
    by (elim exE conjE) (rule that)
  show ?thesis by (rule exI [of _ exe], rule exI [of _ im], rule exI [of _ cpu]) (intro conjI f(1) p)
qed

section \<open>Rejected sources and errors\<close>

text \<open>
  C7: On files that can be opened, whatever the options, the program exits with a failure exactly when some prefix
  of the source has more \<open>]\<close> than \<open>[\<close>; wherever the chunk boundaries fall.
\<close>
theorem rejects_exactly_unbalanced:
  assumes "parse_options argv = Done (Some options)" and "input_name options = Some name" and "readable name = Some content"
    and "\<And>target. output_name options = Some target \<Longrightarrow> writable target \<noteq> None"
    and "roomy Ai lim" and "BUFLEN \<le> lim" and "length content \<le> lim"
  shows "main Ai A n readable writable argv input = Done Exit_failure \<longleftrightarrow>
    (\<exists>k \<le> length (source_text content). count_list (take k (source_text content)) (CHR ''['')
        < count_list (take k (source_text content)) (CHR '']''))"
proof -
  have m: "main Ai A n readable writable argv input
      = main_run Ai A n (dump_ir options) (map_option writable (output_name options)) (Some content) input"
    using assms(1-3) by (simp add: main_def)
  have "map_option writable (output_name options) \<noteq> Some None" using assms(4) by (cases "output_name options") auto
  from main_rejects [OF assms(5-7)] main_accepts [OF assms(5-7) this] show ?thesis
    unfolding m by (auto simp: src_z_None_iff)
qed

theorem rejects_exactly_unbalanced_witness:
  "main (heap_of (mk_op IR_OP_MAX 0) 16) elf_served 0 [''a.bf'' \<mapsto> ''+][''] Map.empty [''bfcomp'', ''a.bf''] [] = Done Exit_failure"
proof -
  have s: "source_text ''+]['' = ''+]['' " by (simp add: source_text_id)
  have "\<exists>k \<le> length (source_text ''+]['').  count_list (take k (source_text ''+]['')) (CHR ''['')
        < count_list (take k (source_text ''+]['')) (CHR '']'')"
    unfolding s by (rule exI [of _ 2]) simp
  moreover have "length ''+]['' \<le> (100000 :: nat)" by simp
  ultimately show ?thesis
    using rejects_exactly_unbalanced [OF example_options(1) _ _ _ op_heap op_bounds(1), where content = "''+][''" and name = "''a.bf''"
        and readable = "[''a.bf'' \<mapsto> ''+]['']" and writable = Map.empty] by simp
qed

text \<open>
  C8: The result of the compiler is not looked at.  When a compiled part \<open>q\<close> of the program is
  followed, outside a loop, by an operation with an operand that does not fit 32 bits, compilation
  stops there with an error, and a file is written all the same: the process started from it
  has the prologue and the code of \<open>q\<close>, and nothing behind it, not even the exit call.
\<close>
theorem compile_error_still_written:
  assumes "vec_ok ir" and "vec_list ir = flat q @ x # rest"
    and "too_big (arg x)" and "kind x = IR_OP_TAPE \<or> kind x = IR_OP_CELL \<or> kind x = IR_OP_WRITE \<or> kind x = IR_OP_READ"
    and "all_prims plain_op q" and "length (code_bytes q) < 2 ^ 31 - 9"
    and "roomy Ai ilim" and "vlength ir < ilim"
    and "elf_serves A lim" and "100 + length (code_bytes q) \<le> lim" and "vlength ir < lim" and "lim < 2 ^ 32"
  shows "\<exists>fp ir'. write_elf_file Ai A ir empty_file = Some (fp, ir')
    \<and> (\<forall>g input. \<exists>im cpu. process (fbytes fp) g input = Some (im, cpu) \<and> eip cpu = text_base im
      \<and> text_bytes im = 0xBF # le32 (bss_base im) @ [0xFF, 0xF7] @ code_bytes q)"
proof -
  have A: "roomy (byte_alloc A) lim" "7 + length (code_bytes q) \<le> lim" using assms(9,10) by (simp_all add: elf_serves_def)
  obtain tx bss_addr ir' where w: "write_text Ai (byte_alloc A) ir = Some (tx, bss_addr, ir')" "vec_ok tx"
      "vec_list tx = 0xBF # le32 bss_addr @ [0xFF, 0xF7] @ code_bytes q"
    using write_text_error [OF assms(1-4,7,8) A assms(11,5,6)] by (elim exE conjE) (rule that)
  have l: "vlength tx = 7 + length (code_bytes q)" using length_vec_list [OF w(2)] w(3) by simp
  have tl: "vlength tx \<noteq> 0" "vlength tx < 2 ^ 31" using assms(6) unfolding l by simp_all
  have "100 \<le> lim" using assms(10) by simp
  from write_elf_file_loads [OF assms(9) this assms(12) w(1,2) tl] obtain fp segs where
      f: "write_elf_file Ai A ir empty_file = Some (fp, ir')" "elf_load (fbytes fp) = Some (unat text_vaddr, segs)"
      "segs = [text_seg tx, bss_seg bss_addr] \<or> segs = [bss_seg bss_addr, text_seg tx]"
    by (elim exE conjE) (rule that)
  have p: "process (fbytes fp) g input = Some (loaded_image tx bss_addr, started g input)" for g input
    by (rule process_of_segments [OF f(2) w(2) f(3)])
  show ?thesis
    using f(1) w(3) by (intro exI [of _ fp] exI [of _ ir']) (simp add: p loaded_image_def started_def)
qed

theorem compile_error_still_written_witness:
  "\<exists>fp ir' im cpu. write_elf_file (heap_of (mk_op IR_OP_MAX 0) 16) elf_served
      \<lparr>borrowed = False, vlength = 2, vcapacity = 2, vdata = [mk_op IR_OP_TAPE 1, mk_op IR_OP_CELL (2 ^ 40)], patch = []\<rparr> empty_file
      = Some (fp, ir') \<and> process (fbytes fp) (\<lambda>_. 0) [] = Some (im, cpu)
    \<and> text_bytes im = 0xBF # le32 (bss_base im) @ [0xFF, 0xF7, 0x47]"
proof -
  let ?x = "mk_op IR_OP_CELL (2 ^ 40)" and ?q = "[Prim (mk_op IR_OP_TAPE 1)]"
  let ?ir = "\<lparr>borrowed = False, vlength = 2, vcapacity = 2, vdata = [mk_op IR_OP_TAPE 1, ?x], patch = []\<rparr> :: ir_ctx"
  have c: "code_bytes ?q = [0x47]" by (simp add: op_bytes_def add_sub_bytes_def)
  have h: "vec_ok ?ir" "vec_list ?ir = flat ?q @ ?x # []" "too_big (arg ?x)"
      "kind ?x = IR_OP_TAPE \<or> kind ?x = IR_OP_CELL \<or> kind ?x = IR_OP_WRITE \<or> kind ?x = IR_OP_READ"
      "all_prims plain_op ?q" "vlength ?ir < 100000"
    by (simp_all add: vec_ok_def vec_list_def too_big_def plain_op_def)
  have s: "length (code_bytes ?q) < 2 ^ 31 - 9" "100 + length (code_bytes ?q) \<le> 100000" unfolding c by simp_all
  from compile_error_still_written [OF h(1-5) s(1) op_heap h(6) elf_heaps s(2) h(6) code_bounds(1)]
  show ?thesis unfolding c append.simps by meson
qed

text \<open>
  C22: A run of two or more commas, one \<open>READ\<close> with that operand, makes the interpreter take
  as many bytes of input but the compiled code only one: the code emitted for it ignores the
  operand, and the two ends of the program continue with different input.
\<close>
theorem read_runs_differ:
  assumes "interp_at i s r" and "kind x = IR_OP_READ" and "2 \<le> sint (arg x)" and "inp s = a # b # bs"
    and "vec_get ir k = Some x" and "\<not> too_big (arg x)" and "vec_ok v" and "roomy A lim" and "vlength v + 19 \<le> lim"
  shows "\<exists>r' v' code. interpret_block x r = Some r' \<and> stdin r' = drop (nat (sint (arg x))) (a # b # bs)
    \<and> emit_code_read A v ir k = Some (COMPILE_OK, v') \<and> vec_list v' = vec_list v @ code
    \<and> (\<forall>im j m. code_at im j code \<longrightarrow> x86_at im j s m \<longrightarrow>
          (\<exists>n m'. reaches im n m m' \<and> eip m' = text_base im + of_nat (j + length code)
            \<and> sin m' = b # bs \<and> sin m' \<noteq> stdin r'))"
proof -
  let ?n = "nat (sint (arg x))"
  have in_n: "inp ((get_byte ^^ k) u) = drop k (inp u)" for k u
  proof (induction k arbitrary: u)
    case (Suc k)
    have "inp (get_byte u) = tl (inp u)" by (cases "inp u") (simp_all add: get_byte_def set_cell_def)
    then show ?case using Suc.IH [of "get_byte u"] by (simp add: funpow_swap1 drop_Suc)
  qed simp
  have "ir_step x s = Some ((get_byte ^^ ?n) s)" using assms(2) by (simp add: ir_step_def)
  then obtain r' where r': "interpret_block x r = Some r'" "interp_at i ((get_byte ^^ ?n) s) r'"
    using interp_block_prim [OF assms(1)] by blast
  have out: "stdin r' = drop ?n (a # b # bs)" using r'(2) assms(4) by (simp add: interp_at_def in_n)
  have ne: "drop ?n (a # b # bs) \<noteq> b # bs"
  proof
    assume "drop ?n (a # b # bs) = b # bs"
    then have "length (a # b # bs) - ?n = length (b # bs)" by (metis length_drop)
    then show False using assms(3) by simp
  qed
  obtain w where w: "emit_code_read A v ir k = emitted w" "emits_in A lim v (op_bytes x) w"
    using code_fn_bytes [OF assms(5,6), of A lim v] assms(2) unfolding emits_ok_def by auto
  have inv: "vec_ok v \<and> roomy A lim" and rm: "length (vec_list v) + length (op_bytes x) \<le> lim"
    using assms(2,7-9) by (simp_all add: length_vec_list op_bytes_def length_io)
  obtain v' where v': "w = Some v'" "vec_list v' = vec_list v @ op_bytes x"
    by (rule vb.emitsE [OF w(2) inv rm]) simp
  have step: "code_step x s = Some (get_byte s)" using assms(2) by (rule code_step_read)
  have run: "\<exists>n m'. reaches im n m m' \<and> eip m' = text_base im + of_nat (j + length (op_bytes x))
      \<and> sin m' = b # bs \<and> sin m' \<noteq> stdin r'"
    if c: "code_at im j (op_bytes x)" and at: "x86_at im j s m" for im j m
  proof -
    obtain n m' where m': "reaches im n m m'" "x86_at im (j + length (op_bytes x)) (get_byte s) m'"
      using runs_op [OF at c step] by (auto simp: runs_to_def)
    have "sin m' = b # bs" using m'(2) assms(4) by (simp add: x86_at_def get_byte_def set_cell_def)
    then show ?thesis using m' ne out unfolding x86_at_def by metis
  qed
  have "emit_code_read A v ir k = Some (COMPILE_OK, v')" using w(1) v'(1) by simp
  then show ?thesis using r'(1) out v'(2) run by blast
qed

theorem read_runs_differ_witness:
  "\<exists>r' v' code. interpret_block (mk_op IR_OP_READ 2) (two_cells\<lparr>stdin := [5, 6]\<rparr>) = Some r' \<and> stdin r' = []
    \<and> emit_code_read (heap_of 0 1) vec_init (one_op (mk_op IR_OP_READ 2)) 0 = Some (COMPILE_OK, v')
    \<and> vec_list v' = code
    \<and> (length code < 2 ^ 31 \<longrightarrow> (\<exists>n m'. reaches (tiny_image code) n tiny_cpu m' \<and> sin m' = [6]))"
proof -
  let ?x = "mk_op IR_OP_READ 2"
  have at: "interp_at 0 tiny_state (two_cells\<lparr>stdin := [5, 6]\<rparr>)"
    by (simp add: interp_at_def on_tape_def)
  have x: "kind ?x = IR_OP_READ" "2 \<le> sint (arg ?x)" "inp tiny_state = 5 # 6 # []" "\<not> too_big (arg ?x)"
    by (simp_all add: too_big_def)
  have room: "vlength (vec_init :: u8 vec) + 19 \<le> 1000" by (simp add: length_fresh)
  from read_runs_differ [OF at x(1-3) one_op_get x(4) vec_init_ok(1) code_heap room]
  obtain r' v' code where r': "interpret_block ?x (two_cells\<lparr>stdin := [5, 6]\<rparr>) = Some r'"
      "stdin r' = drop (nat (sint (arg ?x))) [5, 6]"
      "emit_code_read (heap_of 0 1) vec_init (one_op ?x) 0 = Some (COMPILE_OK, v')"
      "vec_list v' = vec_list vec_init @ code"
    and run: "\<forall>im j m. code_at im j code \<longrightarrow> x86_at im j tiny_state m \<longrightarrow>
          (\<exists>n m'. reaches im n m m' \<and> eip m' = text_base im + of_nat (j + length code)
            \<and> sin m' = [6] \<and> sin m' \<noteq> stdin r')" by blast
  have "\<exists>n m'. reaches (tiny_image code) n tiny_cpu m' \<and> sin m' = [6]" if "length code < 2 ^ 31"
    using run tiny_code [OF that] tiny_at [of code] by blast
  then show ?thesis using r' by auto
qed

end
